(* ===== verification/Bes_Prelude.thy ===== *)
theory Bes_Prelude
  imports Main "HOL-Library.Char_ord" "HOL-Library.List_Lexorder" "HOL-Library.Sublist"
begin

text \<open>
  The prelude of the development: the error values the BES throws, the result type of
  fallible code, and the parts of the C++ standard library that the modelled sources
  use, written as executable functions on \<^typ>\<open>string\<close>.

  A \<^verbatim>\<open>std::string\<close> is a list of bytes.  A position is a natural number, and
  \<^verbatim>\<open>std::string::npos\<close> is \<^const>\<open>None\<close>: strings are far shorter than
  \<open>2 ^ 64\<close> bytes, so position arithmetic does not wrap except where the code computes
  with \<^verbatim>\<open>npos\<close> itself, which the models write out.  A \<^verbatim>\<open>std::map\<close> is an association
  list in strictly increasing key order, the order its iterators visit.
\<close>

named_theorems stl_simps \<open>facts on the C++ library operations, for simp\<close>
named_theorems result_splits \<open>split rules for fallible code\<close>

subsection \<open>Errors and results\<close>

text \<open>
  The exception classes of \<^verbatim>\<open>dispatch/BES*Error.h\<close>, each with its message, and
  \<^verbatim>\<open>std::out_of_range\<close> and \<^verbatim>\<open>std::invalid_argument\<close>, which the standard library throws, and \<^verbatim>\<open>std::runtime_error\<close>.  The file name and
  the line number that a \<^verbatim>\<open>BESError\<close> also carries are left out.
\<close>

datatype bes_error =
    BESInternalError string
  | BESInternalFatalError string
  | BESSyntaxUserError string
  | BESForbiddenError string
  | BESNotFoundError string
  | BESTimeoutError string
  | StdOutOfRange
  | StdInvalidArgument
  | StdRuntimeError string

type_synonym 'a result = "bes_error + 'a"

fun res_bind :: "'a result \<Rightarrow> ('a \<Rightarrow> 'b result) \<Rightarrow> 'b result" where
  "res_bind (Inl e) f = Inl e"
| "res_bind (Inr a) f = f a"

lemma res_bind_Inr_iff:
  "res_bind r f = Inr b \<longleftrightarrow> (\<exists>a. r = Inr a \<and> f a = Inr b)"
  by (cases r) auto

lemma res_bind_split [result_splits]:
  "P (res_bind r f) \<longleftrightarrow> (\<forall>e. r = Inl e \<longrightarrow> P (Inl e)) \<and> (\<forall>a. r = Inr a \<longrightarrow> P (f a))"
  by (cases r) auto

text \<open>\<open>fold_res\<close> runs a fallible step over a list and stops at the first error, as a
  \<^verbatim>\<open>for\<close> loop whose body throws does.\<close>

fun fold_res :: "('a \<Rightarrow> 's \<Rightarrow> 's result) \<Rightarrow> 'a list \<Rightarrow> 's \<Rightarrow> 's result" where
  "fold_res f [] s = Inr s"
| "fold_res f (x # xs) s = res_bind (f x s) (fold_res f xs)"

lemma fold_res_append:
  "fold_res f (xs @ ys) s = res_bind (fold_res f xs s) (fold_res f ys)"
  by (induction xs arbitrary: s) (auto split: result_splits)

lemma fold_res_invariant:
  assumes "fold_res f xs s = Inr t" and "P s"
    and "\<And>x s t. x \<in> set xs \<Longrightarrow> f x s = Inr t \<Longrightarrow> P s \<Longrightarrow> P t"
  shows "P t"
  using assms
proof (induction xs arbitrary: s)
  case Nil
  then show ?case by simp
next
  case (Cons x xs)
  from Cons.prems(1) obtain u where u: "f x s = Inr u" "fold_res f xs u = Inr t"
    by (auto simp: res_bind_Inr_iff)
  have "P u" using Cons.prems(2,3) u(1) by auto
  show ?case by (rule Cons.IH [OF u(2) \<open>P u\<close>]) (use Cons.prems(3) in auto)
qed

text \<open>Code that may also have undefined behaviour, which is \<^const>\<open>None\<close>; otherwise it throws or returns.\<close>

type_synonym 'a ub_result = "'a result option"

definition ub_bind :: "'a ub_result \<Rightarrow> ('a \<Rightarrow> 'b ub_result) \<Rightarrow> 'b ub_result" where
  "ub_bind r f = (case r of None \<Rightarrow> None | Some (Inl e) \<Rightarrow> Some (Inl e) | Some (Inr a) \<Rightarrow> f a)"

lemma ub_bind_simps [simp]: "ub_bind (Some (Inr a)) f = f a" "ub_bind (Some (Inl e)) f = Some (Inl e)" "ub_bind None f = None"
  by (simp_all add: ub_bind_def)

definition ub_lift :: "'a option \<Rightarrow> 'a ub_result" where
  "ub_lift = map_option Inr"

fun ub_each :: "('x \<Rightarrow> 's \<Rightarrow> 's ub_result) \<Rightarrow> 'x list \<Rightarrow> 's \<Rightarrow> 's ub_result" where
  "ub_each f [] s = Some (Inr s)"
| "ub_each f (x # xs) s = ub_bind (f x s) (ub_each f xs)"

subsection \<open>Searching strings\<close>

text \<open>The index of the first element that satisfies \<open>p\<close>.\<close>

fun find_idx :: "('a \<Rightarrow> bool) \<Rightarrow> 'a list \<Rightarrow> nat option" where
  "find_idx p [] = None"
| "find_idx p (x # xs) = (if p x then Some 0 else map_option Suc (find_idx p xs))"

lemma find_idx_None_iff [stl_simps]: "find_idx p xs = None \<longleftrightarrow> (\<forall>x \<in> set xs. \<not> p x)"
  by (induction xs) auto

lemma find_idx_SomeD:
  "find_idx p xs = Some i \<Longrightarrow> i < length xs \<and> p (xs ! i) \<and> (\<forall>j < i. \<not> p (xs ! j))"
proof (induction xs arbitrary: i)
  case Nil
  then show ?case by simp
next
  case (Cons x xs)
  show ?case
  proof (cases "p x")
    case True
    with Cons.prems show ?thesis by simp
  next
    case False
    with Cons.prems obtain k where k: "find_idx p xs = Some k" "i = Suc k" by auto
    with Cons.IH [OF k(1)] False show ?thesis
      by (auto simp: nth_Cons split: nat.splits)
  qed
qed

lemma find_idx_append:
  "find_idx p (xs @ ys) =
     (case find_idx p xs of
        Some i \<Rightarrow> Some i
      | None \<Rightarrow> map_option ((+) (length xs)) (find_idx p ys))"
proof (induction xs)
  case Nil
  then show ?case by (cases "find_idx p ys") auto
next
  case (Cons x xs)
  then show ?case by (cases "find_idx p ys") (auto split: option.splits)
qed

lemma find_idx_append_absent [stl_simps]:
  assumes "\<forall>x \<in> set xs. \<not> p x"
  shows "find_idx p (xs @ ys) = map_option ((+) (length xs)) (find_idx p ys)"
proof -
  from assms have "find_idx p xs = None" by (simp add: find_idx_None_iff)
  then show ?thesis by (simp add: find_idx_append)
qed

text \<open>\<^verbatim>\<open>s.find(c, pos)\<close>, \<^verbatim>\<open>s.find_first_of(set, pos)\<close> and
  \<^verbatim>\<open>s.find_first_not_of(set, pos)\<close>.\<close>

definition str_find_char :: "string \<Rightarrow> char \<Rightarrow> nat \<Rightarrow> nat option" where
  "str_find_char s c pos = map_option ((+) pos) (find_idx (\<lambda>x. x = c) (drop pos s))"

definition find_first_of :: "string \<Rightarrow> string \<Rightarrow> nat \<Rightarrow> nat option" where
  "find_first_of s cs pos = map_option ((+) pos) (find_idx (\<lambda>x. x \<in> set cs) (drop pos s))"

definition find_first_not_of :: "string \<Rightarrow> string \<Rightarrow> nat \<Rightarrow> nat option" where
  "find_first_not_of s cs pos = map_option ((+) pos) (find_idx (\<lambda>x. x \<notin> set cs) (drop pos s))"

text \<open>\<^verbatim>\<open>s.find_last_not_of(set)\<close> and \<^verbatim>\<open>s.find_last_of(c)\<close>, searching the whole string.\<close>

definition find_last_not_of :: "string \<Rightarrow> string \<Rightarrow> nat option" where
  "find_last_not_of s cs =
     map_option (\<lambda>i. length s - 1 - i) (find_idx (\<lambda>x. x \<notin> set cs) (rev s))"

definition find_last_of :: "string \<Rightarrow> char \<Rightarrow> nat option" where
  "find_last_of s c = map_option (\<lambda>i. length s - 1 - i) (find_idx (\<lambda>x. x = c) (rev s))"

text \<open>The first position at or after the start where \<open>pat\<close> occurs, and
  \<^verbatim>\<open>s.find(pat, pos)\<close>, which is \<^verbatim>\<open>npos\<close> when \<open>pos\<close> is past the end.\<close>

fun find_sub :: "string \<Rightarrow> string \<Rightarrow> nat option" where
  "find_sub pat [] = (if pat = [] then Some 0 else None)"
| "find_sub pat (x # xs) =
     (if prefix pat (x # xs) then Some 0 else map_option Suc (find_sub pat xs))"

definition str_find :: "string \<Rightarrow> string \<Rightarrow> nat \<Rightarrow> nat option" where
  "str_find s pat pos =
     (if pos \<le> length s then map_option ((+) pos) (find_sub pat (drop pos s)) else None)"

lemma str_find_char_SomeD:
  assumes "str_find_char s c pos = Some i"
  shows "pos \<le> i" and "i < length s" and "s ! i = c"
    and "\<forall>j. pos \<le> j \<and> j < i \<longrightarrow> s ! j \<noteq> c"
proof -
  from assms obtain k where k: "find_idx (\<lambda>x. x = c) (drop pos s) = Some k" and i: "i = pos + k"
    by (auto simp: str_find_char_def)
  note d = find_idx_SomeD [OF k]
  show "pos \<le> i" and "i < length s" and "s ! i = c" using d i by auto
  show "\<forall>j. pos \<le> j \<and> j < i \<longrightarrow> s ! j \<noteq> c"
  proof (intro allI impI)
    fix j assume j: "pos \<le> j \<and> j < i"
    with i have "j - pos < k" by linarith
    with d have "drop pos s ! (j - pos) \<noteq> c" by blast
    moreover from d have "pos \<le> length s" by (cases "pos \<le> length s") auto
    with j have "drop pos s ! (j - pos) = s ! j" by (simp add: nth_drop)
    ultimately show "s ! j \<noteq> c" by simp
  qed
qed

lemma str_find_char_bounds: "str_find_char s c pos = Some i \<Longrightarrow> pos \<le> i \<and> i < length s"
  using str_find_char_SomeD(1,2) by blast

lemma str_find_char_NoneD: "str_find_char s c pos = None \<Longrightarrow> c \<notin> set (drop pos s)"
  by (auto simp: str_find_char_def stl_simps)

lemma str_find_char_append [stl_simps]:
  assumes "c \<notin> set xs"
  shows "str_find_char (pre @ xs @ c # ys) c (length pre) = Some (length pre + length xs)"
proof -
  from assms have "\<forall>x \<in> set xs. \<not> x = c" by auto
  then show ?thesis by (simp add: str_find_char_def find_idx_append_absent)
qed

lemma str_find_char_absent [stl_simps]:
  assumes "c \<notin> set xs"
  shows "str_find_char (pre @ xs) c (length pre) = None"
  using assms by (auto simp: str_find_char_def find_idx_None_iff)

lemma str_find_char_0 [stl_simps]:
  "c \<notin> set xs \<Longrightarrow> str_find_char (xs @ c # ys) c 0 = Some (length xs)"
  using str_find_char_append [of c xs "[]" ys] by simp

lemma str_find_char_0_None [stl_simps]: "str_find_char xs c 0 = None \<longleftrightarrow> c \<notin> set xs"
  by (auto simp: str_find_char_def find_idx_None_iff)

lemma str_find_char_0_append:
  "c \<notin> set xs \<Longrightarrow> str_find_char (xs @ ys) c 0 = map_option ((+) (length xs)) (str_find_char ys c 0)"
proof -
  assume "c \<notin> set xs"
  then have "\<forall>x \<in> set xs. \<not> x = c" by auto
  then show ?thesis
    by (cases "find_idx (\<lambda>x. x = c) ys") (simp_all add: str_find_char_def find_idx_append_absent)
qed

lemma find_sub_None_iff: "find_sub pat xs = None \<longleftrightarrow> \<not> sublist pat xs"
  by (induction pat xs rule: find_sub.induct) (auto simp: sublist_Cons_right)

lemma find_sub_SomeD:
  "find_sub pat xs = Some i \<Longrightarrow> i \<le> length xs \<and> prefix pat (drop i xs)"
  by (induction xs arbitrary: i) (auto split: if_splits)

lemma str_find_None_iff [stl_simps]: "str_find s pat 0 = None \<longleftrightarrow> \<not> sublist pat s"
  by (simp add: str_find_def find_sub_None_iff)

lemma find_first_of_SomeD:
  assumes "find_first_of s cs pos = Some i"
  shows "pos \<le> i" and "i < length s" and "s ! i \<in> set cs"
    and "drop pos s = take (i - pos) (drop pos s) @ s ! i # drop (Suc i) s"
    and "set (take (i - pos) (drop pos s)) \<inter> set cs = {}"
proof -
  from assms obtain k where k: "find_idx (\<lambda>x. x \<in> set cs) (drop pos s) = Some k" and i: "i = pos + k"
    by (auto simp: find_first_of_def)
  note d = find_idx_SomeD [OF k]
  show le: "pos \<le> i" and lt: "i < length s" and "s ! i \<in> set cs" using d i by auto
  have "drop pos s = take k (drop pos s) @ drop pos s ! k # drop (Suc k) (drop pos s)"
    using d by (intro id_take_nth_drop) simp
  then show "drop pos s = take (i - pos) (drop pos s) @ s ! i # drop (Suc i) s"
    using i lt by (simp add: add.commute)
  show "set (take (i - pos) (drop pos s)) \<inter> set cs = {}"
    using d i by (auto simp: in_set_conv_nth)
qed

lemma str_find_SomeD:
  assumes "str_find s pat i = Some j"
  shows "i \<le> j" and "j + length pat \<le> length s" and "s = take j s @ pat @ drop (j + length pat) s"
proof -
  from assms have i: "i \<le> length s" by (auto simp: str_find_def split: if_splits)
  from assms obtain k where k: "find_sub pat (drop i s) = Some k" and j: "j = i + k"
    by (auto simp: str_find_def split: if_splits)
  from find_sub_SomeD [OF k] have le: "k \<le> length s - i" and "prefix pat (drop j s)"
    by (auto simp: j add.commute)
  then obtain t where t: "drop j s = pat @ t" by (auto simp: prefix_def)
  have len: "length (drop j s) = length pat + length t" using t by simp
  show "i \<le> j" using j by simp
  show "j + length pat \<le> length s" using len le i j by simp
  have "drop (j + length pat) s = drop (length pat) (drop j s)" by (simp add: add.commute)
  with t show "s = take j s @ pat @ drop (j + length pat) s"
    by (metis append_take_drop_id append_eq_conv_conj)
qed

text \<open>Where a search finds a character, the text splits there.\<close>

lemma str_find_char_split:
  assumes "str_find_char s c i = Some j"
  shows "drop i s = take (j - i) (drop i s) @ c # drop (Suc j) s"
    and "c \<notin> set (take (j - i) (drop i s))"
proof -
  from assms have f: "find_first_of s [c] i = Some j"
    by (simp add: str_find_char_def find_first_of_def)
  show "drop i s = take (j - i) (drop i s) @ c # drop (Suc j) s"
    using find_first_of_SomeD(3,4) [OF f] by simp
  show "c \<notin> set (take (j - i) (drop i s))"
    using find_first_of_SomeD(5) [OF f] by auto
qed

subsection \<open>Substrings\<close>

text \<open>\<^verbatim>\<open>s.substr(pos, n)\<close> throws when \<open>pos\<close> is past the end.  \<open>substr\<close> is the value for
  the calls where the code has just established \<open>pos \<le> size\<close>; \<open>substr_checked\<close> is used
  where it has not.\<close>

definition substr :: "string \<Rightarrow> nat \<Rightarrow> nat \<Rightarrow> string" where
  "substr s pos n = take n (drop pos s)"

definition substr_checked :: "string \<Rightarrow> nat \<Rightarrow> nat \<Rightarrow> string result" where
  "substr_checked s pos n = (if pos \<le> length s then Inr (substr s pos n) else Inl StdOutOfRange)"

text \<open>Reading \<^verbatim>\<open>s[i]\<close> of a \<^verbatim>\<open>const std::string\<close>: the byte, or the terminating NUL at
  \<open>i = size\<close>.\<close>

definition char_at :: "string \<Rightarrow> nat \<Rightarrow> char" where
  "char_at s i = (if i < length s then s ! i else CHR 0x00)"

lemma substr_append [stl_simps]: "substr (pre @ xs @ ys) (length pre) (length xs) = xs"
  by (simp add: substr_def)

lemma substr_append0 [stl_simps]: "substr (xs @ ys) 0 (length xs) = xs"
  by (simp add: substr_def)

lemma char_at_append [stl_simps]: "char_at (pre @ c # ys) (length pre) = c"
  by (simp add: char_at_def)

lemma char_at_end [stl_simps]: "char_at s (length s) = CHR 0x00"
  by (simp add: char_at_def)

end
