(* ===== verification/Bes_Util.thy ===== *)
theory Bes_Util
  imports Bes_Prelude
begin

text \<open>
  The string utilities of \<^verbatim>\<open>dispatch/BESUtil.cc\<close>: trimming, lower-casing, removing
  backslash escapes, XML entities, splitting and joining delimited lists, converting a
  process id to text, and taking a URL apart.  Each loop of the source is a recursive
  function over the same indices.  The properties relate each routine to a direct
  definition of what it computes, or show that two routines are inverse to each other.
\<close>

subsection \<open>Trimming and letter case\<close>

definition trim_if_trailing_slash :: "string \<Rightarrow> string" where
  "trim_if_trailing_slash value =
     (if value \<noteq> [] \<and> last value = CHR ''/'' then butlast value else value)"

definition trim_if_surrounding_quotes :: "string \<Rightarrow> string" where
  "trim_if_surrounding_quotes value =
     (let v = (if value \<noteq> [] \<and> hd value = CHR 0x22 then tl value else value)
      in if v \<noteq> [] \<and> last v = CHR 0x22 then butlast v else v)"

text \<open>\<^verbatim>\<open>tolower\<close> in the C locale.\<close>

definition tolower :: "char \<Rightarrow> char" where
  "tolower c = (if CHR ''A'' \<le> c \<and> c \<le> CHR ''Z'' then char_of (of_char c + 32 :: nat) else c)"

definition lowercase :: "string \<Rightarrow> string" where
  "lowercase s = map tolower s"

definition blanks :: string where
  "blanks = [CHR '' '', CHR 0x09, CHR 0x0A, CHR 0x0D]"

definition removeLeadingAndTrailingBlanks :: "string \<Rightarrow> string" where
  "removeLeadingAndTrailingBlanks key =
     (if key \<noteq> [] then
        (case find_first_not_of key blanks 0 of
           None \<Rightarrow> []
         | Some first \<Rightarrow>
             (case find_last_not_of key blanks of
                None \<Rightarrow> []
              | Some lst \<Rightarrow> substr key first (lst - first + 1)))
      else key)"

subsection \<open>Backslash escapes\<close>

text \<open>
  \<^verbatim>\<open>BESUtil::unescape\<close>.  A backslash in the last position makes the code read the
  terminating NUL and continue at \<open>size + 1\<close>, where \<^verbatim>\<open>substr\<close> throws.
\<close>

function unescape_loop :: "string \<Rightarrow> nat \<Rightarrow> string \<Rightarrow> string result" where
  "unescape_loop s index new_str =
     (case str_find_char s (CHR 0x5C) index of
        None \<Rightarrow>
          res_bind (substr_checked s index (length s - index)) (\<lambda>rest. Inr (new_str @ rest))
      | Some bs \<Rightarrow>
          unescape_loop s (bs + 2) (new_str @ substr s index (bs - index) @ [char_at s (bs + 1)]))"
  by pat_completeness auto
termination
  by (relation "measure (\<lambda>(s, index, _). length s + 2 - index)")
    (auto dest!: str_find_char_bounds)

definition unescape :: "string \<Rightarrow> string result" where
  "unescape s = unescape_loop s 0 []"

subsection \<open>XML entities\<close>

definition entity :: "char \<Rightarrow> string" where
  "entity c =
     (if c = CHR ''>'' then ''&gt;''
      else if c = CHR ''<'' then ''&lt;''
      else if c = CHR ''&'' then ''&amp;''
      else if c = CHR 0x27 then ''&apos;''
      else if c = CHR 0x22 then ''&quot;''
      else [c])"

text \<open>The default of the parameter \<^verbatim>\<open>not_allowed\<close> of \<^verbatim>\<open>id2xml\<close>.\<close>

definition xml_not_allowed :: string where
  "xml_not_allowed = [CHR ''>'', CHR ''<'', CHR ''&'', CHR 0x27, CHR 0x22]"

function id2xml_loop :: "string \<Rightarrow> string \<Rightarrow> nat \<Rightarrow> string" where
  "id2xml_loop not_allowed s i =
     (case find_first_of s not_allowed i of
        None \<Rightarrow> s
      | Some j \<Rightarrow> id2xml_loop not_allowed (take j s @ entity (s ! j) @ drop (Suc j) s) (Suc j))"
  by pat_completeness auto

text \<open>
  Each round either replaces one of the five special characters, after which fewer of
  them are left, or replaces a character by itself and moves past it.
\<close>

lemma entity_special: "c \<in> set xml_not_allowed \<Longrightarrow> \<exists>t. entity c = CHR ''&'' # t \<and> set t \<inter> set xml_not_allowed = {}"
  by (auto simp: entity_def xml_not_allowed_def)

lemma entity_plain: "c \<notin> set xml_not_allowed \<Longrightarrow> entity c = [c]"
  by (auto simp: entity_def xml_not_allowed_def)

lemma id2xml_step_measure:
  assumes "find_first_of s cs i = Some j"
  shows "((take j s @ entity (s ! j) @ drop (Suc j) s, Suc j), (s, i))
    \<in> measures [\<lambda>(s, i). length (filter (\<lambda>c. c \<in> set xml_not_allowed) (drop i s)),
                \<lambda>(s, i). length s - i]"
proof -
  note j = find_first_of_SomeD [OF assms]
  let ?f = "filter (\<lambda>c. c \<in> set xml_not_allowed)"
  have cnt: "length (?f (drop (Suc j) s)) + (if s ! j \<in> set xml_not_allowed then 1 else 0)
      \<le> length (?f (drop i s))"
    by (subst j(4)) simp
  show ?thesis
  proof (cases "s ! j \<in> set xml_not_allowed")
    case True
    then obtain t where t: "entity (s ! j) = CHR ''&'' # t" "set t \<inter> set xml_not_allowed = {}"
      using entity_special by blast
    have "?f t = []" using t(2) by (auto simp: filter_empty_conv)
    with cnt True t j show ?thesis by simp
  next
    case False
    with cnt j show ?thesis by (auto simp: entity_plain)
  qed
qed

termination id2xml_loop
proof (relation "inv_image (measures [\<lambda>(s, i). length (filter (\<lambda>c. c \<in> set xml_not_allowed) (drop i s)),
    \<lambda>(s, i). length s - i]) (\<lambda>(_, s, i). (s, i))", goal_cases)
  case 1
  show ?case by simp
next
  case (2 not_allowed s i j)
  then show ?case using id2xml_step_measure by simp
qed

definition id2xml :: "string \<Rightarrow> string \<Rightarrow> string" where
  "id2xml s not_allowed = id2xml_loop not_allowed s 0"

text \<open>One pass of \<^verbatim>\<open>xml2id\<close>: \<^verbatim>\<open>while ((i = in.find(pat, i)) != npos) in.replace(i, n, rep)\<close>,
  which does not advance past the replacement.  The passes have a replacement shorter
  than the pattern; the guard says so, and a pass that would not shorten the string is
  left alone.\<close>

function replace_pass :: "string \<Rightarrow> string \<Rightarrow> string \<Rightarrow> nat \<Rightarrow> string" where
  "replace_pass pat rep s i =
     (if length rep < length pat then
        (case str_find s pat i of
           None \<Rightarrow> s
         | Some j \<Rightarrow> replace_pass pat rep (take j s @ rep @ drop (j + length pat) s) j)
      else s)"
  by pat_completeness auto

termination replace_pass
proof (relation "measure (\<lambda>(_, _, s, _). length s)", goal_cases)
  case 1
  show ?case by simp
next
  case (2 pat rep s i j)
  from str_find_SomeD [OF 2(2)] 2(1) show ?case by simp
qed

definition xml2id :: "string \<Rightarrow> string" where
  "xml2id s =
     (let s = replace_pass ''&gt;'' ''>'' s 0;
          s = replace_pass ''&lt;'' ''<'' s 0;
          s = replace_pass ''&amp;'' ''&'' s 0;
          s = replace_pass ''&apos;'' [CHR 0x27] s 0
      in replace_pass ''&quot;'' [CHR 0x22] s 0)"

subsection \<open>What the escaping routines compute\<close>

declare unescape_loop.simps [simp del] id2xml_loop.simps [simp del] replace_pass.simps [simp del]

text \<open>Left-to-right removal of backslashes; a backslash with nothing after it is the
  out-of-range case.\<close>

fun unescaped :: "string \<Rightarrow> string result" where
  "unescaped [] = Inr []"
| "unescaped (c # cs) =
     (if c = CHR 0x5C then
        (case cs of
           [] \<Rightarrow> Inl StdOutOfRange
         | d # ds \<Rightarrow> res_bind (unescaped ds) (\<lambda>r. Inr (d # r)))
      else res_bind (unescaped cs) (\<lambda>r. Inr (c # r)))"

lemma unescaped_plain: "CHR 0x5C \<notin> set xs \<Longrightarrow> unescaped xs = Inr xs"
  by (induction xs) auto

lemma unescaped_prefix:
  "CHR 0x5C \<notin> set xs \<Longrightarrow> unescaped (xs @ ys) = res_bind (unescaped ys) (\<lambda>r. Inr (xs @ r))"
proof (induction xs)
  case Nil
  then show ?case by (cases "unescaped ys") auto
next
  case (Cons x xs)
  then show ?case by (cases "unescaped ys") auto
qed

lemma unescape_loop_spec:
  assumes "index \<le> length s + 1"
  shows "unescape_loop s index acc =
    (if index \<le> length s then res_bind (unescaped (drop index s)) (\<lambda>r. Inr (acc @ r))
     else Inl StdOutOfRange)"
  using assms
proof (induction s index acc rule: unescape_loop.induct)
  case (1 s index acc)
  show ?case
  proof (cases "str_find_char s (CHR 0x5C) index")
    case None
    then have "CHR 0x5C \<notin> set (drop index s)" by (rule str_find_char_NoneD)
    with None show ?thesis
      by (simp add: unescape_loop.simps [of s index acc] substr_checked_def substr_def
          unescaped_plain)
  next
    case (Some bs)
    let ?pre = "take (bs - index) (drop index s)"
    note sp = str_find_char_split [OF Some]
    from str_find_char_bounds [OF Some] have b: "index \<le> bs" "bs < length s" by auto
    have IH: "unescape_loop s (bs + 2) (acc @ ?pre @ [char_at s (bs + 1)]) =
      (if bs + 2 \<le> length s
       then res_bind (unescaped (drop (bs + 2) s)) (\<lambda>r. Inr ((acc @ ?pre @ [char_at s (bs + 1)]) @ r))
       else Inl StdOutOfRange)"
      using "1.IH" [OF Some] b by (simp add: substr_def)
    have spec: "unescaped (drop index s) =
        res_bind (unescaped (CHR 0x5C # drop (Suc bs) s)) (\<lambda>r. Inr (?pre @ r))"
      by (subst sp(1)) (rule unescaped_prefix [OF sp(2)])
    show ?thesis
    proof (cases "bs + 2 \<le> length s")
      case True
      then have "drop (Suc bs) s = s ! Suc bs # drop (bs + 2) s"
        by (simp add: Cons_nth_drop_Suc)
      with True IH spec Some b show ?thesis
        by (cases "unescaped (drop (bs + 2) s)")
          (simp_all add: unescape_loop.simps [of s index acc] substr_def char_at_def)
    next
      case False
      then have "drop (Suc bs) s = []" using b by simp
      with False IH spec Some b show ?thesis
        by (simp add: unescape_loop.simps [of s index acc] substr_def)
    qed
  qed
qed

text \<open>Escaping: every special character becomes its entity, every other one stays.\<close>

lemma entity_absent_prefix:
  "set xs \<inter> set cs = {} \<Longrightarrow> concat (map (\<lambda>c. if c \<in> set cs then entity c else [c]) xs) = xs"
  by (induction xs) auto

lemma entity_tail_fixed:
  assumes "entity c = a # t"
  shows "concat (map (\<lambda>c. if c \<in> set cs then entity c else [c]) t) = t"
proof -
  have "\<forall>x \<in> set t. entity x = [x]"
    using assms by (auto simp: entity_def split: if_splits)
  then show ?thesis by (induction t) auto
qed

lemma id2xml_loop_spec:
  assumes "i \<le> length s"
  shows "id2xml_loop cs s i =
    take i s @ concat (map (\<lambda>c. if c \<in> set cs then entity c else [c]) (drop i s))"
  using assms
proof (induction cs s i rule: id2xml_loop.induct)
  case (1 cs s i)
  let ?enc = "\<lambda>xs. concat (map (\<lambda>c. if c \<in> set cs then entity c else [c]) xs)"
  show ?case
  proof (cases "find_first_of s cs i")
    case None
    then have "set (drop i s) \<inter> set cs = {}"
      by (auto simp: find_first_of_def find_idx_None_iff)
    with None show ?thesis
      by (simp add: id2xml_loop.simps [of cs s i] entity_absent_prefix)
  next
    case (Some j)
    note f = find_first_of_SomeD [OF Some]
    obtain a t where at: "entity (s ! j) = a # t"
      by (cases "entity (s ! j)") (auto simp: entity_def split: if_splits)
    have "id2xml_loop cs s i = take (Suc j) (take j s @ (a # t) @ drop (Suc j) s)
        @ ?enc (drop (Suc j) (take j s @ (a # t) @ drop (Suc j) s))"
      using "1.IH" [OF Some] Some f by (simp add: id2xml_loop.simps [of cs s i] at)
    also have "\<dots> = take j s @ a # ?enc (t @ drop (Suc j) s)"
      using f by (simp add: min_def)
    also have "\<dots> = take j s @ (a # t) @ ?enc (drop (Suc j) s)"
      using entity_tail_fixed [OF at, of cs] by simp
    also have "\<dots> = take i s @ take (j - i) (drop i s) @ entity (s ! j) @ ?enc (drop (Suc j) s)"
      using f(1) take_add [of i "j - i" s] by (simp add: at)
    also have "take (j - i) (drop i s) @ entity (s ! j) @ ?enc (drop (Suc j) s) = ?enc (drop i s)"
      by (subst (2) f(4)) (simp add: entity_absent_prefix [OF f(5)] f(3))
    finally show ?thesis by simp
  qed
qed

text \<open>Unescaping pass by pass: a pass moves over text that does not start with its
  pattern, so on an escaped text it undoes exactly one kind of entity.\<close>

lemma str_find_skip:
  assumes "i < length s" and "\<not> prefix pat (drop i s)"
  shows "str_find s pat i = str_find s pat (Suc i)"
proof -
  from assms(1) have d: "drop i s = s ! i # drop (Suc i) s" by (simp add: Cons_nth_drop_Suc)
  have "map_option ((+) i) (map_option Suc r) = map_option ((+) (Suc i)) r" for r
    by (cases r) auto
  with assms d show ?thesis by (simp add: str_find_def)
qed

lemma replace_pass_skip:
  assumes "i < length s" and "\<not> prefix pat (drop i s)"
  shows "replace_pass pat rep s i = replace_pass pat rep s (Suc i)"
  using str_find_skip [OF assms]
  by (simp add: replace_pass.simps [of pat rep s i] replace_pass.simps [of pat rep s "Suc i"])

lemma replace_pass_skip_block:
  assumes "\<And>u v. blk = u @ v \<Longrightarrow> v \<noteq> [] \<Longrightarrow> \<not> prefix pat (v @ rest)"
  shows "replace_pass pat rep (pre @ blk @ rest) (length pre) =
         replace_pass pat rep (pre @ blk @ rest) (length (pre @ blk))"
  using assms
proof (induction blk arbitrary: pre)
  case Nil
  then show ?case by simp
next
  case (Cons b blk)
  have "\<not> prefix pat ((b # blk) @ rest)" by (rule Cons.prems [of "[]"]) auto
  then have "replace_pass pat rep (pre @ (b # blk) @ rest) (length pre) =
      replace_pass pat rep (pre @ (b # blk) @ rest) (length (pre @ [b]))"
    using replace_pass_skip [of "length pre" "pre @ (b # blk) @ rest" pat rep] by simp
  also have "\<dots> = replace_pass pat rep (pre @ (b # blk) @ rest) (length (pre @ b # blk))"
    using Cons.IH [of "pre @ [b]"] Cons.prems [of "b # _"] by simp
  finally show ?case .
qed

lemma replace_pass_hit:
  assumes "length rep < length pat"
  shows "replace_pass pat rep (pre @ pat @ rest) (length pre) =
         replace_pass pat rep (pre @ rep @ rest) (length pre)"
proof -
  have "find_sub pat (pat @ rest) = Some 0" using assms by (cases pat) auto
  then have "str_find (pre @ pat @ rest) pat (length pre) = Some (length pre)"
    by (simp add: str_find_def)
  then show ?thesis
    using assms by (simp add: replace_pass.simps [of pat rep "pre @ pat @ rest"])
qed

lemma replace_pass_end: "replace_pass pat rep pre (length pre) = pre"
proof (cases "length rep < length pat")
  case True
  then have "str_find pre pat (length pre) = None" by (auto simp: str_find_def)
  then show ?thesis by (simp add: replace_pass.simps)
next
  case False
  then show ?thesis by (simp add: replace_pass.simps)
qed

definition escape_some :: "char set \<Rightarrow> string \<Rightarrow> string" where
  "escape_some E s = concat (map (\<lambda>c. if c \<in> E then entity c else [c]) s)"

lemma entity_no_hit:
  assumes "x \<in> set xml_not_allowed" and "c \<noteq> x" and "entity c = u @ v" and "v \<noteq> []"
    and "c = CHR ''&'' \<Longrightarrow> x \<noteq> CHR ''&''"
    and "c \<in> set xml_not_allowed"
  shows "\<not> prefix (entity x) (v @ rest)"
proof -
  obtain t where t: "entity c = CHR ''&'' # t" "set t \<inter> set xml_not_allowed = {}"
    using entity_special [OF assms(6)] by blast
  obtain w where w: "entity x = CHR ''&'' # w"
    using entity_special [OF assms(1)] by blast
  show ?thesis
  proof (cases u)
    case Nil
    with assms show ?thesis
      by (auto simp: entity_def xml_not_allowed_def split: if_splits)
  next
    case (Cons a u')
    with assms(3) t have "v \<noteq> [] \<longrightarrow> hd v \<in> set t" by (cases v) auto
    moreover have "CHR ''&'' \<notin> set t" using t(2) by (auto simp: xml_not_allowed_def)
    ultimately show ?thesis using assms(4) w by (cases v) auto
  qed
qed

lemma replace_pass_entity:
  assumes x: "x \<in> set xml_not_allowed" "x \<noteq> CHR ''&''"
    and E: "E \<subseteq> set xml_not_allowed" and amp: "CHR ''&'' \<notin> set s"
  shows "replace_pass (entity x) [x] (pre @ escape_some E s) (length pre)
       = pre @ escape_some (E - {x}) s"
  using amp
proof (induction s arbitrary: pre)
  case Nil
  then show ?case by (simp add: escape_some_def replace_pass_end)
next
  case (Cons c s)
  let ?rest = "escape_some E s"
  obtain w where w: "entity x = CHR ''&'' # w" "w \<noteq> []"
    using x by (auto simp: entity_def xml_not_allowed_def)
  have lit: "replace_pass (entity x) [x] (pre @ [c] @ ?rest) (length pre)
      = (pre @ [c]) @ escape_some (E - {x}) s"
    using replace_pass_skip [of "length pre" "pre @ [c] @ ?rest" "entity x" "[x]"]
      Cons.IH [of "pre @ [c]"] Cons.prems w by simp
  consider (hit) "c \<in> E" "c = x" | (other) "c \<in> E" "c \<noteq> x" | (plain) "c \<notin> E" by blast
  then show ?case
  proof cases
    case hit
    with replace_pass_hit [of "[x]" "entity x" pre ?rest] w lit show ?thesis
      by (simp add: escape_some_def)
  next
    case other
    then have "replace_pass (entity x) [x] (pre @ entity c @ ?rest) (length pre) =
        replace_pass (entity x) [x] ((pre @ entity c) @ ?rest) (length (pre @ entity c))"
      using replace_pass_skip_block [of "entity c" "entity x" ?rest "[x]" pre]
        entity_no_hit [OF x(1)] x E Cons.prems by fastforce
    with Cons.IH [of "pre @ entity c"] Cons.prems other show ?thesis
      by (simp add: escape_some_def)
  next
    case plain
    with lit show ?thesis by (simp add: escape_some_def)
  qed
qed

lemma replace_pass_amp_absent:
  assumes "CHR ''&'' \<notin> set s" and "E \<subseteq> set xml_not_allowed" and "CHR ''&'' \<notin> E"
  shows "replace_pass (entity (CHR ''&'')) [CHR ''&''] (pre @ escape_some E s) (length pre)
       = pre @ escape_some E s"
  using assms(1)
proof (induction s arbitrary: pre)
  case Nil
  then show ?case by (simp add: escape_some_def replace_pass_end)
next
  case (Cons c s)
  let ?blk = "if c \<in> E then entity c else [c]"
  have "\<not> prefix (entity (CHR ''&'')) (v @ escape_some E s)" if "?blk = u @ v" "v \<noteq> []" for u v
  proof (cases "c \<in> E")
    case True
    with that assms Cons.prems show ?thesis
      using entity_no_hit [of "CHR ''&''" c u v] by (auto simp: xml_not_allowed_def)
  next
    case False
    with that Cons.prems show ?thesis
      by (cases u) (auto simp: entity_def append_eq_Cons_conv)
  qed
  then have "replace_pass (entity (CHR ''&'')) [CHR ''&''] (pre @ ?blk @ escape_some E s) (length pre) =
      replace_pass (entity (CHR ''&'')) [CHR ''&''] ((pre @ ?blk) @ escape_some E s) (length (pre @ ?blk))"
    using replace_pass_skip_block [of ?blk] by simp
  with Cons.IH [of "pre @ ?blk"] Cons.prems show ?case
    by (simp add: escape_some_def)
qed

lemma id2xml_escape_some: "id2xml s cs = escape_some (set cs) s"
  by (simp add: id2xml_def id2xml_loop_spec escape_some_def)

subsection \<open>Trimming blanks\<close>

lemma find_first_not_of_block:
  assumes "\<forall>x \<in> set a. x \<in> set cs" and "m \<noteq> []" and "hd m \<notin> set cs"
  shows "find_first_not_of (a @ m) cs 0 = Some (length a)"
proof -
  have "find_idx (\<lambda>x. x \<notin> set cs) (a @ m) = map_option ((+) (length a)) (find_idx (\<lambda>x. x \<notin> set cs) m)"
    using assms(1) by (intro find_idx_append_absent) auto
  moreover have "find_idx (\<lambda>x. x \<notin> set cs) m = Some 0" using assms(2,3) by (cases m) auto
  ultimately show ?thesis by (simp add: find_first_not_of_def)
qed

lemma find_last_not_of_block:
  assumes "\<forall>x \<in> set z. x \<in> set cs" and "m \<noteq> []" and "last m \<notin> set cs"
  shows "find_last_not_of (a @ m @ z) cs = Some (length a + length m - 1)"
proof -
  obtain m' l where m: "m = m' @ [l]" using assms(2) by (cases m rule: rev_cases) auto
  have "find_idx (\<lambda>x. x \<notin> set cs) (rev z @ l # rev m' @ rev a) =
      map_option ((+) (length z)) (find_idx (\<lambda>x. x \<notin> set cs) (l # rev m' @ rev a))"
    using assms(1) find_idx_append_absent [of "rev z" "\<lambda>x. x \<notin> set cs"] by simp
  with assms(3) m show ?thesis by (simp add: find_last_not_of_def)
qed

lemma removeBlanks_block:
  assumes "\<forall>x \<in> set a. x \<in> set blanks" and "\<forall>x \<in> set z. x \<in> set blanks" and "m \<noteq> []"
    and "hd m \<notin> set blanks" and "last m \<notin> set blanks"
  shows "removeLeadingAndTrailingBlanks (a @ m @ z) = m"
proof -
  have "find_first_not_of (a @ m @ z) blanks 0 = Some (length a)"
    using assms(1,3,4) by (intro find_first_not_of_block) auto
  moreover have "find_last_not_of (a @ m @ z) blanks = Some (length a + length m - 1)"
    using assms(2,3,5) by (rule find_last_not_of_block)
  moreover have "length a + length m - 1 - length a + 1 = length m" using assms(3) by (cases m) auto
  ultimately show ?thesis
    using assms(3) by (simp add: removeLeadingAndTrailingBlanks_def substr_def)
qed

lemma removeBlanks_all:
  assumes "\<forall>x \<in> set s. x \<in> set blanks"
  shows "removeLeadingAndTrailingBlanks s = []"
proof -
  have "find_idx (\<lambda>x. x \<notin> set blanks) s = None" using assms by (simp add: find_idx_None_iff)
  then show ?thesis by (simp add: removeLeadingAndTrailingBlanks_def find_first_not_of_def)
qed

lemma trim_left: "\<exists>a t. s = a @ t \<and> (\<forall>x \<in> set a. p x) \<and> (t = [] \<or> \<not> p (hd t))"
proof (induction s)
  case Nil
  show ?case by simp
next
  case (Cons x s)
  then obtain a t where d: "s = a @ t" "\<forall>x \<in> set a. p x" "t = [] \<or> \<not> p (hd t)" by blast
  show ?case
  proof (cases "p x")
    case True
    with d have "x # s = (x # a) @ t \<and> (\<forall>y \<in> set (x # a). p y) \<and> (t = [] \<or> \<not> p (hd t))" by simp
    then show ?thesis by blast
  next
    case False
    then have "x # s = [] @ (x # s) \<and> (\<forall>y \<in> set []. p y) \<and> (x # s = [] \<or> \<not> p (hd (x # s)))" by simp
    then show ?thesis by blast
  qed
qed

lemma trim_both:
  "\<exists>a m z. s = a @ m @ z \<and> (\<forall>x \<in> set a. p x) \<and> (\<forall>x \<in> set z. p x) \<and>
     (m = [] \<or> \<not> p (hd m) \<and> \<not> p (last m))"
proof -
  obtain a t where a: "s = a @ t" "\<forall>x \<in> set a. p x" "t = [] \<or> \<not> p (hd t)"
    using trim_left [of s p] by blast
  obtain z m where z: "rev t = z @ m" "\<forall>x \<in> set z. p x" "m = [] \<or> \<not> p (hd m)"
    using trim_left [of "rev t" p] by blast
  then have t: "t = rev m @ rev z" by (metis rev_append rev_rev_ident)
  have "rev m = [] \<or> \<not> p (hd (rev m)) \<and> \<not> p (last (rev m))"
    using a(3) z(3) t by (cases m) (auto simp: last_rev hd_append split: if_splits)
  with a t z(2) have "s = a @ rev m @ rev z \<and> (\<forall>x \<in> set a. p x) \<and> (\<forall>x \<in> set (rev z). p x) \<and>
     (rev m = [] \<or> \<not> p (hd (rev m)) \<and> \<not> p (last (rev m)))" by simp
  then show ?thesis by blast
qed

subsection \<open>Properties\<close>

text \<open>
  C38: \<^verbatim>\<open>unescape\<close> removes backslashes from left to right, keeping the character after
  each of them; a text that ends in an unescaped backslash makes it throw
  \<^verbatim>\<open>std::out_of_range\<close>, and no other text does.
\<close>

theorem unescape_correct: "unescape s = unescaped s"
  by (simp add: unescape_def unescape_loop_spec) (cases "unescaped s"; simp)

text \<open>
  C39: \<^verbatim>\<open>id2xml\<close> with any set of characters to escape replaces every character in the
  set by its entity and leaves the others as they are; in particular the loop never
  escapes the ampersand of an entity it has just written.
\<close>

theorem id2xml_correct:
  "id2xml s not_allowed = concat (map (\<lambda>c. if c \<in> set not_allowed then entity c else [c]) s)"
  by (simp add: id2xml_escape_some escape_some_def)

text \<open>
  C40: \<^verbatim>\<open>xml2id\<close> restores what \<^verbatim>\<open>id2xml\<close> escaped, for every text without an
  ampersand.
\<close>

theorem xml2id_id2xml:
  assumes "CHR ''&'' \<notin> set s"
  shows "xml2id (id2xml s xml_not_allowed) = s"
proof -
  let ?gt = "CHR ''>''" and ?lt = "CHR ''<''" and ?amp = "CHR ''&''" and ?ap = "CHR 0x27" and ?q = "CHR 0x22"
  let ?A = "set xml_not_allowed"
  have no_amp: "escape_some E s = escape_some (E - {?amp}) s" for E
    using assms by (auto simp: escape_some_def intro!: arg_cong [where f = concat])
  note pass = replace_pass_entity [OF _ _ _ assms, where pre = "[]", simplified]
  have "replace_pass ''&gt;'' [?gt] (escape_some ?A s) 0 = escape_some (?A - {?gt}) s"
    using pass [of ?gt ?A] by (simp add: entity_def xml_not_allowed_def)
  moreover have "replace_pass ''&lt;'' [?lt] (escape_some (?A - {?gt}) s) 0 = escape_some (?A - {?gt} - {?lt}) s"
    using pass [of ?lt "?A - {?gt}"] by (auto simp: entity_def xml_not_allowed_def)
  moreover have "replace_pass ''&amp;'' [?amp] (escape_some (?A - {?gt} - {?lt} - {?amp}) s) 0
      = escape_some (?A - {?gt} - {?lt} - {?amp}) s"
    using replace_pass_amp_absent [OF assms, of "?A - {?gt} - {?lt} - {?amp}" "[]"]
    by (auto simp: entity_def)
  moreover have "replace_pass ''&apos;'' [?ap] (escape_some (?A - {?gt} - {?lt} - {?amp}) s) 0
      = escape_some (?A - {?gt} - {?lt} - {?amp} - {?ap}) s"
    using pass [of ?ap "?A - {?gt} - {?lt} - {?amp}"] by (auto simp: entity_def xml_not_allowed_def)
  moreover have "replace_pass ''&quot;'' [?q] (escape_some (?A - {?gt} - {?lt} - {?amp} - {?ap}) s) 0
      = escape_some (?A - {?gt} - {?lt} - {?amp} - {?ap} - {?q}) s"
    using pass [of ?q "?A - {?gt} - {?lt} - {?amp} - {?ap}"] by (auto simp: entity_def xml_not_allowed_def)
  moreover have "?A - {?gt} - {?lt} - {?amp} - {?ap} - {?q} = {}" by (auto simp: xml_not_allowed_def)
  moreover have "escape_some {} s = s" by (simp add: escape_some_def)
  ultimately show ?thesis
    using no_amp [of "?A - {?gt} - {?lt}"] by (simp add: xml2id_def id2xml_escape_some)
qed

theorem xml2id_id2xml_witness:
  "xml2id (id2xml (''if a<b then '' @ [CHR 0x22] @ ''c>d'' @ [CHR 0x22, CHR 0x27]) xml_not_allowed)
   = ''if a<b then '' @ [CHR 0x22] @ ''c>d'' @ [CHR 0x22, CHR 0x27]"
  by (rule xml2id_id2xml) simp

text \<open>
  with ampersands the pair is not inverse.  The text \<^verbatim>\<open>&apos;\<close> escapes to
  \<^verbatim>\<open>&amp;apos;\<close>, and \<^verbatim>\<open>xml2id\<close> decodes it twice, to a single quote: the pass for
  \<^verbatim>\<open>&amp;\<close> comes before the passes for \<^verbatim>\<open>&apos;\<close> and \<^verbatim>\<open>&quot;\<close>.  In the same way the
  search position is not moved past a restored ampersand, so \<^verbatim>\<open>&amp;\<close> comes back as a
  bare ampersand.
\<close>

theorem xml2id_decodes_twice:
  "xml2id (id2xml ''&apos;'' xml_not_allowed) = [CHR 0x27]
   \<and> xml2id (id2xml ''&amp;'' xml_not_allowed) = ''&''"
proof
  show "xml2id (id2xml ''&apos;'' xml_not_allowed) = [CHR 0x27]" by code_simp
  show "xml2id (id2xml ''&amp;'' xml_not_allowed) = ''&''" by code_simp
qed

text \<open>
  \<^verbatim>\<open>removeLeadingAndTrailingBlanks\<close> drops the longest prefix and the longest suffix
  made of blanks, tabs, newlines and carriage returns, and nothing else.
\<close>

theorem removeLeadingAndTrailingBlanks_correct:
  "\<exists>a z. s = a @ removeLeadingAndTrailingBlanks s @ z \<and> set a \<subseteq> set blanks \<and> set z \<subseteq> set blanks
    \<and> (let r = removeLeadingAndTrailingBlanks s
        in r = [] \<or> hd r \<notin> set blanks \<and> last r \<notin> set blanks)"
proof -
  obtain a m z where d: "s = a @ m @ z" "\<forall>x \<in> set a. x \<in> set blanks" "\<forall>x \<in> set z. x \<in> set blanks"
    and m: "m = [] \<or> hd m \<notin> set blanks \<and> last m \<notin> set blanks"
    using trim_both [of s "\<lambda>x. x \<in> set blanks"] by blast
  have "removeLeadingAndTrailingBlanks s = m"
    using removeBlanks_all [of s] removeBlanks_block [OF d(2,3)] d m by (cases "m = []") auto
  with d m show ?thesis by (auto simp: Let_def)
qed

end
