(* ===== verification/Bes_Lists.thy ===== *)
theory Bes_Lists
  imports Bes_Util
begin

text \<open>
  Delimited lists, tokens, numerals and URLs of \<^verbatim>\<open>dispatch/BESUtil.cc\<close>:
  \<^verbatim>\<open>explode\<close> and \<^verbatim>\<open>implode\<close>, \<^verbatim>\<open>tokenize\<close> and \<^verbatim>\<open>split\<close>, \<^verbatim>\<open>fastpidconverter\<close>,
  \<^verbatim>\<open>url_explode\<close> and \<^verbatim>\<open>url_create\<close>.
\<close>

subsection \<open>explode and implode\<close>

text \<open>The inner loop of \<^verbatim>\<open>explode\<close>: from \<open>qstart\<close>, the position after the quote that ends
  the value which starts at \<open>start\<close>.\<close>

function explode_endquote :: "string \<Rightarrow> nat \<Rightarrow> nat \<Rightarrow> nat result" where
  "explode_endquote str start qstart =
     (case str_find_char str (CHR 0x22) qstart of
        None \<Rightarrow>
          Inl (BESInternalError (''BESUtil::explode - No end quote after value '' @
                 substr str start (length str - start)))
      | Some aquote \<Rightarrow>
          if char_at str (aquote - 1) = CHR 0x5C then
            if char_at str (aquote - 2) = CHR 0x5C then Inr (aquote + 1)
            else explode_endquote str start (aquote + 1)
          else Inr (aquote + 1))"
  by pat_completeness auto
termination
  by (relation "measure (\<lambda>(str, _, qstart). length str - qstart)") (auto dest!: str_find_char_bounds)

declare explode_endquote.simps [simp del]

lemma explode_endquote_bounds:
  "explode_endquote str start qstart = Inr q \<Longrightarrow> qstart < q \<and> q \<le> length str"
proof (induction str start qstart rule: explode_endquote.induct)
  case (1 str start qstart)
  show ?case
  proof (cases "str_find_char str (CHR 0x22) qstart")
    case None
    with "1.prems" show ?thesis by (simp add: explode_endquote.simps [of str start qstart])
  next
    case (Some a)
    from str_find_char_bounds [OF Some] have "qstart \<le> a" "a < length str" by auto
    then show ?thesis
      using "1.prems" "1.IH" [OF Some] Some
      by (fastforce simp: explode_endquote.simps [of str start qstart] split: if_splits)
  qed
qed

text \<open>Where the value that starts at \<open>start\<close> ends: the delimiter, or \<^const>\<open>None\<close>
  (\<^verbatim>\<open>npos\<close>) at the end of the text.\<close>

definition explode_adelim :: "char \<Rightarrow> string \<Rightarrow> nat \<Rightarrow> nat option result" where
  "explode_adelim delim str start =
     (if char_at str start = CHR 0x22 then
        res_bind (explode_endquote str start (start + 1)) (\<lambda>qstart.
          if char_at str qstart \<noteq> delim \<and> qstart \<noteq> length str then
            Inl (BESInternalError (''BESUtil::explode - No delim after end quote '' @
                   substr str start (qstart - start)))
          else if qstart = length str then Inr None
          else Inr (Some qstart))
      else Inr (str_find_char str delim start))"

lemma explode_adelim_bounds:
  assumes "explode_adelim delim str start = Inr (Some a)"
  shows "start \<le> a \<and> a < length str"
  using assms
  by (auto simp: explode_adelim_def res_bind_Inr_iff split: if_splits
      dest!: explode_endquote_bounds str_find_char_bounds)

text \<open>
  The outer loop.  When the last value is reached the code still computes
  \<^verbatim>\<open>start = adelim + 1\<close>; with \<^verbatim>\<open>npos\<close> that is \<open>0\<close>, which equals the length of an
  empty text.
\<close>

function explode_loop :: "char \<Rightarrow> string \<Rightarrow> nat \<Rightarrow> string list \<Rightarrow> string list result" where
  "explode_loop delim str start values =
     (case explode_adelim delim str start of
        Inl e \<Rightarrow> Inl e
      | Inr None \<Rightarrow>
          (let values = values @ [substr str start (length str - start)]
           in if 0 = length str then Inr (values @ [[]]) else Inr values)
      | Inr (Some adelim) \<Rightarrow>
          (let values = values @ [substr str start (adelim - start)]
           in if adelim + 1 = length str then Inr (values @ [[]])
              else explode_loop delim str (adelim + 1) values))"
  by pat_completeness auto
termination
  by (relation "measure (\<lambda>(_, str, start, _). length str - start)")
    (auto dest!: explode_adelim_bounds)

declare explode_loop.simps [simp del]

definition explode :: "char \<Rightarrow> string \<Rightarrow> string list result" where
  "explode delim str = explode_loop delim str 0 []"

fun implode_loop :: "char \<Rightarrow> bool \<Rightarrow> string list \<Rightarrow> string \<Rightarrow> string result" where
  "implode_loop delim first [] result = Inr result"
| "implode_loop delim first (v # vs) result =
     (let result = (if \<not> first then result @ [delim] else result)
      in if str_find_char v delim 0 \<noteq> None \<and> char_at v 0 \<noteq> CHR 0x22 then
           Inl (BESInternalError (''BESUtil::implode - delimiter exists in value '' @ v))
         else implode_loop delim False vs (result @ v))"

definition implode :: "string list \<Rightarrow> char \<Rightarrow> string result" where
  "implode values delim = implode_loop delim True values []"

subsection \<open>Tokens\<close>

text \<open>\<^verbatim>\<open>find_first_of\<close> and \<^verbatim>\<open>find_first_not_of\<close> started at \<^verbatim>\<open>npos\<close> find nothing.\<close>

definition find_from :: "(string \<Rightarrow> string \<Rightarrow> nat \<Rightarrow> nat option) \<Rightarrow> string \<Rightarrow> string \<Rightarrow> nat option \<Rightarrow> nat option" where
  "find_from f s cs pos = (case pos of None \<Rightarrow> None | Some p \<Rightarrow> f s cs p)"

lemma find_first_not_of_SomeD:
  assumes "find_first_not_of s cs pos = Some i"
  shows "pos \<le> i" and "i < length s" and "s ! i \<notin> set cs"
    and "drop pos s = take (i - pos) (drop pos s) @ drop i s"
    and "set (take (i - pos) (drop pos s)) \<subseteq> set cs"
proof -
  from assms obtain k where k: "find_idx (\<lambda>x. x \<notin> set cs) (drop pos s) = Some k" and i: "i = pos + k"
    by (auto simp: find_first_not_of_def)
  note d = find_idx_SomeD [OF k]
  show "pos \<le> i" and "i < length s" and "s ! i \<notin> set cs" using d i by auto
  show "drop pos s = take (i - pos) (drop pos s) @ drop i s"
    using i append_take_drop_id [of k "drop pos s"] by (simp add: add.commute)
  show "set (take (i - pos) (drop pos s)) \<subseteq> set cs"
    using d i by (auto simp: in_set_conv_nth)
qed

lemma find_first_of_ge: "find_first_of s cs p = Some q \<Longrightarrow> p \<le> q \<and> q < length s"
  using find_first_of_SomeD by blast

lemma find_first_not_of_ge: "find_first_not_of s cs p = Some q \<Longrightarrow> p \<le> q \<and> q < length s"
  using find_first_not_of_SomeD by blast

text \<open>
  The loop of \<^verbatim>\<open>tokenize\<close>.  At its head \<^verbatim>\<open>pos\<close> is always
  \<^verbatim>\<open>find_first_of(delimiters, lastPos)\<close>, so \<^verbatim>\<open>pos\<close> is \<^verbatim>\<open>npos\<close> whenever \<^verbatim>\<open>lastPos\<close>
  is, and the loop ends exactly there.  A token with \<^verbatim>\<open>pos == npos\<close> runs to the end of
  the text.
\<close>

function tokenize_loop :: "string \<Rightarrow> string \<Rightarrow> nat option \<Rightarrow> string list \<Rightarrow> string list" where
  "tokenize_loop str delims lastPos tokens =
     (let pos = find_from find_first_of str delims lastPos
      in (case lastPos of
            None \<Rightarrow> tokens
          | Some l \<Rightarrow>
              tokenize_loop str delims (find_from find_first_not_of str delims pos)
                (tokens @ [case pos of None \<Rightarrow> substr str l (length str - l)
                                    | Some p \<Rightarrow> substr str l (p - l)])))"
  by pat_completeness auto

lemma tokenize_step:
  assumes "find_from find_first_not_of str delims (find_first_of str delims l) = Some l'"
  shows "l < l' \<and> l' < length str"
proof -
  from assms obtain p where p: "find_first_of str delims l = Some p"
    and l': "find_first_not_of str delims p = Some l'"
    by (auto simp: find_from_def split: option.splits)
  show ?thesis
    using find_first_of_SomeD(1,3) [OF p] find_first_not_of_SomeD(1-3) [OF l']
    by (cases "p = l'") auto
qed

termination tokenize_loop
proof (relation "measure (\<lambda>(str, _, lastPos, _).
    case lastPos of None \<Rightarrow> 0 | Some l \<Rightarrow> Suc (length str - l))", goal_cases)
  case 1
  show ?case by simp
next
  case (2 str delims lastPos tokens pos l)
  then show ?case
    using tokenize_step [of str delims l]
    by (auto simp: find_from_def split: option.splits)
qed

declare tokenize_loop.simps [simp del]

definition tokenize :: "string \<Rightarrow> string \<Rightarrow> string list" where
  "tokenize str delims = tokenize_loop str delims (find_first_not_of str delims 0) []"

text \<open>
  \<^verbatim>\<open>while (getline(ss, item, delim))\<close>: a line ends at the delimiter or at the end of the
  text, and reading fails at the end of the text.
\<close>

function getlines :: "char \<Rightarrow> string \<Rightarrow> string list" where
  "getlines delim [] = []"
| "getlines delim (c # cs) =
     takeWhile (\<lambda>x. x \<noteq> delim) (c # cs) # getlines delim (tl (dropWhile (\<lambda>x. x \<noteq> delim) (c # cs)))"
  by pat_completeness auto
termination
proof (relation "measure (\<lambda>(_, s). length s)", goal_cases)
  case 1
  show ?case by simp
next
  case (2 delim c cs)
  show ?case using length_dropWhile_le [of "\<lambda>x. x \<noteq> delim" "c # cs"] by (cases "dropWhile (\<lambda>x. x \<noteq> delim) (c # cs)") auto
qed

definition split :: "string \<Rightarrow> char \<Rightarrow> bool \<Rightarrow> string list" where
  "split s delim skip_empty = filter (\<lambda>item. \<not> (item = [] \<and> skip_empty)) (getlines delim s)"

subsection \<open>Process ids\<close>

definition pid_digits :: string where
  "pid_digits = ''0123456789abcdefghijklmnopqrstuvwxyz''"

text \<open>\<^verbatim>\<open>fastpidconverter(val, buf, base)\<close>: the text it leaves in \<^verbatim>\<open>buf\<close>.\<close>

function fastpidconverter :: "int \<Rightarrow> int \<Rightarrow> string" where
  "fastpidconverter val base =
     (if base > 36 \<or> base < 2 then []
      else (if val < 0 then ''-'' else []) @
        (let quot = \<bar>val\<bar> div base; r = \<bar>val\<bar> mod base
         in (if quot > 0 then fastpidconverter quot base else []) @ [pid_digits ! nat r]))"
  by pat_completeness auto
termination
proof (relation "measure (\<lambda>(val, _). nat \<bar>val\<bar>)", goal_cases)
  case 1
  show ?case by simp
next
  case (2 val base q r)
  then have "\<bar>val\<bar> div base < \<bar>val\<bar>"
    by (intro int_div_less_self) auto
  with 2 show ?case by auto
qed

declare fastpidconverter.simps [simp del]

subsection \<open>URLs\<close>

record url =
  url_protocol :: string
  url_domain :: string
  url_uname :: string
  url_psswd :: string
  url_port :: string
  url_path :: string

definition find_or_end :: "string \<Rightarrow> char \<Rightarrow> nat" where
  "find_or_end s c = (case str_find_char s c 0 of None \<Rightarrow> length s | Some i \<Rightarrow> i)"

text \<open>The part of \<^verbatim>\<open>url_explode\<close> after \<^verbatim>\<open>://\<close> that looks for \<^verbatim>\<open>user:password@\<close>; it
  returns the remaining text.\<close>

definition url_explode_user :: "string \<Rightarrow> url \<Rightarrow> string \<times> url" where
  "url_explode_user rest u =
     (case str_find_char rest (CHR ''@'') 0 of
        None \<Rightarrow> (rest, u)
      | Some at \<Rightarrow>
          if at < find_or_end rest (CHR ''/'') then
            (let up = substr rest 0 at
             in (drop (at + 1) rest,
                 case str_find_char up (CHR '':'') 0 of
                   Some colon \<Rightarrow> u\<lparr>url_uname := substr up 0 colon, url_psswd := drop (colon + 1) up\<rparr>
                 | None \<Rightarrow> u\<lparr>url_uname := up\<rparr>))
          else (rest, u))"

definition url_explode_host :: "string \<Rightarrow> url \<Rightarrow> url" where
  "url_explode_host rest u =
     (case str_find_char rest (CHR '':'') 0 of
        Some colon \<Rightarrow>
          if colon < find_or_end rest (CHR ''/'') then
            (let u = u\<lparr>url_domain := substr rest 0 colon\<rparr>; rest = drop (colon + 1) rest
             in (case str_find_char rest (CHR ''/'') 0 of
                   Some slash \<Rightarrow> u\<lparr>url_port := substr rest 0 slash, url_path := drop (slash + 1) rest\<rparr>
                 | None \<Rightarrow> u\<lparr>url_port := rest, url_path := []\<rparr>))
          else
            (case str_find_char rest (CHR ''/'') 0 of
               Some slash \<Rightarrow> u\<lparr>url_domain := substr rest 0 slash, url_path := drop (slash + 1) rest\<rparr>
             | None \<Rightarrow> u\<lparr>url_domain := rest\<rparr>)
      | None \<Rightarrow>
          (case str_find_char rest (CHR ''/'') 0 of
             Some slash \<Rightarrow> u\<lparr>url_domain := substr rest 0 slash, url_path := drop (slash + 1) rest\<rparr>
           | None \<Rightarrow> u\<lparr>url_domain := rest\<rparr>))"

definition url_explode :: "string \<Rightarrow> url \<Rightarrow> url result" where
  "url_explode url_str url_parts =
     (case str_find_char url_str (CHR '':'') 0 of
        None \<Rightarrow> Inl (BESInternalError ''BESUtil::url_explode: missing colon for protocol'')
      | Some colon \<Rightarrow>
          if substr url_str colon 3 \<noteq> ''://'' then
            Inl (BESInternalError ''BESUtil::url_explode: no :// in the URL'')
          else
            (let u = url_parts\<lparr>url_protocol := substr url_str 0 colon\<rparr>;
                 (rest, u) = url_explode_user (drop (colon + 3) url_str) u
             in Inr (url_explode_host rest u)))"

definition url_create :: "url \<Rightarrow> string" where
  "url_create u =
     url_protocol u @ ''://'' @
     (if url_uname u \<noteq> [] then
        url_uname u @ (if url_psswd u \<noteq> [] then '':'' @ url_psswd u else []) @ ''@''
      else []) @
     url_domain u @
     (if url_port u \<noteq> [] then '':'' @ url_port u else []) @
     (if url_path u \<noteq> [] then ''/'' @ url_path u else [])"

subsection \<open>explode undoes implode\<close>

fun join :: "char \<Rightarrow> string list \<Rightarrow> string" where
  "join d [] = []"
| "join d [v] = v"
| "join d (v # w # vs) = v @ d # join d (w # vs)"

text \<open>The values a list may hold: text without the delimiter that does not start with a
  quote, or a quoted text, which may contain the delimiter.\<close>

definition plain_value :: "char \<Rightarrow> string \<Rightarrow> bool" where
  "plain_value d v \<longleftrightarrow> d \<notin> set v \<and> (v \<noteq> [] \<longrightarrow> hd v \<noteq> CHR 0x22)"

definition quoted_value :: "string \<Rightarrow> bool" where
  "quoted_value v \<longleftrightarrow>
     (let body = butlast (tl v)
      in v = CHR 0x22 # body @ [CHR 0x22] \<and> CHR 0x22 \<notin> set body \<and>
         (body \<noteq> [] \<longrightarrow> last body \<noteq> CHR 0x5C))"

lemma quoted_valueE:
  assumes "quoted_value v"
  obtains body where "v = CHR 0x22 # body @ [CHR 0x22]" and "CHR 0x22 \<notin> set body"
    and "body \<noteq> [] \<longrightarrow> last body \<noteq> CHR 0x5C"
  using assms that by (auto simp: quoted_value_def Let_def)

lemma implode_loop_first:
  assumes "\<forall>v \<in> set vs. plain_value d v \<or> quoted_value v"
  shows "implode_loop d False vs result = Inr (result @ concat (map (\<lambda>v. d # v) vs))"
  using assms
proof (induction vs arbitrary: result)
  case Nil
  then show ?case by simp
next
  case (Cons v vs)
  then have "\<not> (str_find_char v d 0 \<noteq> None \<and> char_at v 0 \<noteq> CHR 0x22)"
    by (auto simp: plain_value_def stl_simps char_at_def elim!: quoted_valueE)
  with Cons show ?case by (simp add: Let_def)
qed

lemma join_concat: "join d (v # vs) = v @ concat (map (\<lambda>v. d # v) vs)"
  by (induction vs arbitrary: v) auto

lemma implode_join:
  assumes "\<forall>v \<in> set vs. plain_value d v \<or> quoted_value v"
  shows "implode vs d = Inr (join d vs)"
proof (cases vs)
  case Nil
  then show ?thesis by (simp add: implode_def)
next
  case (Cons v ws)
  with assms have "\<not> (str_find_char v d 0 \<noteq> None \<and> char_at v 0 \<noteq> CHR 0x22)"
    by (auto simp: plain_value_def stl_simps char_at_def elim!: quoted_valueE)
  with Cons assms show ?thesis
    by (simp add: implode_def implode_loop_first join_concat)
qed

lemma explode_endquote_quoted:
  assumes "CHR 0x22 \<notin> set body" and "body \<noteq> [] \<longrightarrow> last body \<noteq> CHR 0x5C"
  shows "explode_endquote (pre @ CHR 0x22 # body @ CHR 0x22 # rest) start (Suc (length pre)) =
         Inr (length pre + length body + 2)"
proof -
  let ?s = "pre @ CHR 0x22 # body @ CHR 0x22 # rest"
  have f: "str_find_char ?s (CHR 0x22) (Suc (length pre)) = Some (Suc (length pre) + length body)"
    using str_find_char_append [OF assms(1), of "pre @ [CHR 0x22]" rest] by simp
  have "?s ! (length pre + length body) = (if body = [] then CHR 0x22 else last body)"
    by (cases body rule: rev_cases) (simp_all add: nth_append)
  then have "char_at ?s (length pre + length body) \<noteq> CHR 0x5C"
    using assms(2) by (auto simp: char_at_def)
  with f show ?thesis by (simp add: explode_endquote.simps)
qed

lemma explode_adelim_value:
  assumes "plain_value d v \<or> quoted_value v" and "d \<noteq> CHR 0x22"
  shows "explode_adelim d (pre @ v @ d # rest) (length pre) = Inr (Some (length pre + length v))"
    and "v \<noteq> [] \<Longrightarrow> explode_adelim d (pre @ v) (length pre) = Inr None"
  using assms(1)
proof -
  show "explode_adelim d (pre @ v @ d # rest) (length pre) = Inr (Some (length pre + length v))"
    using assms(1)
  proof
    assume pv: "plain_value d v"
    then have "char_at (pre @ v @ d # rest) (length pre) \<noteq> CHR 0x22"
      using assms(2) by (cases v) (auto simp: char_at_def plain_value_def)
    with pv show ?thesis
      by (simp add: explode_adelim_def plain_value_def str_find_char_append)
  next
    assume "quoted_value v"
    then obtain body where v: "v = CHR 0x22 # body @ [CHR 0x22]"
      and b: "CHR 0x22 \<notin> set body" "body \<noteq> [] \<longrightarrow> last body \<noteq> CHR 0x5C"
      by (rule quoted_valueE)
    have "char_at (pre @ v @ d # rest) (length pre + length v) = d"
      using char_at_append [of "pre @ v" d rest] by simp
    with explode_endquote_quoted [OF b, of pre "d # rest" "length pre"] show ?thesis
      by (simp add: explode_adelim_def v char_at_append)
  qed
  show "explode_adelim d (pre @ v) (length pre) = Inr None" if ne: "v \<noteq> []"
    using assms(1)
  proof
    assume pv: "plain_value d v"
    then have "char_at (pre @ v) (length pre) \<noteq> CHR 0x22"
      using ne by (cases v) (auto simp: char_at_def plain_value_def)
    with pv show ?thesis
      by (simp add: explode_adelim_def plain_value_def str_find_char_absent)
  next
    assume "quoted_value v"
    then obtain body where v: "v = CHR 0x22 # body @ [CHR 0x22]"
      and b: "CHR 0x22 \<notin> set body" "body \<noteq> [] \<longrightarrow> last body \<noteq> CHR 0x5C"
      by (rule quoted_valueE)
    from explode_endquote_quoted [OF b, of pre "[]" "length pre"] show ?thesis
      by (simp add: explode_adelim_def v char_at_append)
  qed
qed

lemma explode_loop_join:
  assumes "\<forall>v \<in> set vs. plain_value d v \<or> quoted_value v" and "d \<noteq> CHR 0x22" and "join d vs \<noteq> []"
  shows "explode_loop d (pre @ join d vs) (length pre) acc = Inr (acc @ vs)"
  using assms
proof (induction d vs arbitrary: pre acc rule: join.induct)
  case (1 d)
  then show ?case by simp
next
  case (2 d v)
  then show ?case
    using explode_adelim_value(2) [of d v pre]
    by (simp add: explode_loop.simps Let_def substr_def)
next
  case (3 d v w vs)
  let ?str = "pre @ v @ d # join d (w # vs)"
  have a: "explode_adelim d ?str (length pre) = Inr (Some (length pre + length v))"
    using explode_adelim_value(1) [of d v pre "join d (w # vs)"] 3 by simp
  show ?case
  proof (cases "join d (w # vs) = []")
    case True
    then have "w = []" "vs = []" by (auto simp: join_concat)
    with a show ?thesis
      by (simp add: explode_loop.simps [of d "pre @ v @ [d]"] Let_def substr_def)
  next
    case False
    have "explode_loop d ((pre @ v @ [d]) @ join d (w # vs)) (length (pre @ v @ [d])) (acc @ [v])
        = Inr ((acc @ [v]) @ w # vs)"
      using "3.IH" [of "pre @ v @ [d]" "acc @ [v]"] "3.prems" False by simp
    with a False show ?thesis
      by (simp add: explode_loop.simps [of d ?str] Let_def substr_def)
  qed
qed

subsection \<open>tokenize and split agree\<close>

text \<open>The maximal runs of characters that do not satisfy \<open>p\<close>.\<close>

function runs :: "('a \<Rightarrow> bool) \<Rightarrow> 'a list \<Rightarrow> 'a list list" where
  "runs p s =
     (case dropWhile p s of
        [] \<Rightarrow> []
      | x # xs \<Rightarrow>
          takeWhile (\<lambda>c. \<not> p c) (x # xs) # runs p (dropWhile (\<lambda>c. \<not> p c) (x # xs)))"
  by pat_completeness auto
termination
proof (relation "measure (\<lambda>(_, s). length s)", goal_cases)
  case 1
  show ?case by simp
next
  case (2 p s x xs)
  have "\<not> p x" using 2 by (metis hd_dropWhile list.discI list.sel(1))
  moreover have "length (x # xs) \<le> length s" using 2 length_dropWhile_le [of p s] by simp
  ultimately show ?case using length_dropWhile_le [of "\<lambda>c. \<not> p c" xs] by simp
qed

declare runs.simps [simp del]

lemma runs_Nil [simp]: "runs p [] = []"
  by (simp add: runs.simps)

lemma runs_skip: "p x \<Longrightarrow> runs p (x # xs) = runs p xs"
  by (simp add: runs.simps [of p "x # xs"] runs.simps [of p xs])

lemma runs_skips: "\<forall>x \<in> set xs. p x \<Longrightarrow> runs p (xs @ ys) = runs p ys"
  by (induction xs) (auto simp: runs_skip)

lemma runs_run:
  assumes "xs \<noteq> []" and "\<forall>x \<in> set xs. \<not> p x" and "ys = [] \<or> p (hd ys)"
  shows "runs p (xs @ ys) = xs # runs p ys"
proof -
  have d: "dropWhile p (xs @ ys) = xs @ ys" using assms(1,2) by (cases xs) auto
  have t: "takeWhile (\<lambda>c. \<not> p c) (xs @ ys) = xs"
    using assms(2,3) by (cases ys) (auto simp: takeWhile_append)
  have e: "dropWhile (\<lambda>c. \<not> p c) (xs @ ys) = ys"
    using assms(2,3) by (cases ys) (auto simp: dropWhile_append)
  obtain z zs where z: "xs @ ys = z # zs" using assms(1) by (cases xs) auto
  show ?thesis
    using d t e by (subst runs.simps) (simp add: z)
qed

lemma tokenize_loop_runs:
  assumes "i \<le> length s"
  shows "tokenize_loop s ds (find_first_not_of s ds i) acc = acc @ runs (\<lambda>c. c \<in> set ds) (drop i s)"
  using assms
proof (induction "length s - i" arbitrary: i acc rule: less_induct)
  case less
  let ?p = "\<lambda>c. c \<in> set ds"
  show ?case
  proof (cases "find_first_not_of s ds i")
    case None
    then have "\<forall>x \<in> set (drop i s). ?p x" by (auto simp: find_first_not_of_def find_idx_None_iff)
    then have "runs ?p (drop i s) = []" using runs_skips [of "drop i s" ?p "[]"] by simp
    with None show ?thesis by (simp add: tokenize_loop.simps find_from_def)
  next
    case (Some l)
    note l = find_first_not_of_SomeD [OF Some]
    have skip: "runs ?p (drop i s) = runs ?p (drop l s)"
      using l(5) by (subst l(4)) (intro runs_skips, auto)
    show ?thesis
    proof (cases "find_first_of s ds l")
      case None
      then have "\<forall>x \<in> set (drop l s). \<not> ?p x" by (auto simp: find_first_of_def find_idx_None_iff)
      then have "runs ?p (drop l s) = [drop l s]"
        using runs_run [of "drop l s" ?p "[]"] l by simp
      with None Some skip show ?thesis
        by (simp add: tokenize_loop.simps [of s ds "Some l"] tokenize_loop.simps [of s ds None]
            find_from_def substr_def)
    next
      case (Some p)
      note f = find_first_of_SomeD [OF Some]
      let ?run = "take (p - l) (drop l s)"
      have "l \<noteq> p" using l(3) f(3) by auto
      then have "p - l \<noteq> 0" using f(1) by linarith
      then have "runs ?p (drop l s) = ?run # runs ?p (s ! p # drop (Suc p) s)"
        using f l(2) by (subst f(4)) (intro runs_run, auto)
      moreover have "s ! p # drop (Suc p) s = drop p s"
        using f(2) by (simp add: Cons_nth_drop_Suc)
      moreover have "tokenize_loop s ds (find_first_not_of s ds p) (acc @ [?run]) =
          (acc @ [?run]) @ runs ?p (drop p s)"
        using less.hyps [of p "acc @ [?run]"] f l \<open>p - l \<noteq> 0\<close> less.prems by simp
      ultimately show ?thesis
        using Some \<open>find_first_not_of s ds i = Some l\<close> skip
        by (simp add: tokenize_loop.simps [of s ds "Some l"] find_from_def substr_def)
    qed
  qed
qed

lemma tokenize_runs: "tokenize s ds = runs (\<lambda>c. c \<in> set ds) s"
  using tokenize_loop_runs [of 0 s ds "[]"] by (simp add: tokenize_def)

lemma split_runs: "split s d True = runs (\<lambda>c. c = d) s"
  unfolding split_def
proof (induction d s rule: getlines.induct)
  case (1 d)
  then show ?case by simp
next
  case (2 d c cs)
  let ?tok = "takeWhile (\<lambda>x. x \<noteq> d) (c # cs)" and ?rest = "dropWhile (\<lambda>x. x \<noteq> d) (c # cs)"
  have rest: "?rest = [] \<or> hd ?rest = d"
    using hd_dropWhile [of "\<lambda>x. x \<noteq> d" "c # cs"] by auto
  have "runs (\<lambda>c. c = d) ?rest = runs (\<lambda>c. c = d) (tl ?rest)"
    using rest by (cases ?rest) (auto simp: runs_skip)
  moreover have "runs (\<lambda>c. c = d) (c # cs) =
      (if ?tok = [] then runs (\<lambda>c. c = d) ?rest else ?tok # runs (\<lambda>c. c = d) ?rest)"
  proof (cases "?tok = []")
    case True
    then show ?thesis by (simp split: if_splits)
  next
    case False
    have "runs (\<lambda>c. c = d) (?tok @ ?rest) = ?tok # runs (\<lambda>c. c = d) ?rest"
      using False rest by (intro runs_run) (auto dest: set_takeWhileD)
    with False show ?thesis by (simp only: takeWhile_dropWhile_id if_False)
  qed
  ultimately show ?case using "2.IH" by simp
qed

lemma takeWhile_all: "\<forall>c \<in> set (takeWhile p xs). p c"
  by (induction xs) auto

lemma runs_tokens:
  "concat (runs p s) = filter (\<lambda>c. \<not> p c) s \<and> (\<forall>t \<in> set (runs p s). t \<noteq> [] \<and> (\<forall>c \<in> set t. \<not> p c))"
proof (induction p s rule: runs.induct)
  case (1 p s)
  have s: "filter (\<lambda>c. \<not> p c) s = filter (\<lambda>c. \<not> p c) (dropWhile p s)"
    by (induction s) auto
  show ?case
  proof (cases "dropWhile p s")
    case Nil
    then have "runs p s = []" by (subst runs.simps) (simp only: list.case)
    moreover have "filter (\<lambda>c. \<not> p c) s = []" using s unfolding Nil by simp
    ultimately show ?thesis by simp
  next
    case (Cons x xs)
    let ?t = "takeWhile (\<lambda>c. \<not> p c) (x # xs)" and ?r = "dropWhile (\<lambda>c. \<not> p c) (x # xs)"
    have x: "\<not> p x" using Cons by (metis hd_dropWhile list.discI list.sel(1))
    have r: "runs p s = ?t # runs p ?r" by (subst runs.simps) (simp only: Cons list.case)
    have "filter (\<lambda>c. \<not> p c) s = filter (\<lambda>c. \<not> p c) (?t @ ?r)"
      unfolding takeWhile_dropWhile_id using s unfolding Cons .
    also have "\<dots> = ?t @ filter (\<lambda>c. \<not> p c) ?r"
      unfolding filter_append using takeWhile_all [of "\<lambda>c. \<not> p c" "x # xs"]
      by (simp only: filter_True)
    finally have f: "filter (\<lambda>c. \<not> p c) s = ?t @ filter (\<lambda>c. \<not> p c) ?r" .
    have t: "?t \<noteq> []" using x by simp
    have t': "\<forall>c \<in> set ?t. \<not> p c" by (rule takeWhile_all)
    note ih = "1.IH" [OF Cons]
    have "concat (runs p s) = filter (\<lambda>c. \<not> p c) s"
      by (simp only: r f concat.simps conjunct1 [OF ih])
    moreover have "\<forall>u \<in> set (runs p s). u \<noteq> [] \<and> (\<forall>c \<in> set u. \<not> p c)"
      unfolding r list.set ball_simps(7) by (intro conjI t t' conjunct2 [OF ih])
    ultimately show ?thesis by (rule conjI)
  qed
qed

subsection \<open>Process ids read back\<close>

definition pid_digit_value :: "char \<Rightarrow> int" where
  "pid_digit_value c = (case find_idx (\<lambda>x. x = c) pid_digits of None \<Rightarrow> 0 | Some i \<Rightarrow> int i)"

definition pid_value :: "int \<Rightarrow> string \<Rightarrow> int" where
  "pid_value base s =
     (let digits = foldl (\<lambda>acc c. acc * base + pid_digit_value c) 0
      in case s of
           [] \<Rightarrow> 0
         | c # cs \<Rightarrow> if c = CHR ''-'' then - digits cs else digits s)"

lemma pid_digit_roundtrip:
  assumes "0 \<le> r" and "r < 36"
  shows "pid_digit_value (pid_digits ! nat r) = r" and "pid_digits ! nat r \<noteq> CHR ''-''"
proof -
  have "\<forall>n \<in> set [0..<36]. pid_digit_value (pid_digits ! n) = int n \<and> pid_digits ! n \<noteq> CHR ''-''"
    by code_simp
  moreover have "nat r \<in> set [0..<36]" using assms by auto
  ultimately show "pid_digit_value (pid_digits ! nat r) = r" and "pid_digits ! nat r \<noteq> CHR ''-''"
    using assms by auto
qed

lemma fastpid_nonneg:
  assumes "2 \<le> base" and "base \<le> 36" and "0 \<le> val"
  shows "foldl (\<lambda>acc c. acc * base + pid_digit_value c) 0 (fastpidconverter val base) = val
       \<and> fastpidconverter val base \<noteq> [] \<and> hd (fastpidconverter val base) \<noteq> CHR ''-''"
  using assms
proof (induction val base rule: fastpidconverter.induct)
  case (1 val base)
  let ?q = "val div base" and ?r = "val mod base"
  have r: "0 \<le> ?r" "?r < 36"
    using 1(2,3) pos_mod_bound [of base val] by (simp, linarith)
  have q: "0 \<le> ?q" using 1(2,4) by (simp add: pos_imp_zdiv_nonneg_iff)
  have eq: "fastpidconverter val base =
      (if ?q > 0 then fastpidconverter ?q base else []) @ [pid_digits ! nat ?r]"
    using 1(2-4) by (subst fastpidconverter.simps) (auto simp: Let_def)
  show ?case
  proof (cases "?q > 0")
    case True
    with "1.IH" [of ?q ?r] 1(2-4) q
    have "foldl (\<lambda>acc c. acc * base + pid_digit_value c) 0 (fastpidconverter ?q base) = ?q
       \<and> fastpidconverter ?q base \<noteq> [] \<and> hd (fastpidconverter ?q base) \<noteq> CHR ''-''" by auto
    with True show ?thesis
      by (auto simp: eq pid_digit_roundtrip [OF r])
  next
    case False
    with q have "?q = 0" by linarith
    then have "val = ?r" using div_mult_mod_eq [of val base] by simp
    then have "fastpidconverter val base = [pid_digits ! nat val]" and "0 \<le> val" and "val < 36"
      using eq \<open>?q = 0\<close> r by simp_all
    then show ?thesis by (simp add: pid_digit_roundtrip)
  qed
qed

subsection \<open>URLs\<close>

definition blank_url :: url where
  "blank_url = \<lparr>url_protocol = [], url_domain = [], url_uname = [], url_psswd = [], url_port = [], url_path = []\<rparr>"

text \<open>The parts of a URL that can be told apart again.\<close>

definition url_wf :: "url \<Rightarrow> bool" where
  "url_wf u \<longleftrightarrow>
     CHR '':'' \<notin> set (url_protocol u) \<and>
     (\<forall>c \<in> set (url_uname u). c \<notin> {CHR '':'', CHR ''@'', CHR ''/''}) \<and>
     (\<forall>c \<in> set (url_psswd u). c \<notin> {CHR ''@'', CHR ''/''}) \<and>
     (url_uname u = [] \<longrightarrow> url_psswd u = []) \<and>
     (\<forall>c \<in> set (url_domain u). c \<notin> {CHR '':'', CHR ''@'', CHR ''/''}) \<and>
     (\<forall>c \<in> set (url_port u). c \<notin> {CHR ''@'', CHR ''/''})"

lemma find_or_end_append:
  "c \<notin> set xs \<Longrightarrow> find_or_end (xs @ ys) c = length xs + find_or_end ys c"
  by (simp add: find_or_end_def str_find_char_0_append split: option.splits)

lemma find_or_end_gt:
  assumes "c \<notin> set xs" and "x \<noteq> c"
  shows "length xs < find_or_end (xs @ x # ys) c"
  using find_or_end_append [of c "xs @ [x]" ys] assms by simp

lemma url_explode_host_create:
  assumes "\<forall>c \<in> set hst. c \<notin> {CHR '':'', CHR ''/''}" and "CHR ''/'' \<notin> set prt"
    and "url_port u = []" and "url_path u = []"
  shows "url_explode_host
      (hst @ (if prt \<noteq> [] then CHR '':'' # prt else []) @ (if pth \<noteq> [] then CHR ''/'' # pth else [])) u
    = u\<lparr>url_domain := hst, url_port := prt, url_path := pth\<rparr>"
proof -
  have d: "CHR '':'' \<notin> set hst" "CHR ''/'' \<notin> set hst" using assms(1) by auto
  note c = str_find_char_0 [OF d(1)] str_find_char_0 [OF d(2)] str_find_char_0 [OF assms(2)]
  show ?thesis
  proof (cases "prt = []")
    case False
    have sl: "length hst < find_or_end (hst @ CHR '':'' # prt @ t) (CHR ''/'')" for t
      by (rule find_or_end_gt [OF d(2)]) simp
    show ?thesis
    proof (cases "pth = []")
      case True
      have "str_find_char prt (CHR ''/'') 0 = None" using assms(2) by (simp add: stl_simps)
      with True False sl [of "[]"] show ?thesis
        by (simp add: url_explode_host_def c Let_def substr_def)
    next
      case ne: False
      with False sl [of "CHR ''/'' # pth"] show ?thesis
        by (simp add: url_explode_host_def c Let_def substr_def)
    qed
  next
    case True
    show ?thesis
    proof (cases "pth = []")
      case True': True
      have "str_find_char hst (CHR '':'') 0 = None" "str_find_char hst (CHR ''/'') 0 = None"
        using d by (simp_all add: stl_simps)
      with True True' assms show ?thesis by (simp add: url_explode_host_def)
    next
      case False
      let ?r = "hst @ CHR ''/'' # pth"
      have e: "find_or_end ?r (CHR ''/'') = length hst" by (simp add: find_or_end_def c)
      have "str_find_char ?r (CHR '':'') 0 = None \<or>
          (\<exists>k. str_find_char ?r (CHR '':'') 0 = Some k \<and> length hst \<le> k)"
        by (cases "str_find_char (CHR ''/'' # pth) (CHR '':'') 0")
          (auto simp: str_find_char_0_append [OF d(1)])
      then have "url_explode_host ?r u = u\<lparr>url_domain := hst, url_path := pth\<rparr>"
        by (elim disjE exE conjE) (simp_all add: url_explode_host_def c substr_def e)
      with True False assms(3) show ?thesis by (cases u) simp
    qed
  qed
qed

lemma url_explode_user_create:
  assumes "\<forall>c \<in> set un. c \<notin> {CHR '':'', CHR ''@'', CHR ''/''}"
    and "\<forall>c \<in> set pw. c \<notin> {CHR ''@'', CHR ''/''}" and "url_psswd u = []"
  shows "url_explode_user (un @ (if pw \<noteq> [] then CHR '':'' # pw else []) @ CHR ''@'' # rest) u =
    (rest, u\<lparr>url_uname := un, url_psswd := pw\<rparr>)"
proof -
  let ?up = "un @ (if pw \<noteq> [] then CHR '':'' # pw else [])"
  have n: "CHR ''@'' \<notin> set ?up" "CHR ''/'' \<notin> set ?up" "CHR '':'' \<notin> set un" using assms by auto
  have at: "str_find_char (?up @ CHR ''@'' # rest) (CHR ''@'') 0 = Some (length ?up)"
    by (rule str_find_char_0 [OF n(1)])
  have "length ?up < find_or_end (?up @ CHR ''@'' # rest) (CHR ''/'')"
    by (rule find_or_end_gt [OF n(2)]) simp
  with at have "url_explode_user (?up @ CHR ''@'' # rest) u =
      (rest, case str_find_char ?up (CHR '':'') 0 of
         Some colon \<Rightarrow> u\<lparr>url_uname := substr ?up 0 colon, url_psswd := drop (colon + 1) ?up\<rparr>
       | None \<Rightarrow> u\<lparr>url_uname := ?up\<rparr>)"
    by (simp add: url_explode_user_def Let_def substr_def)
  moreover have "\<dots> = (rest, u\<lparr>url_uname := un, url_psswd := pw\<rparr>)"
  proof (cases "pw = []")
    case True
    then have "str_find_char ?up (CHR '':'') 0 = None" using n(3) by (simp add: stl_simps)
    with True assms(3) show ?thesis by simp
  next
    case False
    then show ?thesis by (simp add: str_find_char_0 [OF n(3)] substr_def)
  qed
  ultimately show ?thesis by simp
qed

lemma url_explode_user_none:
  assumes "CHR ''@'' \<notin> set pre" and "rest = [] \<or> hd rest = CHR ''/''" and "CHR ''/'' \<notin> set pre"
  shows "url_explode_user (pre @ rest) u = (pre @ rest, u)"
proof (cases "str_find_char (pre @ rest) (CHR ''@'') 0")
  case None
  then show ?thesis by (simp add: url_explode_user_def)
next
  case (Some at)
  then have "CHR ''@'' \<in> set (pre @ rest)" using str_find_char_0_None [of "pre @ rest" "CHR ''@''"] by auto
  then have "rest \<noteq> []" using assms(1) by auto
  with assms(2) obtain t where t: "rest = CHR ''/'' # t" by (cases rest) auto
  have "find_or_end (pre @ rest) (CHR ''/'') = length pre"
    by (simp add: find_or_end_def t str_find_char_0 [OF assms(3)])
  moreover have "length pre \<le> at"
    using Some by (auto simp: str_find_char_0_append [OF assms(1)])
  ultimately show ?thesis using Some by (simp add: url_explode_user_def)
qed

subsection \<open>Properties\<close>

text \<open>
  C36: \<^verbatim>\<open>explode\<close> undoes \<^verbatim>\<open>implode\<close>.  For a list of values, each of them free of the
  delimiter and not starting with a double quote, or in double quotes (and then possibly containing
  the delimiter, but between its quotes no further double quote and no backslash at the end),
  and for a delimiter that is not a double quote, \<^verbatim>\<open>implode\<close> succeeds, and \<^verbatim>\<open>explode\<close>
  returns the same list from the joined text.  The empty list and the list of one empty value are
  left out: their text is empty, see the property on the empty text.
\<close>

theorem explode_implode:
  assumes "\<forall>v \<in> set values. plain_value delim v \<or> quoted_value v"
    and "delim \<noteq> CHR 0x22" and "values \<noteq> []" and "values \<noteq> [[]]"
  shows "\<exists>str. implode values delim = Inr str \<and> explode delim str = Inr values"
proof -
  have "join delim values \<noteq> []"
    using assms(3,4) by (cases "values") (auto simp: join_concat)
  then show ?thesis
    using implode_join [OF assms(1)] explode_loop_join [OF assms(1,2), of "[]" "[]"]
    by (simp add: explode_def)
qed

theorem explode_implode_witness:
  "\<exists>str. implode [''ab'', [], CHR 0x22 # ''c,d'' @ [CHR 0x22]] (CHR '','') = Inr str
     \<and> explode (CHR '','') str = Inr [''ab'', [], CHR 0x22 # ''c,d'' @ [CHR 0x22]]"
  by (rule explode_implode) (simp_all add: plain_value_def quoted_value_def)

text \<open>
  \<^verbatim>\<open>explode\<close> of the empty text returns two empty values.  After the only value the
  code computes \<^verbatim>\<open>start = npos + 1\<close>, which is \<open>0\<close>, the length of the empty text, and
  takes the branch meant for a trailing delimiter.
\<close>

theorem explode_empty: "explode delim [] = Inr [[], []]"
  by (simp add: explode_def explode_loop.simps explode_adelim_def char_at_def str_find_char_def
      substr_def)

text \<open>
  the two splitting routines agree.  \<^verbatim>\<open>tokenize\<close> with one delimiter returns what
  \<^verbatim>\<open>split\<close> returns when it skips empty items, although one searches for positions and the
  other reads a stream line by line.
\<close>

theorem tokenize_split: "tokenize s [d] = split s d True"
  by (simp add: tokenize_runs split_runs)

text \<open>
  what \<^verbatim>\<open>tokenize\<close> returns: tokens that are not empty and contain no delimiter, and
  together, in order, all the characters of the text that are not delimiters.
\<close>

theorem tokenize_tokens:
  "concat (tokenize s ds) = filter (\<lambda>c. c \<notin> set ds) s
   \<and> list_all (\<lambda>t. t \<noteq> [] \<and> set t \<inter> set ds = {}) (tokenize s ds)"
  using runs_tokens [of "\<lambda>c. c \<in> set ds" s] by (auto simp: tokenize_runs list_all_iff)

text \<open>
  \<^verbatim>\<open>fastpidconverter\<close> writes a numeral that reads back as the number, in every base
  from 2 to 36 and for negative numbers too.
\<close>

theorem fastpidconverter_value:
  assumes "2 \<le> base" and "base \<le> 36"
  shows "pid_value base (fastpidconverter val base) = val"
proof (cases "0 \<le> val")
  case True
  from fastpid_nonneg [OF assms True] show ?thesis
    by (cases "fastpidconverter val base") (auto simp: pid_value_def)
next
  case False
  have "fastpidconverter val base = CHR ''-'' # fastpidconverter (- val) base"
    using False assms
    by (simp add: fastpidconverter.simps [of val] fastpidconverter.simps [of "- val"])
  with False fastpid_nonneg [OF assms, of "- val"] show ?thesis by (simp add: pid_value_def)
qed

theorem fastpidconverter_value_witness:
  "pid_value 16 (fastpidconverter (- 48879) 16) = - 48879"
  by (rule fastpidconverter_value) simp_all

text \<open>
  C37: taking apart the URL that \<^verbatim>\<open>url_create\<close> builds gives back its parts, whether or not
  there are a user, a port and a path, and a password where there is a user (a password without
  a user is not written), as long as no part contains a character that separates it from the
  next one: no colon in the protocol, no colon, at sign or slash in user and domain, no at sign or
  slash in password and port.
\<close>

theorem url_explode_create:
  assumes "url_wf u"
  shows "url_explode (url_create u) blank_url = Inr u"
proof -
  let ?host = "url_domain u @ (if url_port u \<noteq> [] then CHR '':'' # url_port u else []) @
    (if url_path u \<noteq> [] then CHR ''/'' # url_path u else [])"
  let ?user = "if url_uname u \<noteq> [] then url_uname u @ (if url_psswd u \<noteq> [] then CHR '':'' # url_psswd u else []) @ ''@'' else []"
  let ?p = "blank_url\<lparr>url_protocol := url_protocol u\<rparr>"
  have c: "str_find_char (url_create u) (CHR '':'') 0 = Some (length (url_protocol u))"
    using assms by (simp add: url_create_def url_wf_def str_find_char_0)
  have cr: "url_create u = url_protocol u @ ''://'' @ ?user @ ?host" by (simp add: url_create_def)
  have w: "\<forall>c \<in> set (url_uname u). c \<notin> {CHR '':'', CHR ''@'', CHR ''/''}"
    "\<forall>c \<in> set (url_psswd u). c \<notin> {CHR ''@'', CHR ''/''}" "url_uname u = [] \<Longrightarrow> url_psswd u = []"
    "\<forall>c \<in> set (url_domain u). c \<notin> {CHR '':'', CHR ''@'', CHR ''/''}"
    "\<forall>c \<in> set (url_port u). c \<notin> {CHR ''@'', CHR ''/''}"
    using assms by (simp_all add: url_wf_def)
  have usr: "url_explode_user (?user @ ?host) ?p = (?host, ?p\<lparr>url_uname := url_uname u, url_psswd := url_psswd u\<rparr>)"
  proof (cases "url_uname u = []")
    case True
    let ?pre = "url_domain u @ (if url_port u \<noteq> [] then CHR '':'' # url_port u else [])"
    have "CHR ''@'' \<notin> set ?pre" "CHR ''/'' \<notin> set ?pre" using w(4,5) by auto
    then have "url_explode_user (?pre @ (if url_path u \<noteq> [] then CHR ''/'' # url_path u else [])) ?p
        = (?pre @ (if url_path u \<noteq> [] then CHR ''/'' # url_path u else []), ?p)"
      by (intro url_explode_user_none) auto
    with True w(3) show ?thesis by (simp add: blank_url_def)
  next
    case False
    have "url_psswd ?p = []" by (simp add: blank_url_def)
    from url_explode_user_create [OF w(1,2) this, of ?host] False show ?thesis by simp
  qed
  have "url_explode_host ?host (?p\<lparr>url_uname := url_uname u, url_psswd := url_psswd u\<rparr>) =
      ?p\<lparr>url_uname := url_uname u, url_psswd := url_psswd u, url_domain := url_domain u, url_port := url_port u, url_path := url_path u\<rparr>"
    using w(4,5) by (intro url_explode_host_create) (auto simp: blank_url_def)
  then have "url_explode_host ?host (?p\<lparr>url_uname := url_uname u, url_psswd := url_psswd u\<rparr>) = u"
    by (simp add: blank_url_def)
  moreover have "substr (url_create u) (length (url_protocol u)) 3 = ''://''"
    and "substr (url_create u) 0 (length (url_protocol u)) = url_protocol u"
    and "drop (length (url_protocol u) + 3) (url_create u) = ?user @ ?host"
    by (simp_all add: cr substr_def)
  ultimately show ?thesis using c usr by (simp add: url_explode_def)
qed

theorem url_explode_create_witness:
  "url_explode (url_create \<lparr>url_protocol = ''http'', url_domain = ''a.org'', url_uname = ''me'', url_psswd = ''x:y'',
      url_port = ''8080'', url_path = ''d/f?q=@''\<rparr>) blank_url
   = Inr \<lparr>url_protocol = ''http'', url_domain = ''a.org'', url_uname = ''me'', url_psswd = ''x:y'',
      url_port = ''8080'', url_path = ''d/f?q=@''\<rparr>"
  by (rule url_explode_create) (simp add: url_wf_def)

end
