(* ===== verification/Bes_Path.thy ===== *)
theory Bes_Path
  imports Bes_Lists "HOL-Library.Word"
begin

text \<open>
  Path names in \<^verbatim>\<open>dispatch/BESUtil.cc\<close>: joining and normalising them, and the check that
  a path the client sent may be opened.  The file system is a parameter: what
  \<^verbatim>\<open>access(path, R_OK)\<close> and \<^verbatim>\<open>lstat(path)\<close> answer.
\<close>

subsection \<open>Joining\<close>

function strip_trailing :: "char \<Rightarrow> string \<Rightarrow> string" where
  "strip_trailing sep s = (if s \<noteq> [] \<and> last s = sep then strip_trailing sep (butlast s) else s)"
  by pat_completeness auto
termination
  by (relation "measure (\<lambda>(_, s). length s)") auto

declare strip_trailing.simps [simp del]

fun strip_leading :: "char \<Rightarrow> string \<Rightarrow> string" where
  "strip_leading sep [] = []"
| "strip_leading sep (c # cs) = (if c = sep then strip_leading sep cs else c # cs)"

definition pathConcat :: "string \<Rightarrow> string \<Rightarrow> char \<Rightarrow> string" where
  "pathConcat firstPart secondPart separator =
     (let first = strip_trailing separator firstPart;
          second = strip_leading separator secondPart
      in if first = [] then second
         else if second = [] then first
         else first @ [separator] @ second)"

definition assemblePath :: "string \<Rightarrow> string \<Rightarrow> bool \<Rightarrow> bool \<Rightarrow> string" where
  "assemblePath firstPart secondPart leadingSlash trailingSlash =
     (let newPath = pathConcat firstPart secondPart (CHR ''/'');
          newPath = (if leadingSlash then
                       if newPath = [] then ''/''
                       else if hd newPath \<noteq> CHR ''/'' then ''/'' @ newPath
                       else newPath
                     else newPath)
      in if trailingSlash then
           if newPath = [] \<or> last newPath \<noteq> CHR ''/'' then newPath @ ''/'' else newPath
         else strip_trailing (CHR ''/'') newPath)"

definition endsWith :: "string \<Rightarrow> string \<Rightarrow> bool" where
  "endsWith fullString ending =
     (if length fullString \<ge> length ending
      then substr fullString (length fullString - length ending) (length ending) = ending
      else False)"

subsection \<open>Replacing and normalising\<close>

text \<open>
  The loop of \<^verbatim>\<open>replace_all\<close>.  With an empty text to find it never ends (each round finds
  the empty text again and inserts the replacement): \<^const>\<open>None\<close>.  The count is an
  \<^verbatim>\<open>unsigned int\<close> and wraps.
\<close>

function replace_all_loop :: "string \<Rightarrow> string \<Rightarrow> string \<Rightarrow> nat option \<Rightarrow> 32 word \<Rightarrow> (32 word \<times> string) option" where
  "replace_all_loop s find_this replace_with_this pos replace_count =
     (case pos of
        None \<Rightarrow> Some (replace_count, s)
      | Some p \<Rightarrow>
          if find_this = [] \<or> length s < p + length find_this then None
          else
            (let s' = take p s @ replace_with_this @ drop (p + length find_this) s;
                 p' = str_find s' find_this (p + length replace_with_this)
             in replace_all_loop s' find_this replace_with_this p' (replace_count + 1)))"
  by pat_completeness auto
termination
proof (relation "measure (\<lambda>(s, f, r, pos, n). case pos of None \<Rightarrow> 0 | Some p \<Rightarrow> Suc (length s - p))",
    goal_cases)
  case 1
  show ?case by simp
next
  case (2 s f r pos n p s' p')
  have len: "length s' = length s - length f + length r" and fp: "f \<noteq> []" "p + length f \<le> length s"
    using 2 by auto
  show ?case
  proof (cases p')
    case None
    with 2 show ?thesis by simp
  next
    case (Some q)
    then have "p + length r \<le> q" using 2 str_find_SomeD(1) by metis
    then have "length s' - q < length s - p" using len fp by (cases f) auto
    with Some 2 show ?thesis by simp
  qed
qed

declare replace_all_loop.simps [simp del]

definition replace_all :: "string \<Rightarrow> string \<Rightarrow> string \<Rightarrow> (32 word \<times> string) option" where
  "replace_all s find_this replace_with_this =
     replace_all_loop s find_this replace_with_this (str_find s find_this 0) 0"

text \<open>\<^const>\<open>None\<close> would be a call that does not return; a two-character text to find
  excludes it.\<close>

definition normalize_path :: "string \<Rightarrow> bool \<Rightarrow> bool \<Rightarrow> string \<Rightarrow> string result option" where
  "normalize_path raw_path leading_separator trailing_separator separator =
     (if length separator \<noteq> 1 then
        Some (Inl (BESInternalError (''Path separators must be a single character. The string '' @
                [CHR 0x27] @ separator @ [CHR 0x27] @ '' does not qualify.'')))
      else
        (let sep = hd separator
         in case replace_all raw_path (separator @ separator) separator of
              None \<Rightarrow> None
            | Some (_, path) \<Rightarrow>
                (let path = (if path = [] then separator else path)
                 in if path = separator then Some (Inr path)
                    else
                      (let path = (if leading_separator then
                                     if hd path \<noteq> sep then separator @ path else path
                                   else if hd path = sep then tl path else path);
                           path = (if trailing_separator then
                                     if last path \<noteq> sep then path @ separator else path
                                   else if last path = sep then butlast path else path)
                       in Some (Inr path)))))"

subsection \<open>Which paths may be opened\<close>

datatype errno = ENOENT | ENOTDIR | EACCES | OtherErrno int

text \<open>\<open>fs_access path\<close> is \<^const>\<open>None\<close> when the path is readable; \<open>fs_lstat path\<close> is
  the error text or whether the path is a symbolic link.\<close>

record file_system =
  fs_access :: "string \<Rightarrow> errno option"
  fs_lstat :: "string \<Rightarrow> string + bool"

definition quoted :: "string \<Rightarrow> string" where
  "quoted s = [CHR 0x27] @ s @ [CHR 0x27]"

definition throw_access_error :: "string \<Rightarrow> errno \<Rightarrow> bes_error" where
  "throw_access_error pathname error_number =
     (if error_number = ENOENT \<or> error_number = ENOTDIR
      then BESNotFoundError (''Failed to locate '' @ quoted pathname)
      else BESForbiddenError (''Not allowed to access '' @ quoted pathname))"

lemma find_last_of_lt: "find_last_of s c = Some p \<Longrightarrow> p < length s"
  by (auto simp: find_last_of_def dest!: find_idx_SomeD)

function symlink_loop :: "file_system \<Rightarrow> string \<Rightarrow> nat \<Rightarrow> nat \<Rightarrow> bool result" where
  "symlink_loop fs pathname i search_limit =
     (case fs_lstat fs pathname of
        Inl msg \<Rightarrow>
          Inl (BESInternalError (''Could not resolve path when testing for symbolic links: '' @ msg))
      | Inr is_link \<Rightarrow>
          (case find_last_of pathname (CHR ''/'') of
             None \<Rightarrow> Inr is_link
           | Some pos \<Rightarrow>
               if i + 1 < search_limit \<and> \<not> is_link \<and> take pos pathname \<noteq> []
               then symlink_loop fs (take pos pathname) (i + 1) search_limit
               else Inr is_link))"
  by pat_completeness auto
termination
  by (relation "measure (\<lambda>(_, pathname, _, _). length pathname)") (auto dest!: find_last_of_lt)

declare symlink_loop.simps [simp del]

definition pathname_contains_symlink :: "file_system \<Rightarrow> string \<Rightarrow> nat \<Rightarrow> bool result" where
  "pathname_contains_symlink fs path search_limit =
     symlink_loop fs (trim_if_trailing_slash path) 0 search_limit"

text \<open>
  The root is the configured data directory, which is not empty; \<^verbatim>\<open>back()\<close> of an empty
  string is undefined, and the model then takes the branch that adds the slash.
\<close>

definition check_path :: "file_system \<Rightarrow> string \<Rightarrow> string \<Rightarrow> bool \<Rightarrow> unit result" where
  "check_path fs path root follow_sym_links =
     (if path = [] then Inr ()
      else if str_find path ''..'' 0 \<noteq> None then Inl (throw_access_error path EACCES)
      else
        (let pathname = root @ (if (root = [] \<or> last root \<noteq> CHR ''/'') \<and> hd path \<noteq> CHR ''/''
                                then ''/'' else []) @ path
         in case fs_access fs pathname of
              Some e \<Rightarrow> Inl (throw_access_error pathname e)
            | None \<Rightarrow>
                if \<not> follow_sym_links then
                  res_bind (pathname_contains_symlink fs pathname (count_list path (CHR ''/'')))
                    (\<lambda>is_link. if is_link then Inl (throw_access_error pathname EACCES) else Inr ())
                else Inr ()))"

text \<open>\<^verbatim>\<open>BESUtil::separateCatalogFromPath\<close>: the catalog list is a parameter, the path that
  the code rewrites in place is the second component.\<close>

definition separateCatalogFromPath ::
  "(string \<Rightarrow> 'catalog option) \<Rightarrow> string \<Rightarrow> ('catalog option \<times> string) result option" where
  "separateCatalogFromPath find_catalog ppath =
     (case normalize_path ppath False False ''/'' of
        None \<Rightarrow> None
      | Some (Inl e) \<Rightarrow> Some (Inl e)
      | Some (Inr path) \<Rightarrow>
          (case tokenize path ''/'' of
             [] \<Rightarrow> Some (Inr (None, ppath))
           | tok # _ \<Rightarrow>
               (case find_catalog tok of
                  None \<Rightarrow> Some (Inr (None, ppath))
                | Some catalog \<Rightarrow>
                    (case normalize_path (drop (length tok) path) True False ''/'' of
                       None \<Rightarrow> None
                     | Some (Inl e) \<Rightarrow> Some (Inl e)
                     | Some (Inr p) \<Rightarrow> Some (Inr (Some catalog, p))))))"

subsection \<open>Lemmas on stripping and replacing\<close>

lemma strip_trailing_replicate:
  assumes "a = [] \<or> last a \<noteq> sep"
  shows "strip_trailing sep (a @ replicate m sep) = a"
proof (induction m)
  case 0
  from assms show ?case by (auto simp: strip_trailing.simps [of sep a])
next
  case (Suc m)
  have e: "a @ replicate (Suc m) sep = (a @ replicate m sep) @ [sep]"
    by (simp add: replicate_append_same)
  have "strip_trailing sep ((a @ replicate m sep) @ [sep]) = strip_trailing sep (a @ replicate m sep)"
    by (subst strip_trailing.simps) (simp del: append_assoc)
  with Suc show ?case by (simp only: e)
qed

lemma strip_leading_replicate:
  assumes "b = [] \<or> hd b \<noteq> sep"
  shows "strip_leading sep (replicate n sep @ b) = b"
  using assms by (induction n) (cases b; simp)+

lemma strip_trailing_last: "strip_trailing sep s = [] \<or> last (strip_trailing sep s) \<noteq> sep"
proof (induction sep s rule: strip_trailing.induct)
  case (1 sep s)
  then show ?case by (cases "s \<noteq> [] \<and> last s = sep") (auto simp: strip_trailing.simps [of sep s])
qed

lemma strip_trailing_hd: "strip_trailing sep s = [] \<or> hd (strip_trailing sep s) = hd s"
proof (induction sep s rule: strip_trailing.induct)
  case (1 sep s)
  show ?case
  proof (cases "s \<noteq> [] \<and> last s = sep")
    case True
    with 1 have IH: "strip_trailing sep (butlast s) = [] \<or> hd (strip_trailing sep (butlast s)) = hd (butlast s)"
      by blast
    have e: "strip_trailing sep s = strip_trailing sep (butlast s)"
      using True by (simp add: strip_trailing.simps [of sep s])
    show ?thesis
    proof (cases "butlast s = []")
      case True
      moreover have "strip_trailing sep [] = []" by (simp add: strip_trailing.simps)
      ultimately have "strip_trailing sep s = []" using e by simp
      then show ?thesis ..
    next
      case False
      then have "hd (butlast s) = hd s" by (cases s) auto
      with IH e show ?thesis by simp
    qed
  next
    case False
    then have "strip_trailing sep s = s" by (auto simp: strip_trailing.simps [of sep s])
    then show ?thesis by simp
  qed
qed

text \<open>Left-to-right replacement of non-overlapping occurrences.\<close>

function subst_all :: "string \<Rightarrow> string \<Rightarrow> string \<Rightarrow> nat \<times> string" where
  "subst_all pat rep [] = (0, [])"
| "subst_all pat rep (c # cs) =
     (if pat \<noteq> [] \<and> prefix pat (c # cs)
      then (let (n, r) = subst_all pat rep (drop (length pat) (c # cs)) in (n + 1, rep @ r))
      else (let (n, r) = subst_all pat rep cs in (n, c # r)))"
  by pat_completeness auto
termination
  by (relation "measure (\<lambda>(_, _, s). length s)") (auto simp: Suc_diff_le)

lemma subst_all_skip:
  assumes "pat \<noteq> []" and "find_sub pat s = Some k"
  shows "subst_all pat rep s =
    (let (n, r) = subst_all pat rep (drop (k + length pat) s) in (n + 1, take k s @ rep @ r))"
  using assms(2)
proof (induction s arbitrary: k)
  case Nil
  with assms(1) show ?case by simp
next
  case (Cons c cs)
  show ?case
  proof (cases "prefix pat (c # cs)")
    case True
    with Cons.prems assms(1) show ?thesis by simp
  next
    case False
    with Cons.prems obtain j where j: "find_sub pat cs = Some j" "k = Suc j" by auto
    with Cons.IH [OF j(1)] False show ?thesis
      by (auto simp: Let_def split: prod.splits)
  qed
qed

lemma subst_all_absent: "find_sub pat s = None \<Longrightarrow> subst_all pat rep s = (0, s)"
  by (induction s) (auto split: if_splits)

lemma replace_all_loop_subst:
  assumes "pat \<noteq> []" and "length pre = p"
  shows "replace_all_loop (pre @ s) pat rep (str_find (pre @ s) pat p) n =
    (let (m, r) = subst_all pat rep s in Some (n + of_nat m, pre @ r))"
  using assms(2)
proof (induction "length s" arbitrary: s pre p n rule: less_induct)
  case less
  have f: "str_find (pre @ s) pat p = map_option ((+) p) (find_sub pat s)"
    using less.prems by (simp add: str_find_def)
  show ?case
  proof (cases "find_sub pat s")
    case None
    with f show ?thesis by (simp add: replace_all_loop.simps subst_all_absent)
  next
    case (Some k)
    let ?s' = "drop (k + length pat) s"
    from find_sub_SomeD [OF Some] have k: "k \<le> length s" "prefix pat (drop k s)" by auto
    then have "length pat \<le> length (drop k s)" by (intro prefix_length_le)
    then have len: "k + length pat \<le> length s" using k by simp
    then have "length ?s' < length s" using assms(1) by (cases pat) auto
    from less.hyps [OF this, of "pre @ take k s @ rep" "p + k + length rep" "n + 1"] less.prems k
    have "replace_all_loop ((pre @ take k s @ rep) @ ?s') pat rep
        (str_find ((pre @ take k s @ rep) @ ?s') pat (p + k + length rep)) (n + 1) =
      (let (m, r) = subst_all pat rep ?s' in Some (n + 1 + of_nat m, (pre @ take k s @ rep) @ r))"
      by simp
    moreover have "take (p + k) (pre @ s) @ rep @ drop (p + k + length pat) (pre @ s)
        = (pre @ take k s @ rep) @ ?s'"
      using less.prems by (simp add: add.assoc)
    ultimately show ?thesis
      using f Some assms(1) len less.prems subst_all_skip [OF assms(1) Some, of rep]
      by (simp add: replace_all_loop.simps [of "pre @ s"] Let_def add.assoc split: prod.splits)
  qed
qed

lemma strip_trailing_NilD: "strip_trailing sep s = [] \<Longrightarrow> set s \<subseteq> {sep}"
proof (induction sep s rule: strip_trailing.induct)
  case (1 sep s)
  show ?case
  proof (cases "s \<noteq> [] \<and> last s = sep")
    case True
    then have "set (butlast s) \<subseteq> {sep}"
      using 1 by (simp add: strip_trailing.simps [of sep s])
    moreover have "s = butlast s @ [sep]" using True append_butlast_last_id [of s] by auto
    then have "set s = insert sep (set (butlast s))" by (metis insert_is_Un set_append sup_commute list.simps(15) empty_set)
    ultimately show ?thesis by auto
  next
    case False
    then have "strip_trailing sep s = s" by (auto simp: strip_trailing.simps [of sep s])
    with "1.prems" show ?thesis by simp
  qed
qed

lemma strip_leading_hd: "strip_leading sep s = [] \<and> set s \<subseteq> {sep} \<or>
    strip_leading sep s \<noteq> [] \<and> hd (strip_leading sep s) \<noteq> sep"
  by (induction s) auto

lemma pathConcat_slashes:
  assumes "set (pathConcat a b sep) \<subseteq> {sep}"
  shows "set a \<union> set b \<subseteq> {sep}"
proof -
  let ?f = "strip_trailing sep a" and ?s = "strip_leading sep b"
  have "?f = []"
  proof (rule ccontr)
    assume f: "?f \<noteq> []"
    then have "last ?f \<in> set (pathConcat a b sep)" by (simp add: pathConcat_def Let_def)
    with assms strip_trailing_last [of sep a] f show False by auto
  qed
  moreover have "?s = []"
  proof (rule ccontr)
    assume s: "?s \<noteq> []"
    then have "hd ?s \<in> set (pathConcat a b sep)"
      using \<open>?f = []\<close> by (simp add: pathConcat_def Let_def)
    with assms strip_leading_hd [of sep b] s show False by auto
  qed
  ultimately show ?thesis using strip_trailing_NilD [of sep a] strip_leading_hd [of sep b] by auto
qed

text \<open>Collapsing pairs of separators.\<close>

lemma no_pair_Cons:
  "\<not> sublist [d, d] (x # t) \<longleftrightarrow> \<not> sublist [d, d] t \<and> (x \<noteq> d \<or> t = [] \<or> hd t \<noteq> d)"
  by (cases t) (auto simp: sublist_Cons_right)

lemma no_pair_snoc:
  "\<not> sublist [d, d] (t @ [x]) \<longleftrightarrow> \<not> sublist [d, d] t \<and> (x \<noteq> d \<or> t = [] \<or> last t \<noteq> d)"
proof -
  have r: "sublist [d, d] u \<longleftrightarrow> sublist [d, d] (rev u)" for u
    using sublist_rev [of "[d, d]" u] by simp
  show ?thesis
    using no_pair_Cons [of d x "rev t"] r [of "t @ [x]"] r [of t] by (simp add: hd_rev)
qed

lemma set_leading:
  assumes "\<not> sublist [d, d] s" and "s \<noteq> []" and "s \<noteq> [d]"
  shows "\<exists>s'. s' = (if lead then if hd s \<noteq> d then [d] @ s else s else if hd s = d then tl s else s)
    \<and> \<not> sublist [d, d] s' \<and> s' \<noteq> [] \<and> s' \<noteq> [d] \<and> (hd s' = d \<longleftrightarrow> lead)"
  using assms by (cases s) (auto simp: no_pair_Cons)

lemma set_trailing:
  assumes "\<not> sublist [d, d] s" and "s \<noteq> []" and "s \<noteq> [d]"
  shows "\<exists>s'. s' = (if trail then if last s \<noteq> d then s @ [d] else s
      else if last s = d then butlast s else s)
    \<and> \<not> sublist [d, d] s' \<and> s' \<noteq> [] \<and> hd s' = hd s \<and> (last s' = d \<longleftrightarrow> trail)"
proof (cases s rule: rev_cases)
  case (snoc t x)
  have "\<not> sublist [d, d] (s @ [d])" if "x \<noteq> d"
    using no_pair_snoc [of d s d] assms(1) snoc that by simp
  with assms snoc no_pair_snoc [of d t x] show ?thesis by (auto simp: hd_append)
qed (use assms(2) in simp)

lemma subst_pair_hd:
  "s = [] \<or> hd s \<noteq> d \<Longrightarrow> snd (subst_all [d, d] [d] s) = [] \<or> hd (snd (subst_all [d, d] [d] s)) \<noteq> d"
  by (cases s) (auto simp: Let_def split: prod.splits)

lemma subst_pair_no_pair:
  assumes "\<not> sublist [d, d, d] s"
  shows "\<not> sublist [d, d] (snd (subst_all [d, d] [d] s))"
  using assms
proof (induction "[d, d]" "[d]" s rule: subst_all.induct)
  case 1
  then show ?case by simp
next
  case (2 c cs)
  let ?f = "\<lambda>s. snd (subst_all [d, d] [d] s)"
  show ?case
  proof (cases "prefix [d, d] (c # cs)")
    case True
    then obtain t where t: "c # cs = d # d # t" by (auto simp: prefix_def)
    have nt: "\<not> sublist [d, d, d] t" "t = [] \<or> hd t \<noteq> d"
      using "2.prems" t by (auto simp: sublist_Cons_right) (cases t; auto)
    have "\<not> sublist [d, d] (?f t)" using "2.hyps"(1) [of] True t nt by simp
    moreover have "?f (c # cs) = d # ?f t"
      using t by (auto simp: Let_def split: prod.splits)
    ultimately show ?thesis using no_pair_Cons subst_pair_hd [OF nt(2)] by metis
  next
    case False
    have nt: "\<not> sublist [d, d, d] cs" using "2.prems" by (auto simp: sublist_Cons_right)
    have "\<not> sublist [d, d] (?f cs)" using "2.hyps"(2) False nt by simp
    moreover have "?f (c # cs) = c # ?f cs"
      using False by (auto simp: Let_def split: prod.splits)
    moreover have "c \<noteq> d \<or> ?f cs = [] \<or> hd (?f cs) \<noteq> d"
      using False subst_pair_hd [of cs d] by (cases cs) auto
    ultimately show ?thesis using no_pair_Cons by metis
  qed
qed

subsection \<open>Lemmas on the symbolic link check\<close>

text \<open>The text of a path from its components, each with a slash before it.\<close>

definition slashed :: "string list \<Rightarrow> string" where
  "slashed cs = concat (map (\<lambda>c. CHR ''/'' # c) cs)"

definition components_ok :: "string list \<Rightarrow> bool" where
  "components_ok cs \<longleftrightarrow> cs \<noteq> [] \<and> list_all (\<lambda>c. c \<noteq> [] \<and> CHR ''/'' \<notin> set c) cs"

lemma slashed_snoc: "slashed (cs @ [c]) = slashed cs @ CHR ''/'' # c"
  by (simp add: slashed_def)

lemma find_last_of_append:
  assumes "c \<notin> set d"
  shows "find_last_of (a @ c # d) c = Some (length a)"
proof -
  have "\<forall>x \<in> set (rev d). \<not> x = c" using assms by auto
  from find_idx_append_absent [OF this, of "c # rev a"] show ?thesis
    by (simp add: find_last_of_def)
qed

lemma symlink_loop_components:
  assumes "symlink_loop fs (root @ slashed cs) i limit = Inr False"
    and "i + length cs \<le> limit" and "components_ok cs"
    and "0 < k" and "k \<le> length cs"
  shows "fs_lstat fs (root @ slashed (take k cs)) = Inr False"
  using assms
proof (induction cs arbitrary: i rule: rev_induct)
  case Nil
  then show ?case by (simp add: components_ok_def)
next
  case (snoc c cs)
  have c: "CHR ''/'' \<notin> set c" using snoc.prems(3) by (simp add: components_ok_def)
  let ?p = "(root @ slashed cs) @ CHR ''/'' # c"
  have path: "root @ slashed (cs @ [c]) = ?p" by (simp add: slashed_snoc)
  have pos: "find_last_of ?p (CHR ''/'') = Some (length (root @ slashed cs))"
    by (rule find_last_of_append [OF c])
  have tk: "take (length (root @ slashed cs)) ?p = root @ slashed cs" by simp
  have eq: "symlink_loop fs ?p i limit = (case fs_lstat fs ?p of
      Inl msg \<Rightarrow> Inl (BESInternalError (''Could not resolve path when testing for symbolic links: '' @ msg))
    | Inr is_link \<Rightarrow>
        if i + 1 < limit \<and> \<not> is_link \<and> root @ slashed cs \<noteq> []
        then symlink_loop fs (root @ slashed cs) (i + 1) limit else Inr is_link)"
    by (subst symlink_loop.simps) (simp only: pos option.case tk)
  have r: "symlink_loop fs ?p i limit = Inr False" using snoc.prems(1) path by (simp only:)
  from r [unfolded eq] have here: "fs_lstat fs ?p = Inr False"
    and rest: "i + 1 < limit \<and> root @ slashed cs \<noteq> [] \<Longrightarrow> symlink_loop fs (root @ slashed cs) (i + 1) limit = Inr False"
    by (auto split: sum.splits if_splits)
  show ?case
  proof (cases "k = length cs + 1")
    case True
    then show ?thesis using here path by simp
  next
    case False
    then have k: "k \<le> length cs" "cs \<noteq> []" using snoc.prems(4,5) by auto
    have ok: "components_ok cs" using snoc.prems(3) k(2) by (simp add: components_ok_def)
    have "slashed cs \<noteq> []" using k(2) by (cases cs) (simp_all add: slashed_def)
    moreover have "i + 1 < limit" using snoc.prems(2) k(2) by (cases cs) auto
    ultimately have "symlink_loop fs (root @ slashed cs) (i + 1) limit = Inr False"
      using rest by simp
    from snoc.IH [OF this _ ok snoc.prems(4) k(1)] snoc.prems(2) show ?thesis
      using k(1) by simp
  qed
qed

lemma count_slashed:
  "components_ok cs \<Longrightarrow> count_list (slashed cs) (CHR ''/'') = length cs"
proof -
  have "list_all (\<lambda>c. CHR ''/'' \<notin> set c) cs \<Longrightarrow> count_list (slashed cs) (CHR ''/'') = length cs"
    by (induction cs) (auto simp: slashed_def count_list_append)
  moreover assume "components_ok cs"
  ultimately show ?thesis by (auto simp: components_ok_def list_all_iff)
qed

lemma slashed_last: "components_ok cs \<Longrightarrow> slashed cs \<noteq> [] \<and> last (slashed cs) \<noteq> CHR ''/''"
  by (cases cs rule: rev_cases) (auto simp: components_ok_def slashed_snoc, metis last_in_set)

subsection \<open>Properties\<close>

text \<open>
  \<^verbatim>\<open>assemblePath\<close> joins its two parts with exactly one slash, however many slashes
  end the first part and start the second, and puts a slash before and after the result
  exactly as asked.
\<close>

theorem assemblePath_joins:
  assumes "a \<noteq> []" and "last a \<noteq> CHR ''/''"
    and "b \<noteq> []" and "hd b \<noteq> CHR ''/''" and "last b \<noteq> CHR ''/''"
  shows "assemblePath (a @ replicate m (CHR ''/'')) (replicate n (CHR ''/'') @ b) lead trail =
    (if lead \<and> hd a \<noteq> CHR ''/'' then ''/'' else []) @ a @ ''/'' @ b @ (if trail then ''/'' else [])"
proof -
  have "pathConcat (a @ replicate m (CHR ''/'')) (replicate n (CHR ''/'') @ b) (CHR ''/'') = a @ ''/'' @ b"
    using assms by (simp add: pathConcat_def strip_trailing_replicate strip_leading_replicate)
  moreover have "strip_trailing (CHR ''/'') p = p" if "last p \<noteq> CHR ''/''" for p
    using strip_trailing_replicate [of p "CHR ''/''" 0] that by simp
  ultimately have "assemblePath (a @ replicate m (CHR ''/'')) (replicate n (CHR ''/'') @ b) lead trail =
      (let p = ((if lead \<and> hd a \<noteq> CHR ''/'' then ''/'' else []) @ a @ ''/'') @ b
       in if trail then p @ ''/'' else p)"
    using assms(1,3,5)
    by (cases lead; cases "hd a = CHR ''/''") (simp_all add: assemblePath_def Let_def)
  then show ?thesis by (simp add: Let_def)
qed

theorem assemblePath_joins_witness:
  "assemblePath (''data'' @ replicate 2 (CHR ''/'')) (replicate 1 (CHR ''/'') @ ''nc/f.nc'') True False
   = ''/data/nc/f.nc''"
  using assemblePath_joins [of "''data''" "''nc/f.nc''" 2 1 True False] by simp

text \<open>
  the documentation says a path assembled with \<^verbatim>\<open>leadingSlash\<close> has a leading slash.
  That holds unless the two parts are made of slashes only and no trailing slash is asked
  for: then removing the trailing slashes removes the leading one too, and the result is
  empty.
\<close>

theorem assemblePath_leading:
  "assemblePath a b True False = [] \<and> set a \<union> set b \<subseteq> {CHR ''/''}
   \<or> hd (assemblePath a b True False) = CHR ''/'' \<and> assemblePath a b True False \<noteq> []"
proof -
  let ?p = "pathConcat a b (CHR ''/'')"
  let ?q = "if ?p = [] then ''/'' else if hd ?p \<noteq> CHR ''/'' then ''/'' @ ?p else ?p"
  have r: "assemblePath a b True False = strip_trailing (CHR ''/'') ?q"
    by (simp add: assemblePath_def Let_def)
  have q: "hd ?q = CHR ''/''" by auto
  show ?thesis
  proof (cases "strip_trailing (CHR ''/'') ?q = []")
    case True
    then have "set ?q \<subseteq> {CHR ''/''}" by (rule strip_trailing_NilD)
    then have "set ?p \<subseteq> {CHR ''/''}" by (auto split: if_splits)
    then have "set a \<union> set b \<subseteq> {CHR ''/''}" by (rule pathConcat_slashes)
    with True r show ?thesis by simp
  next
    case False
    with strip_trailing_hd [of "CHR ''/''" ?q] q r show ?thesis by simp
  qed
qed

text \<open>
  C35: \<^verbatim>\<open>replace_all\<close> returns for every non-empty text to find, and then it has replaced the
  non-overlapping occurrences from left to right and returns their number modulo \<open>2 ^ 32\<close>; text it
  inserts is never searched again.
\<close>

theorem replace_all_correct:
  assumes "find_this \<noteq> []"
  shows "replace_all s find_this replace_with_this =
    Some (word_of_nat (fst (subst_all find_this replace_with_this s)), snd (subst_all find_this replace_with_this s))"
  using replace_all_loop_subst [OF assms, of "[]" 0 s replace_with_this 0]
  by (simp add: replace_all_def Let_def split: prod.splits)

theorem replace_all_correct_witness: "replace_all ''aaaa/a'' ''aa'' ''a'' = Some (2, ''aa/a'')"
  using replace_all_correct [of "''aa''" "''aaaa/a''" "''a''"] by simp

text \<open>
  \<^verbatim>\<open>normalize_path\<close> of a path in which no three separators follow each other returns
  a path without double separators that starts and ends with a separator exactly as
  asked, unless the path is the bare separator.
\<close>

theorem normalize_path_normal:
  assumes "\<not> sublist [d, d, d] p"
  shows "\<exists>r. normalize_path p lead trail [d] = Some (Inr r) \<and> \<not> sublist [d, d] r
    \<and> (r = [d] \<or> (r \<noteq> [] \<and> (hd r = d \<longleftrightarrow> lead) \<and> (last r = d \<longleftrightarrow> trail)))"
proof -
  define s0 where "s0 = snd (subst_all [d, d] [d] p)"
  define s1 where "s1 = (if s0 = [] then [d] else s0)"
  have rep: "\<exists>n. replace_all p [d, d] [d] = Some (n, s0)"
    using replace_all_loop_subst [of "[d, d]" "[]" 0 p "[d]" 0]
    by (cases "subst_all [d, d] [d] p") (simp add: replace_all_def s0_def)
  have "\<not> sublist [d, d] s0" unfolding s0_def by (rule subst_pair_no_pair [OF assms])
  then have n1: "\<not> sublist [d, d] s1" and ne1: "s1 \<noteq> []" by (auto simp: s1_def sublist_Cons_right)
  show ?thesis
  proof (cases "s1 = [d]")
    case True
    have "normalize_path p lead trail [d] = Some (Inr [d])"
      using rep True by (auto simp: normalize_path_def s1_def Let_def split: if_splits)
    with True n1 show ?thesis by simp
  next
    case False
    obtain s2 where s2: "s2 = (if lead then if hd s1 \<noteq> d then [d] @ s1 else s1
        else if hd s1 = d then tl s1 else s1)"
      and p2: "\<not> sublist [d, d] s2" "s2 \<noteq> []" "s2 \<noteq> [d]" "hd s2 = d \<longleftrightarrow> lead"
      using set_leading [OF n1 ne1 False] by blast
    obtain s3 where s3: "s3 = (if trail then if last s2 \<noteq> d then s2 @ [d] else s2
        else if last s2 = d then butlast s2 else s2)"
      and p3: "\<not> sublist [d, d] s3" "s3 \<noteq> []" "hd s3 = hd s2" "last s3 = d \<longleftrightarrow> trail"
      using set_trailing [OF p2(1-3)] by blast
    have "normalize_path p lead trail [d] = Some (Inr s3)"
      using rep False s2 s3 unfolding normalize_path_def Let_def s1_def [symmetric]
      by (elim exE) (simp only: append.simps list.size list.sel One_nat_def option.case prod.case
          s1_def [symmetric] not_True_eq_False if_False plus_nat.simps Suc_eq_plus1 [symmetric] simp_thms)
    with p2 p3 show ?thesis by auto
  qed
qed

theorem normalize_path_normal_witness:
  "\<exists>r. normalize_path ''//a/b//'' True False ''/'' = Some (Inr r) \<and> \<not> sublist ''//'' r
    \<and> (r = ''/'' \<or> (r \<noteq> [] \<and> (hd r = CHR ''/'' \<longleftrightarrow> True) \<and> (last r = CHR ''/'' \<longleftrightarrow> False)))"
  by (rule normalize_path_normal) (simp add: sublist_Cons_right)

text \<open>
  three separators in a row are not collapsed to one: the pair is replaced, and the
  search goes on after it, so a double separator is left.
\<close>

theorem normalize_path_triple:
  "normalize_path ''a///b'' True False ''/'' = Some (Inr ''/a//b'')"
  by code_simp

text \<open>
  C34: when \<^verbatim>\<open>check_path\<close> accepts a path of one or more components, each after a slash, with
  or without one more slash at its end, where no component is empty or contains a slash, and
  symbolic links are not to be followed, the path has no \<^verbatim>\<open>..\<close> in it, it is readable below the
  root, and none of its components is a symbolic link.
\<close>

theorem check_path_safe:
  assumes "check_path fs (slashed cs @ t) root False = Inr ()"
    and "components_ok cs" and "t = [] \<or> t = ''/''"
  shows "\<not> sublist ''..'' (slashed cs @ t)
    \<and> fs_access fs (root @ slashed cs @ t) = None
    \<and> (\<forall>k. 0 < k \<and> k \<le> length cs \<longrightarrow> fs_lstat fs (root @ slashed (take k cs)) = Inr False)"
proof -
  let ?p = "slashed cs @ t" and ?n = "count_list (slashed cs @ t) (CHR ''/'')"
  have hd: "hd ?p = CHR ''/''" "?p \<noteq> []"
    using assms(2) by (cases cs; simp add: slashed_def components_ok_def)+
  have dots: "\<not> sublist ''..'' ?p" and acc: "fs_access fs (root @ ?p) = None"
    and link: "pathname_contains_symlink fs (root @ ?p) ?n = Inr False"
    using assms(1) hd
    by (auto simp: check_path_def str_find_None_iff res_bind_Inr_iff Let_def
        split: if_splits option.splits)
  have trim: "trim_if_trailing_slash (root @ ?p) = root @ slashed cs"
    using assms(3) slashed_last [OF assms(2)] by (auto simp: trim_if_trailing_slash_def butlast_append)
  have n: "length cs \<le> ?n" using count_slashed [OF assms(2)] by (simp add: count_list_append)
  have "symlink_loop fs (root @ slashed cs) 0 ?n = Inr False"
    using link by (simp add: pathname_contains_symlink_def trim)
  with symlink_loop_components [OF this _ assms(2)] n dots acc show ?thesis by simp
qed

definition sample_fs :: file_system where
  "sample_fs = \<lparr>fs_access = (\<lambda>p. if p \<in> {''/data/a/b'', ''/data/c/d''} then None else Some ENOENT),
     fs_lstat = (\<lambda>p. Inr (p = ''/data/a''))\<rparr>"

theorem check_path_safe_witness:
  "\<not> sublist ''..'' ''/c/d'' \<and> fs_access sample_fs ''/data/c/d'' = None
    \<and> fs_lstat sample_fs ''/data/c'' = Inr False \<and> fs_lstat sample_fs ''/data/c/d'' = Inr False"
proof -
  have c: "check_path sample_fs (slashed [''c'', ''d''] @ []) ''/data'' False = Inr ()" by code_simp
  have k: "components_ok [''c'', ''d'']" by (simp add: components_ok_def)
  from check_path_safe [OF c k disjI1 [OF refl]] show ?thesis
    by (auto simp: slashed_def dest: spec [of _ 1] spec [of _ 2])
qed

text \<open>
  the same check misses the first component of a path that does not start with a
  slash.  The number of levels to test is the number of slashes in the path, one less
  than its components: with \<^verbatim>\<open>/data/a\<close> a symbolic link, \<^verbatim>\<open>a/b\<close> is accepted below
  \<^verbatim>\<open>/data\<close>, while \<^verbatim>\<open>/a/b\<close> is refused.
\<close>

theorem check_path_misses_first:
  "fs_lstat sample_fs ''/data/a'' = Inr True
   \<and> check_path sample_fs ''a/b'' ''/data'' False = Inr ()
   \<and> check_path sample_fs ''/a/b'' ''/data'' False
       = Inl (BESForbiddenError (''Not allowed to access '' @ quoted ''/data/a/b''))"
proof (intro conjI)
  show "fs_lstat sample_fs ''/data/a'' = Inr True" by (simp add: sample_fs_def)
  show "check_path sample_fs ''a/b'' ''/data'' False = Inr ()" by code_simp
  show "check_path sample_fs ''/a/b'' ''/data'' False
       = Inl (BESForbiddenError (''Not allowed to access '' @ quoted ''/data/a/b''))" by code_simp
qed

end
