(* ===== verification/Std_Map.thy ===== *)
theory Std_Map
  imports Bes_Prelude
begin

text \<open>
  \<^verbatim>\<open>std::map<K,V>\<close> as an association list in strictly increasing key order.  The
  BES registries are all maps of this kind, and several of them iterate over their map
  (to list services, contexts or extensions), so the order is part of the model.

  \<open>keyed_store\<close> is the interface the registries rely on: what a lookup returns after an
  insertion and after an erasure, and that both keep the representation invariant.  Its
  interpretation \<open>smap\<close> discharges the laws for the ordered list.
\<close>

type_synonym ('k, 'v) stdmap = "('k \<times> 'v) list"

abbreviation map_find :: "('k, 'v) stdmap \<Rightarrow> 'k \<Rightarrow> 'v option" where
  "map_find m k \<equiv> map_of m k"

text \<open>\<^verbatim>\<open>m[k] = v\<close>\<close>

fun map_put :: "'k::linorder \<Rightarrow> 'v \<Rightarrow> ('k, 'v) stdmap \<Rightarrow> ('k, 'v) stdmap" where
  "map_put k v [] = [(k, v)]"
| "map_put k v ((k', v') # m) =
     (if k < k' then (k, v) # (k', v') # m
      else if k = k' then (k, v) # m
      else (k', v') # map_put k v m)"

text \<open>\<^verbatim>\<open>m.insert({k, v})\<close> leaves an existing entry alone.\<close>

definition map_insert :: "'k::linorder \<Rightarrow> 'v \<Rightarrow> ('k, 'v) stdmap \<Rightarrow> ('k, 'v) stdmap" where
  "map_insert k v m = (case map_find m k of Some _ \<Rightarrow> m | None \<Rightarrow> map_put k v m)"

text \<open>\<^verbatim>\<open>m.erase(k)\<close>\<close>

definition map_erase :: "'k \<Rightarrow> ('k, 'v) stdmap \<Rightarrow> ('k, 'v) stdmap" where
  "map_erase k m = filter (\<lambda>p. fst p \<noteq> k) m"

definition map_ok :: "('k::linorder, 'v) stdmap \<Rightarrow> bool" where
  "map_ok m \<longleftrightarrow> sorted_wrt (<) (map fst m)"

lemma map_of_map_put [simp]: "map_of (map_put k v m) = (map_of m)(k \<mapsto> v)"
  by (induction m) (auto simp: fun_eq_iff)

lemma map_of_map_erase [simp]: "map_of (map_erase k m) = (map_of m)(k := None)"
  by (induction m) (auto simp: map_erase_def fun_eq_iff)

lemma map_of_map_insert:
  "map_of (map_insert k v m) = (case map_of m k of None \<Rightarrow> (map_of m)(k \<mapsto> v) | Some _ \<Rightarrow> map_of m)"
  by (simp add: map_insert_def split: option.splits)

lemma fst_set_map_put: "fst ` set (map_put k v m) = insert k (fst ` set m)"
  by (simp add: dom_map_of_conv_image_fst [symmetric])

lemma set_map_put_subset: "set (map_put k v m) \<subseteq> insert (k, v) (set m)"
  by (induction m) (auto split: if_splits)

lemma map_put_neq_Nil [simp]: "map_put k v m \<noteq> []"
  by (induction m) (auto split: if_splits)

lemma map_ok_Nil [simp]: "map_ok []"
  by (simp add: map_ok_def)

lemma map_ok_Cons: "map_ok (p # m) \<longleftrightarrow> (\<forall>q \<in> set m. fst p < fst q) \<and> map_ok m"
  by (auto simp: map_ok_def)

lemma map_ok_put [intro]: "map_ok m \<Longrightarrow> map_ok (map_put k v m)"
proof (induction m)
  case Nil
  then show ?case by (simp add: map_ok_Cons)
next
  case (Cons p m)
  obtain k' v' where p: "p = (k', v')" by (cases p)
  from Cons.prems have lt: "\<forall>q \<in> set m. k' < fst q" and ok: "map_ok m"
    by (auto simp: map_ok_Cons p)
  have "\<forall>q \<in> set (map_put k v m). k' < fst q" if "k' < k"
    using lt that set_map_put_subset [of k v m] by fastforce
  with Cons.IH [OF ok] lt ok show ?case
    by (fastforce simp: map_ok_Cons p not_less le_less)
qed

lemma map_ok_erase [intro]: "map_ok m \<Longrightarrow> map_ok (map_erase k m)"
  by (induction m) (auto simp: map_ok_Cons map_erase_def)

lemma map_ok_insert [intro]: "map_ok m \<Longrightarrow> map_ok (map_insert k v m)"
  by (auto simp: map_insert_def split: option.splits)

lemma map_ok_distinct: "map_ok m \<Longrightarrow> distinct (map fst m)"
  by (induction m) (force simp: map_ok_Cons)+

lemma map_ok_find_iff: "map_ok m \<Longrightarrow> map_of m k = Some v \<longleftrightarrow> (k, v) \<in> set m"
  using map_ok_distinct [of m] by simp

text \<open>Two ordered maps with the same lookups are the same list.\<close>

lemma map_ok_ext: "map_ok m \<Longrightarrow> map_ok n \<Longrightarrow> map_of m = map_of n \<Longrightarrow> m = n"
proof -
  assume m: "map_ok m" and n: "map_ok n" and eq: "map_of m = map_of n"
  from eq have "set m = set n"
    using map_ok_find_iff [OF m] map_ok_find_iff [OF n] by auto
  moreover have "sorted (map fst m)" "sorted (map fst n)"
    using m n by (auto simp: map_ok_def strict_sorted_iff)
  moreover from m have "inj_on fst (set m)"
    using map_ok_distinct [OF m] by (simp add: distinct_map)
  ultimately show "m = n"
    using map_ok_distinct [OF m] map_ok_distinct [OF n]
    by (intro map_sorted_distinct_set_unique [of fst]) auto
qed

text \<open>Building a map by successive assignments in key order appends.\<close>

lemma map_put_append:
  assumes "\<forall>q \<in> set m. fst q < k"
  shows "map_put k v m = m @ [(k, v)]"
  using assms by (induction m) auto

lemma fold_map_put_sorted:
  assumes "map_ok (m @ n)"
  shows "fold (\<lambda>(k, v). map_put k v) n m = m @ n"
  using assms
proof (induction n arbitrary: m)
  case Nil
  then show ?case by simp
next
  case (Cons p n)
  obtain k v where p: "p = (k, v)" by (cases p)
  from Cons.prems have "\<forall>q \<in> set m. fst q < k"
    by (auto simp: map_ok_def p sorted_wrt_append)
  then have "map_put k v m = m @ [p]" by (simp add: map_put_append p)
  with Cons.IH [of "m @ [p]"] Cons.prems show ?case by (simp add: p)
qed

subsection \<open>The interface the registries use\<close>

locale keyed_store =
  fixes empty :: "'m"
    and put :: "'k \<Rightarrow> 'v \<Rightarrow> 'm \<Rightarrow> 'm"
    and erase :: "'k \<Rightarrow> 'm \<Rightarrow> 'm"
    and find :: "'m \<Rightarrow> 'k \<Rightarrow> 'v option"
    and invar :: "'m \<Rightarrow> bool"
  assumes find_empty: "find empty k = None"
    and find_put: "invar m \<Longrightarrow> find (put k v m) = (find m)(k \<mapsto> v)"
    and find_erase: "invar m \<Longrightarrow> find (erase k m) = (find m)(k := None)"
    and invar_empty: "invar empty"
    and invar_put: "invar m \<Longrightarrow> invar (put k v m)"
    and invar_erase: "invar m \<Longrightarrow> invar (erase k m)"
begin

text \<open>A registry adds an entry only under a free name, and removes by name.\<close>

definition try_add :: "'k \<Rightarrow> 'v \<Rightarrow> 'm \<Rightarrow> bool \<times> 'm" where
  "try_add k v m = (case find m k of None \<Rightarrow> (True, put k v m) | Some _ \<Rightarrow> (False, m))"

definition try_remove :: "'k \<Rightarrow> 'm \<Rightarrow> 'v option \<times> 'm" where
  "try_remove k m = (case find m k of None \<Rightarrow> (None, m) | Some v \<Rightarrow> (Some v, erase k m))"

lemma try_add_invar: "invar m \<Longrightarrow> invar (snd (try_add k v m))"
  by (simp add: try_add_def invar_put split: option.splits)

lemma try_remove_invar: "invar m \<Longrightarrow> invar (snd (try_remove k m))"
  by (simp add: try_remove_def invar_erase split: option.splits)

lemma try_add_find:
  assumes "invar m"
  shows "find (snd (try_add k v m)) k' =
    (if k' = k \<and> find m k = None then Some v else find m k')"
  using assms by (simp add: try_add_def find_put split: option.splits)

lemma try_remove_find:
  assumes "invar m"
  shows "find (snd (try_remove k m)) k' = (if k' = k then None else find m k')"
  using assms by (simp add: try_remove_def find_erase split: option.splits)

lemma try_add_success: "fst (try_add k v m) \<longleftrightarrow> find m k = None"
  by (simp add: try_add_def split: option.splits)

lemma try_add_remove:
  assumes "invar m" and "find m k = None"
  shows "fst (try_remove k (snd (try_add k v m))) = Some v"
    and "find (snd (try_remove k (snd (try_add k v m)))) = find m"
  using assms by (auto simp: try_add_def try_remove_def find_put find_erase invar_put fun_eq_iff)

end

interpretation smap: keyed_store "[]" map_put map_erase map_of map_ok
  by unfold_locales auto

end
