(* ===== verification/Ppt_Connection.thy ===== *)
theory Ppt_Connection
  imports Std_Map
begin

text \<open>
  The Point to Point Transport of \<^verbatim>\<open>ppt/\<close>: \<^verbatim>\<open>Socket::receive\<close>, the chunked protocol of
  \<^verbatim>\<open>PPTConnection\<close>, and \<^verbatim>\<open>PPTStreamBuf\<close>, the stream buffer that chunks a response.

  What a connection sends is the text it writes to the socket.  Reading is a parameter of
  the receiving functions, since \<^verbatim>\<open>Socket::receive\<close> is virtual; \<open>socket_source\<close> states
  what they rely on, and \<^verbatim>\<open>Socket::receive\<close> itself, over a stream that the network cuts
  into arbitrary segments and that signals may interrupt, is its interpretation.  The
  main result is that whatever a connection sends is received unchanged, however the
  bytes arrive.
\<close>

subsection \<open>Hexadecimal chunk lengths\<close>

definition hex_digit :: "nat \<Rightarrow> char" where
  "hex_digit n = ''0123456789abcdef'' ! n"

fun to_hex :: "nat \<Rightarrow> string" where
  "to_hex n = (if n < 16 then [hex_digit n] else to_hex (n div 16) @ [hex_digit (n mod 16)])"

declare to_hex.simps [simp del]

text \<open>\<^verbatim>\<open>strm << hex << setw(7) << setfill('0') << n\<close>\<close>

definition hex7 :: "nat \<Rightarrow> string" where
  "hex7 n = replicate (7 - length (to_hex n)) (CHR ''0'') @ to_hex n"

text \<open>
  \<^verbatim>\<open>lenstrm >> hex >> inlen\<close> on an \<^verbatim>\<open>unsigned long\<close>: white space is skipped, then come an
  optional sign, an optional \<^verbatim>\<open>0x\<close> and the longest run of hexadecimal digits; without a
  digit the value is 0, and a minus sign negates modulo \<open>2 ^ 64\<close>.
\<close>

definition hex_value :: "char \<Rightarrow> nat option" where
  "hex_value c =
     (case find_idx (\<lambda>x. x = c) ''0123456789abcdef'' of
        Some i \<Rightarrow> Some i
      | None \<Rightarrow> map_option ((+) 10) (find_idx (\<lambda>x. x = c) ''ABCDEF''))"

definition isspace :: "char \<Rightarrow> bool" where
  "isspace c \<longleftrightarrow> c \<in> set [CHR '' '', CHR 0x09, CHR 0x0A, CHR 0x0B, CHR 0x0C, CHR 0x0D]"

definition hex_number :: "string \<Rightarrow> nat" where
  "hex_number s =
     foldl (\<lambda>acc c. case hex_value c of None \<Rightarrow> acc | Some d \<Rightarrow> acc * 16 + d) 0
       (takeWhile (\<lambda>c. hex_value c \<noteq> None) s)"

definition strip_0x :: "string \<Rightarrow> string" where
  "strip_0x s = (if prefix ''0x'' s \<or> prefix ''0X'' s then drop 2 s else s)"

definition read_hex :: "string \<Rightarrow> int" where
  "read_hex s =
     (let t = dropWhile isspace s
      in case t of
           [] \<Rightarrow> 0
         | c # cs \<Rightarrow>
             if c = CHR ''-'' then (- int (hex_number (strip_0x cs))) mod 2 ^ 64
             else if c = CHR ''+'' then int (hex_number (strip_0x cs))
             else int (hex_number (strip_0x t)))"

text \<open>The conversion of an \<^verbatim>\<open>unsigned long\<close> to the parameter \<^verbatim>\<open>const int len\<close>.\<close>

definition to_int32 :: "int \<Rightarrow> int" where
  "to_int32 n = (n + 2 ^ 31) mod 2 ^ 32 - 2 ^ 31"

subsection \<open>Sending\<close>

type_synonym extensions = "(string, string) stdmap"

definition extension_text :: "extensions \<Rightarrow> string" where
  "extension_text exts =
     concat (map (\<lambda>(name, value). name @ (if value \<noteq> [] then ''='' @ value else []) @ '';'') exts)"

definition sendExtensions :: "extensions \<Rightarrow> string" where
  "sendExtensions exts =
     (if exts \<noteq> [] then
        (let xstr = extension_text exts in hex7 (length xstr) @ ''x'' @ xstr)
      else [])"

definition sendChunk :: "string \<Rightarrow> extensions \<Rightarrow> string" where
  "sendChunk buffer exts =
     (if exts \<noteq> [] then sendExtensions exts else []) @
     hex7 (length buffer) @ ''d'' @ (if buffer \<noteq> [] then buffer else [])"

definition send :: "string \<Rightarrow> extensions \<Rightarrow> string" where
  "send buffer exts =
     (if buffer \<noteq> [] then sendChunk buffer exts @ sendChunk [] [] else sendChunk [] exts)"

definition PPT_EXIT_NOW :: string where
  "PPT_EXIT_NOW = ''PPT_EXIT_NOW''"

definition sendExit :: string where
  "sendExit = send [] (map_put ''status'' PPT_EXIT_NOW []) @ sendChunk [] []"

subsection \<open>Reading extensions\<close>

function read_extensions_loop :: "extensions \<Rightarrow> string \<Rightarrow> nat \<Rightarrow> extensions result" where
  "read_extensions_loop exts xstr index =
     (case str_find_char xstr (CHR '';'') index of
        None \<Rightarrow>
          Inl (BESInternalError (''malformed extensions '' @ substr xstr index (length xstr - index)
                 @ '', missing semicolon''))
      | Some semi \<Rightarrow>
          (let no_value = map_put (substr xstr index (semi - index)) [] exts;
               next_pair = (\<lambda>exts. if semi + 1 \<ge> length xstr then Inr exts
                                    else read_extensions_loop exts xstr (semi + 1))
           in (case str_find_char xstr (CHR ''='') index of
                 None \<Rightarrow> next_pair no_value
               | Some eq \<Rightarrow>
                   if eq > semi then next_pair no_value
                   else if eq = semi - 1 then
                     Inl (BESInternalError (''malformed extensions ''
                            @ substr xstr index (length xstr - index) @ '', missing value after =''))
                   else
                     next_pair (map_put (substr xstr index (eq - index))
                                  (substr xstr (eq + 1) (semi - eq - 1)) exts))))"
  by pat_completeness auto
termination
  by (relation "measure (\<lambda>(_, xstr, index). length xstr - index)") (auto dest!: str_find_char_bounds)

declare read_extensions_loop.simps [simp del]

definition read_extensions :: "extensions \<Rightarrow> string \<Rightarrow> extensions result" where
  "read_extensions exts xstr = read_extensions_loop exts xstr 0"

subsection \<open>Receiving\<close>

text \<open>
  \<open>recv s n\<close> is \<^verbatim>\<open>_mySock->receive(buffer, n)\<close>: the bytes that were read and the socket
  afterwards; no bytes means the end of the stream.
\<close>

type_synonym 's reader = "'s \<Rightarrow> int \<Rightarrow> (string \<times> 's) result"

text \<open>The bytes that \<^verbatim>\<open>readChunkHeader\<close> leaves in its buffer; it returns their number, and
  0 at the end of the stream whatever was read before.\<close>

function readChunkHeader :: "'s reader \<Rightarrow> 's \<Rightarrow> string \<Rightarrow> nat \<Rightarrow> (string \<times> 's) result" where
  "readChunkHeader recv s buffer buffer_size =
     (case recv s (int buffer_size) of
        Inl e \<Rightarrow> Inl e
      | Inr (bytes, s') \<Rightarrow>
          if bytes = [] then Inr ([], s')
          else if length bytes < buffer_size
          then readChunkHeader recv s' (buffer @ bytes) (buffer_size - length bytes)
          else Inr (buffer @ bytes, s'))"
  by pat_completeness auto
termination
  by (relation "measure (\<lambda>(_, _, _, n). n)") auto

declare readChunkHeader.simps [simp del]

text \<open>\<^verbatim>\<open>receive(ostream &strm, const int len)\<close>; \<open>inBuff_len\<close> is \<^const>\<open>None\<close> while the
  buffer is not allocated.\<close>

function receive_data :: "'s reader \<Rightarrow> nat option \<Rightarrow> 's \<Rightarrow> string \<Rightarrow> int \<Rightarrow> (string \<times> 's) result" where
  "receive_data recv inBuff_len s strm len =
     (case inBuff_len of
        None \<Rightarrow> Inl (BESInternalError ''buffer has not been initialized'')
      | Some n \<Rightarrow>
          (case recv s (if len > int n then int n else len) of
             Inl e \<Rightarrow> Inl e
           | Inr (bytes, s') \<Rightarrow>
               if bytes = [] then Inl (BESInternalError ''Failed to read data from socket'')
               else if int (length bytes) < len
               then receive_data recv inBuff_len s' (strm @ bytes) (len - int (length bytes))
               else Inr (strm @ bytes, s')))"
  by pat_completeness auto
termination
  by (relation "measure (\<lambda>(_, _, _, _, len). nat len)") auto

declare receive_data.simps [simp del]

record 's ppt_connection =
  mySock :: 's
  recvBufferSize :: nat
  inBuff :: "nat option"

text \<open>
  \<^verbatim>\<open>receive(extensions, strm)\<close>: whether the last chunk was read, the extensions, the data
  written to the stream, and the connection.  The header is read into \<^verbatim>\<open>_inBuff\<close>, which has two
  bytes more than the socket's receive buffer size and takes nine with the terminating null: a
  size below 7 would be written past.  The smallest receive buffer of a system is far above that
  (\<^verbatim>\<open>SO_RCVBUF\<close> is at least 2304 on Linux), so the sizes below 7 are of no concern, and for them
  the definition does not describe the code.
\<close>

definition receive ::
  "'s reader \<Rightarrow> 's ppt_connection \<Rightarrow> extensions \<Rightarrow> (bool \<times> extensions \<times> string \<times> 's ppt_connection) result" where
  "receive recv c exts =
     (let c = (if inBuff c = None then c\<lparr>inBuff := Some (recvBufferSize c + 1)\<rparr> else c)
      in res_bind (readChunkHeader recv (mySock c) [] 8) (\<lambda>(header, s).
           if length header \<noteq> 8 then
             Inl (BESInternalError ''PPTConnection::receive() - Failed to read chunk header'')
           else
             (let inlen = read_hex (takeWhile (\<lambda>b. b \<noteq> CHR 0x00) (take 7 header));
                  kind = header ! 7
              in if kind = CHR ''x'' then
                   res_bind (receive_data recv (inBuff c) s [] (to_int32 inlen)) (\<lambda>(xstr, s).
                     res_bind (read_extensions exts xstr) (\<lambda>exts.
                       Inr (False, exts, [], c\<lparr>mySock := s\<rparr>)))
                 else if kind = CHR ''d'' then
                   if inlen = 0 then Inr (True, exts, [], c\<lparr>mySock := s\<rparr>)
                   else
                     res_bind (receive_data recv (inBuff c) s [] (to_int32 inlen)) (\<lambda>(data, s).
                       Inr (False, exts, data, c\<lparr>mySock := s\<rparr>))
                 else
                   Inl (BESInternalError (''type of data is '' @ [kind] @
                          '', should be x for extensions or d for data'')))))"

text \<open>
  The loop of the callers (\<^verbatim>\<open>BESServerHandler::execute\<close>, \<^verbatim>\<open>CmdClient\<close>,
  \<^verbatim>\<open>DaemonCommandHandler\<close>): \<^verbatim>\<open>while (!done) done = connection->receive(extensions, &ss)\<close>.
  \<open>fuel\<close> bounds the number of chunks; \<^const>\<open>None\<close> is running out of it.
\<close>

fun receive_message ::
  "nat \<Rightarrow> 's reader \<Rightarrow> 's ppt_connection \<Rightarrow> extensions \<Rightarrow> string
    \<Rightarrow> (extensions \<times> string \<times> 's ppt_connection) result option" where
  "receive_message 0 recv c exts ss = None"
| "receive_message (Suc fuel) recv c exts ss =
     (case receive recv c exts of
        Inl e \<Rightarrow> Some (Inl e)
      | Inr (done, exts, data, c) \<Rightarrow>
          if done then Some (Inr (exts, ss @ data, c))
          else receive_message fuel recv c exts (ss @ data))"

subsection \<open>The socket\<close>

text \<open>
  What \<^verbatim>\<open>read(2)\<close> does next: it returns bytes of the next segment (at most the number
  asked for), is interrupted (\<^verbatim>\<open>EINTR\<close>, \<^verbatim>\<open>EAGAIN\<close>), or fails with an error text.  No more
  events is the end of the stream.  A negative size becomes a count above \<^verbatim>\<open>SSIZE_MAX\<close>, which
  the kernel refuses.
\<close>

datatype sock_event = Segment string | Interrupted | Failure string

fun sock_receive :: "sock_event list reader" where
  "sock_receive [] inSize = Inr ([], [])"
| "sock_receive (Interrupted # evs) inSize = sock_receive evs inSize"
| "sock_receive (Failure err # evs) inSize =
     Inl (BESInternalError (''Socket::receive: socket failure, reading on stream socket: ''
            @ err @ '', bytesRead: -1''))"
| "sock_receive (Segment s # evs) inSize =
     (if inSize < 0 then
        Inl (BESInternalError (''Socket::receive: socket failure, reading on stream socket: ''
               @ ''Bad address'' @ '', bytesRead: -1''))
      else if s = [] then sock_receive evs inSize
      else if int (length s) \<le> inSize then Inr (s, evs)
      else Inr (take (nat inSize) s, Segment (drop (nat inSize) s) # evs))"

fun sock_bytes :: "sock_event list \<Rightarrow> string" where
  "sock_bytes [] = []"
| "sock_bytes (Segment s # evs) = s @ sock_bytes evs"
| "sock_bytes (Interrupted # evs) = sock_bytes evs"
| "sock_bytes (Failure err # evs) = []"

definition sock_live :: "sock_event list \<Rightarrow> bool" where
  "sock_live evs \<longleftrightarrow> (\<forall>e \<in> set evs. case e of Failure _ \<Rightarrow> False | _ \<Rightarrow> True)"

subsection \<open>The response stream buffer\<close>

text \<open>\<^verbatim>\<open>PPTStreamBuf\<close>: the put area, its size, and the bytes written to the socket.\<close>

record ppt_streambuf =
  d_bufsize :: nat
  d_buffer :: string
  written :: string

definition sb_open :: "nat \<Rightarrow> ppt_streambuf" where
  "sb_open bufsize = \<lparr>d_bufsize = (if bufsize = 0 then 1 else bufsize), d_buffer = [], written = []\<rparr>"

definition sb_sync :: "ppt_streambuf \<Rightarrow> ppt_streambuf" where
  "sb_sync b =
     (if d_buffer b \<noteq> [] then
        b\<lparr>written := written b @ hex7 (length (d_buffer b)) @ ''d'' @ d_buffer b, d_buffer := []\<rparr>
      else b)"

definition sb_overflow :: "char \<Rightarrow> ppt_streambuf \<Rightarrow> ppt_streambuf" where
  "sb_overflow c b = (let b = sb_sync b in b\<lparr>d_buffer := d_buffer b @ [c]\<rparr>)"

text \<open>\<^verbatim>\<open>std::streambuf::sputc\<close>: store the byte if there is room, else \<^verbatim>\<open>overflow\<close>.\<close>

definition sb_put :: "char \<Rightarrow> ppt_streambuf \<Rightarrow> ppt_streambuf" where
  "sb_put c b =
     (if length (d_buffer b) < d_bufsize b then b\<lparr>d_buffer := d_buffer b @ [c]\<rparr> else sb_overflow c b)"

definition eod_marker :: string where
  "eod_marker = ''0000000d''"

definition sb_finish :: "ppt_streambuf \<Rightarrow> ppt_streambuf" where
  "sb_finish b = (let b = sb_sync b in b\<lparr>written := written b @ eod_marker\<rparr>)"

subsection \<open>Reading back a chunk length\<close>

lemma hex_digit_facts:
  assumes "d < 16"
  shows "hex_value (hex_digit d) = Some d" and "\<not> isspace (hex_digit d)"
    and "hex_digit d \<noteq> CHR ''-''" and "hex_digit d \<noteq> CHR ''+''"
    and "hex_digit d \<noteq> CHR ''x''" and "hex_digit d \<noteq> CHR ''X''" and "hex_digit d \<noteq> CHR 0x00"
proof -
  have all: "\<forall>d \<in> set [0..<16]. hex_value (hex_digit d) = Some d \<and> \<not> isspace (hex_digit d) \<and>
      hex_digit d \<notin> {CHR ''-'', CHR ''+'', CHR ''x'', CHR ''X'', CHR 0x00}"
    by code_simp
  have "d \<in> set [0..<16]" using assms by simp
  note bspec [OF all this]
  then show "hex_value (hex_digit d) = Some d" and "\<not> isspace (hex_digit d)"
    and "hex_digit d \<noteq> CHR ''-''" and "hex_digit d \<noteq> CHR ''+''"
    and "hex_digit d \<noteq> CHR ''x''" and "hex_digit d \<noteq> CHR ''X''" and "hex_digit d \<noteq> CHR 0x00"
    by simp_all
qed

lemma to_hex_digits: "\<exists>ds. to_hex n = map hex_digit ds \<and> ds \<noteq> [] \<and> (\<forall>d \<in> set ds. d < 16)
    \<and> foldl (\<lambda>acc d. acc * 16 + d) 0 ds = n"
proof (induction n rule: to_hex.induct)
  case (1 n)
  show ?case
  proof (cases "n < 16")
    case True
    then have "to_hex n = map hex_digit [n] \<and> [n] \<noteq> [] \<and> (\<forall>d \<in> set [n]. d < 16)
        \<and> foldl (\<lambda>acc d. acc * 16 + d) 0 [n] = n"
      by (simp add: to_hex.simps)
    then show ?thesis by blast
  next
    case False
    with 1 obtain ds where ds: "to_hex (n div 16) = map hex_digit ds" "ds \<noteq> []" "\<forall>d \<in> set ds. d < 16"
      "foldl (\<lambda>acc d. acc * 16 + d) 0 ds = n div 16" by blast
    have "to_hex n = map hex_digit (ds @ [n mod 16])"
      using False ds(1) by (simp add: to_hex.simps [of n])
    with ds have "to_hex n = map hex_digit (ds @ [n mod 16]) \<and> ds @ [n mod 16] \<noteq> []
        \<and> (\<forall>d \<in> set (ds @ [n mod 16]). d < 16)
        \<and> foldl (\<lambda>acc d. acc * 16 + d) 0 (ds @ [n mod 16]) = n" by simp
    then show ?thesis by blast
  qed
qed

lemma length_to_hex: "0 < k \<Longrightarrow> length (to_hex n) \<le> k \<longleftrightarrow> n < 16 ^ k"
proof (induction k arbitrary: n)
  case 0
  then show ?case by simp
next
  case (Suc k)
  show ?case
  proof (cases "n < 16")
    case True
    have "(16::nat) \<le> 16 ^ Suc k" by simp
    with True have "n < 16 ^ Suc k" by (rule less_le_trans)
    with True show ?thesis by (simp add: to_hex.simps [of n])
  next
    case False
    show ?thesis
    proof (cases k)
      case 0
      have "to_hex m \<noteq> []" for m using to_hex_digits [of m] by auto
      with False 0 show ?thesis by (simp add: to_hex.simps [of n])
    next
      case (Suc j)
      have "length (to_hex n) \<le> Suc k \<longleftrightarrow> length (to_hex (n div 16)) \<le> k"
        using False by (simp add: to_hex.simps [of n])
      also have "\<dots> \<longleftrightarrow> n div 16 < 16 ^ k" using Suc.IH Suc by simp
      also have "\<dots> \<longleftrightarrow> n < 16 ^ Suc k" by (simp add: div_less_iff_less_mult mult.commute)
      finally show ?thesis .
    qed
  qed
qed

lemma hex7_digits: "\<exists>ds. hex7 n = map hex_digit ds \<and> ds \<noteq> [] \<and> (\<forall>d \<in> set ds. d < 16)
    \<and> foldl (\<lambda>acc d. acc * 16 + d) 0 ds = n"
proof -
  obtain ds where ds: "to_hex n = map hex_digit ds" "ds \<noteq> []" "\<forall>d \<in> set ds. d < 16"
      "foldl (\<lambda>acc d. acc * 16 + d) 0 ds = n" using to_hex_digits by blast
  let ?z = "replicate (7 - length (to_hex n)) (0::nat)"
  have z: "foldl (\<lambda>acc d. acc * 16 + d) 0 (replicate k (0::nat)) = 0" for k by (induction k) auto
  have "hex_digit 0 = CHR ''0''" by (simp add: hex_digit_def)
  then have "hex7 n = map hex_digit (?z @ ds)" by (simp add: hex7_def ds(1))
  moreover have "foldl (\<lambda>acc d. acc * 16 + d) 0 (?z @ ds) = n" using z ds(4) by simp
  moreover have "\<forall>d \<in> set (?z @ ds). d < 16" using ds(3) by auto
  ultimately show ?thesis using ds(2) by blast
qed

lemma hex_number_digits:
  assumes "\<forall>d \<in> set ds. d < 16"
  shows "hex_number (map hex_digit ds) = foldl (\<lambda>acc d. acc * 16 + d) 0 ds"
proof -
  have t: "takeWhile (\<lambda>c. hex_value c \<noteq> None) (map hex_digit ds) = map hex_digit ds"
    using assms by (simp add: hex_digit_facts)
  have "foldl (\<lambda>acc c. case hex_value c of None \<Rightarrow> acc | Some d \<Rightarrow> acc * 16 + d) a (map hex_digit ds)
      = foldl (\<lambda>acc d. acc * 16 + d) a ds" for a
    using assms by (induction ds arbitrary: a) (auto simp: hex_digit_facts)
  then show ?thesis unfolding hex_number_def t .
qed

lemma read_hex7: "read_hex (hex7 n) = int n"
proof -
  obtain ds where ds: "hex7 n = map hex_digit ds" "ds \<noteq> []" "\<forall>d \<in> set ds. d < 16"
      "foldl (\<lambda>acc d. acc * 16 + d) 0 ds = n" using hex7_digits by blast
  obtain e es where e: "ds = e # es" using ds(2) by (cases ds) auto
  have e16: "e < 16" and es16: "\<forall>d \<in> set es. d < 16" using ds(3) e by auto
  have "strip_0x (map hex_digit ds) = map hex_digit ds"
  proof (cases es)
    case Nil
    then show ?thesis by (simp add: strip_0x_def e)
  next
    case (Cons a t)
    then have "hex_digit a \<noteq> CHR ''x''" "hex_digit a \<noteq> CHR ''X''" using es16 hex_digit_facts(5,6) by auto
    with Cons show ?thesis by (auto simp: strip_0x_def e)
  qed
  with hex_number_digits [OF ds(3)] show ?thesis
    by (simp add: read_hex_def ds(1) ds(4)) (simp add: e hex_digit_facts [OF e16])
qed

lemma hex7_no_nul: "takeWhile (\<lambda>b. b \<noteq> CHR 0x00) (hex7 n) = hex7 n"
proof -
  obtain ds where ds: "hex7 n = map hex_digit ds" "\<forall>d \<in> set ds. d < 16" using hex7_digits by blast
  have "c \<noteq> CHR 0x00" if "c \<in> set (hex7 n)" for c
  proof -
    from that ds(1) obtain d where "d \<in> set ds" "c = hex_digit d" by auto
    then show ?thesis using ds(2) hex_digit_facts(7) [of d] by simp
  qed
  then show ?thesis unfolding takeWhile_eq_all_conv by blast
qed

lemma length_hex7: "n < 16 ^ 7 \<Longrightarrow> length (hex7 n) = 7"
  using length_to_hex [of 7 n] by (simp add: hex7_def)

lemma to_int32_small: "n < 16 ^ 7 \<Longrightarrow> to_int32 (int n) = int n"
  by (simp add: to_int32_def)

lemma append_prefix_split:
  assumes "xs @ ys = h @ r" and "length xs \<le> length h"
  shows "h = xs @ drop (length xs) h" and "ys = drop (length xs) h @ r"
proof -
  from assms have "take (length xs) h = xs"
    by (metis append_eq_conv_conj take_append diff_is_0_eq take_0 append_Nil2)
  then show h: "h = xs @ drop (length xs) h" by (metis append_take_drop_id)
  from assms(1) show "ys = drop (length xs) h @ r" by (subst (asm) h) simp
qed

subsection \<open>What the receiver relies on\<close>

text \<open>
  \<open>content s\<close> are the bytes the socket will still deliver.  While there are some, a read
  for at least one byte delivers a non-empty prefix of them, no longer than asked for;
  when there are none left, it delivers none.
\<close>

locale socket_source =
  fixes recv :: "'s reader"
    and content :: "'s \<Rightarrow> string"
    and live :: "'s \<Rightarrow> bool"
  assumes recv_bytes: "live s \<Longrightarrow> content s \<noteq> [] \<Longrightarrow> 0 < n \<Longrightarrow>
      \<exists>bytes s'. recv s n = Inr (bytes, s') \<and> bytes \<noteq> [] \<and> int (length bytes) \<le> n
        \<and> content s = bytes @ content s' \<and> live s'"
    and recv_eof: "live s \<Longrightarrow> content s = [] \<Longrightarrow> 0 < n \<Longrightarrow> \<exists>s'. recv s n = Inr ([], s')"
begin

lemma readChunkHeader_content:
  assumes "live s" and "content s = h @ rest" and "length h = n" and "0 < n"
  shows "\<exists>s'. readChunkHeader recv s buf n = Inr (buf @ h, s') \<and> content s' = rest \<and> live s'"
  using assms
proof (induction n arbitrary: s buf h rule: less_induct)
  case (less n)
  obtain bytes s1 where r: "recv s (int n) = Inr (bytes, s1)" "bytes \<noteq> []" "length bytes \<le> n"
      "content s = bytes @ content s1" "live s1"
    using recv_bytes [of s "int n"] less.prems by fastforce
  have h: "h = bytes @ drop (length bytes) h" and c1: "content s1 = drop (length bytes) h @ rest"
    using append_prefix_split [of bytes "content s1" h rest] r less.prems by auto
  show ?case
  proof (cases "length bytes < n")
    case True
    have "\<exists>s'. readChunkHeader recv s1 (buf @ bytes) (n - length bytes) =
        Inr ((buf @ bytes) @ drop (length bytes) h, s') \<and> content s' = rest \<and> live s'"
      using less.prems True r c1 by (intro less.IH) auto
    with True r h show ?thesis by (simp add: readChunkHeader.simps [of recv s])
  next
    case False
    with r less.prems have "length bytes = length h" by simp
    then have "drop (length bytes) h = []" by simp
    with h have "h = bytes" by simp
    with False r c1 show ?thesis by (simp add: readChunkHeader.simps [of recv s])
  qed
qed

lemma receive_data_content:
  assumes "live s" and "content s = d @ rest" and "len = int (length d)" and "d \<noteq> []" and "0 < b"
  shows "\<exists>s'. receive_data recv (Some b) s out len = Inr (out @ d, s') \<and> content s' = rest \<and> live s'"
  using assms(1-4)
proof (induction "length d" arbitrary: s out d len rule: less_induct)
  case less
  let ?n = "if len > int b then int b else len"
  have n: "0 < ?n" using less.prems assms(5) by simp
  obtain bytes s1 where r: "recv s ?n = Inr (bytes, s1)" "bytes \<noteq> []" "int (length bytes) \<le> ?n"
      "content s = bytes @ content s1" "live s1"
    using recv_bytes [of s ?n] less.prems n by fastforce
  have le: "length bytes \<le> length d" using r(3) less.prems(3) by (simp split: if_splits)
  then have d: "d = bytes @ drop (length bytes) d" and c1: "content s1 = drop (length bytes) d @ rest"
    using append_prefix_split [of bytes "content s1" d rest] r less.prems by auto
  show ?case
  proof (cases "length bytes < length d")
    case True
    have "\<exists>s'. receive_data recv (Some b) s1 (out @ bytes) (len - int (length bytes)) =
        Inr ((out @ bytes) @ drop (length bytes) d, s') \<and> content s' = rest \<and> live s'"
      using less.prems True r c1 by (intro less.hyps) auto
    with True r less.prems d show ?thesis
      by (cases "b < length d") (simp_all add: receive_data.simps [of recv "Some b" s])
  next
    case False
    with le have "drop (length bytes) d = []" by simp
    with d have "d = bytes" by simp
    with r less.prems c1 False show ?thesis
      by (cases "b < length d") (simp_all add: receive_data.simps [of recv "Some b" s])
  qed
qed

text \<open>A stream that ends too early.\<close>

lemma readChunkHeader_eof:
  assumes "live s" and "length (content s) < n"
  shows "\<exists>s'. readChunkHeader recv s buf n = Inr ([], s')"
  using assms
proof (induction n arbitrary: s buf rule: less_induct)
  case (less n)
  show ?case
  proof (cases "content s = []")
    case True
    with recv_eof [of s "int n"] less.prems show ?thesis
      by (auto simp: readChunkHeader.simps [of recv s])
  next
    case False
    then obtain bytes s1 where r: "recv s (int n) = Inr (bytes, s1)" "bytes \<noteq> []"
        "content s = bytes @ content s1" "live s1"
      using recv_bytes [of s "int n"] less.prems by fastforce
    with less.prems have "length bytes < n" by simp
    with r less.prems less.IH [of "n - length bytes" s1 "buf @ bytes"] show ?thesis
      by (simp add: readChunkHeader.simps [of recv s])
  qed
qed

lemma receive_data_eof:
  assumes "live s" and "int (length (content s)) < len" and "0 < b"
  shows "receive_data recv (Some b) s out len = Inl (BESInternalError ''Failed to read data from socket'')"
  using assms(1,2)
proof (induction "length (content s)" arbitrary: s out len rule: less_induct)
  case less
  let ?n = "if len > int b then int b else len"
  have n: "0 < ?n" using less.prems assms(3) by simp
  show ?case
  proof (cases "content s = []")
    case True
    with recv_eof [of s ?n] less.prems n obtain s1 where "recv s ?n = Inr ([], s1)" by blast
    then show ?thesis by (simp only: receive_data.simps [of recv "Some b" s]) simp
  next
    case False
    then obtain bytes s1 where r: "recv s ?n = Inr (bytes, s1)" "bytes \<noteq> []"
        "content s = bytes @ content s1" "live s1"
      using recv_bytes [of s ?n] less.prems n by fastforce
    with less.prems have "int (length bytes) < len" by simp
    with r less.prems less.hyps [of s1 "len - int (length bytes)" "out @ bytes"] show ?thesis
      by (simp only: receive_data.simps [of recv "Some b" s]) simp
  qed
qed

definition ready :: "'s ppt_connection \<Rightarrow> string \<Rightarrow> bool" where
  "ready c bytes \<longleftrightarrow> live (mySock c) \<and> content (mySock c) = bytes \<and> inBuff c \<noteq> Some 0"

lemma ready_alloc:
  assumes "ready c bytes"
  obtains b where "inBuff (if inBuff c = None then c\<lparr>inBuff := Some (recvBufferSize c + 1)\<rparr> else c) = Some b"
    and "0 < b" and "mySock (if inBuff c = None then c\<lparr>inBuff := Some (recvBufferSize c + 1)\<rparr> else c) = mySock c"
  using assms that by (cases "inBuff c") (auto simp: ready_def)

text \<open>A header with a data chunk, with an extension chunk, and the last chunk.\<close>

lemma receive_header:
  assumes "ready c (hex7 n @ k # rest)" and "n < 16 ^ 7"
  obtains s b c' where "readChunkHeader recv (mySock c) [] 8 = Inr (hex7 n @ [k], s)"
    and "content s = rest" and "live s" and "inBuff c' = Some b" and "0 < b"
    and "mySock c' = mySock c"
    and "c' = (if inBuff c = None then c\<lparr>inBuff := Some (recvBufferSize c + 1)\<rparr> else c)"
proof -
  from assms(1) obtain b where b: "inBuff (if inBuff c = None then c\<lparr>inBuff := Some (recvBufferSize c + 1)\<rparr> else c) = Some b"
    "0 < b" "mySock (if inBuff c = None then c\<lparr>inBuff := Some (recvBufferSize c + 1)\<rparr> else c) = mySock c"
    by (rule ready_alloc)
  have "\<exists>s. readChunkHeader recv (mySock c) [] 8 = Inr ([] @ (hex7 n @ [k]), s) \<and> content s = rest \<and> live s"
    using assms length_hex7 [OF assms(2)] by (intro readChunkHeader_content) (auto simp: ready_def)
  then show ?thesis using that b by auto
qed

lemma hex7_nth: "n < 16 ^ 7 \<Longrightarrow> (hex7 n @ k # t) ! 7 = k \<and> take 7 (hex7 n @ k # t) = hex7 n"
  using length_hex7 [of n] by (simp add: nth_append)

lemma receive_last:
  assumes "ready c (hex7 0 @ CHR ''d'' # rest)"
  shows "\<exists>c'. receive recv c exts = Inr (True, exts, [], c') \<and> ready c' rest"
proof -
  obtain s b c' where h: "readChunkHeader recv (mySock c) [] 8 = Inr (hex7 0 @ [CHR ''d''], s)"
    "content s = rest" "live s" "inBuff c' = Some b" "0 < b" "mySock c' = mySock c"
    "c' = (if inBuff c = None then c\<lparr>inBuff := Some (recvBufferSize c + 1)\<rparr> else c)"
    by (rule receive_header [OF assms]) auto
  have "receive recv c exts = Inr (True, exts, [], c'\<lparr>mySock := s\<rparr>)"
    using h hex7_nth [of 0 "CHR ''d''" "[]"] length_hex7 [of 0]
    by (simp add: receive_def Let_def read_hex7 hex7_no_nul)
  with h show ?thesis by (auto simp: ready_def)
qed

lemma receive_chunk:
  assumes "ready c (hex7 (length d) @ CHR ''d'' # d @ rest)" and "length d < 16 ^ 7" and "d \<noteq> []"
  shows "\<exists>c'. receive recv c exts = Inr (False, exts, d, c') \<and> ready c' rest"
proof -
  obtain s b c' where h: "readChunkHeader recv (mySock c) [] 8 = Inr (hex7 (length d) @ [CHR ''d''], s)"
    "content s = d @ rest" "live s" "inBuff c' = Some b" "0 < b" "mySock c' = mySock c"
    "c' = (if inBuff c = None then c\<lparr>inBuff := Some (recvBufferSize c + 1)\<rparr> else c)"
    by (rule receive_header [OF assms(1,2)])
  obtain s' where s': "receive_data recv (Some b) s [] (int (length d)) = Inr (d, s')"
    "content s' = rest" "live s'"
    using receive_data_content [OF h(3) h(2) refl assms(3) h(5), of "[]"] by auto
  have "receive recv c exts = Inr (False, exts, d, c'\<lparr>mySock := s'\<rparr>)"
    using h s' assms(2,3) hex7_nth [OF assms(2), of "CHR ''d''" "[]"] length_hex7 [OF assms(2)]
    by (simp add: receive_def Let_def read_hex7 hex7_no_nul to_int32_small)
  with h s' show ?thesis by (auto simp: ready_def)
qed

lemma receive_truncated:
  assumes "ready c bytes" and "strict_prefix bytes (hex7 (length d) @ k # d)"
    and "length d < 16 ^ 7" and "k = CHR ''d'' \<or> k = CHR ''x''"
  shows "\<exists>e. receive recv c exts = Inl e"
proof (cases "length bytes < 8")
  case True
  with assms(1) have "live (mySock c)" "length (content (mySock c)) < 8" by (auto simp: ready_def)
  from readChunkHeader_eof [OF this, of "[]"] show ?thesis
    by (auto simp: receive_def Let_def)
next
  case False
  obtain t where t: "hex7 (length d) @ k # d = bytes @ t" "t \<noteq> []"
    using assms(2) by (auto simp: strict_prefix_def prefix_def)
  let ?h = "hex7 (length d) @ [k]"
  have "?h @ d = bytes @ t" "length ?h \<le> length bytes" using t False length_hex7 [OF assms(3)] by auto
  then have b: "bytes = ?h @ drop 8 bytes" and d: "d = drop 8 bytes @ t"
    using append_prefix_split [of ?h d bytes t] length_hex7 [OF assms(3)] by auto
  with assms(1) have "ready c (hex7 (length d) @ k # drop 8 bytes)" by simp
  then obtain s b' c' where h: "readChunkHeader recv (mySock c) [] 8 = Inr (hex7 (length d) @ [k], s)"
    "content s = drop 8 bytes" "live s" "inBuff c' = Some b'" "0 < b'" "mySock c' = mySock c"
    "c' = (if inBuff c = None then c\<lparr>inBuff := Some (recvBufferSize c + 1)\<rparr> else c)"
    by (rule receive_header [OF _ assms(3)])
  have "length d = length (drop 8 bytes) + length t" by (subst d) simp
  then have "int (length (content s)) < int (length d)" using h(2) t(2) by simp
  from receive_data_eof [OF h(3) this h(5)]
  have "receive_data recv (inBuff c') s [] (int (length d)) =
      Inl (BESInternalError ''Failed to read data from socket'')" by (simp add: h(4))
  moreover have "d \<noteq> []" using d t(2) by auto
  ultimately show ?thesis
    using h assms(3,4) hex7_nth [OF assms(3), of k "[]"] length_hex7 [OF assms(3)]
    by (auto simp: receive_def Let_def read_hex7 hex7_no_nul to_int32_small)
qed

lemma receive_extensions:
  assumes "ready c (hex7 (length x) @ CHR ''x'' # x @ rest)" and "length x < 16 ^ 7" and "x \<noteq> []"
    and "read_extensions exts x = Inr exts'"
  shows "\<exists>c'. receive recv c exts = Inr (False, exts', [], c') \<and> ready c' rest"
proof -
  obtain s b c' where h: "readChunkHeader recv (mySock c) [] 8 = Inr (hex7 (length x) @ [CHR ''x''], s)"
    "content s = x @ rest" "live s" "inBuff c' = Some b" "0 < b" "mySock c' = mySock c"
    "c' = (if inBuff c = None then c\<lparr>inBuff := Some (recvBufferSize c + 1)\<rparr> else c)"
    by (rule receive_header [OF assms(1,2)])
  obtain s' where s': "receive_data recv (Some b) s [] (int (length x)) = Inr (x, s')"
    "content s' = rest" "live s'"
    using receive_data_content [OF h(3) h(2) refl assms(3) h(5), of "[]"] by auto
  have "receive recv c exts = Inr (False, exts', [], c'\<lparr>mySock := s'\<rparr>)"
    using h s' assms(2-4) hex7_nth [OF assms(2), of "CHR ''x''" "[]"] length_hex7 [OF assms(2)]
    by (simp add: receive_def Let_def read_hex7 hex7_no_nul to_int32_small)
  with h s' show ?thesis by (auto simp: ready_def)
qed

end

lemma str_find_char_beyond:
  assumes "c \<notin> set xs" and "str_find_char (pre @ xs @ ys) c (length pre) = Some e"
  shows "length pre + length xs \<le> e"
proof -
  from assms(1) have "\<forall>x \<in> set xs. \<not> x = c" by auto
  with assms(2) show ?thesis by (auto simp: str_find_char_def find_idx_append_absent)
qed

subsection \<open>Extensions that survive the wire\<close>

text \<open>Names without \<^verbatim>\<open>;\<close> and \<^verbatim>\<open>=\<close>, values without \<^verbatim>\<open>;\<close>.\<close>

definition extension_ok :: "string \<times> string \<Rightarrow> bool" where
  "extension_ok p \<longleftrightarrow>
     CHR '';'' \<notin> set (fst p) \<and> CHR ''='' \<notin> set (fst p) \<and> CHR '';'' \<notin> set (snd p)"

lemma extension_text_Cons:
  "extension_text ((n, v) # m) = n @ (if v \<noteq> [] then ''='' @ v else []) @ '';'' @ extension_text m"
  by (simp add: extension_text_def)

lemma extension_text_empty [simp]: "extension_text [] = []"
  by (simp add: extension_text_def)

lemma extension_text_Nil [simp]: "extension_text m = [] \<longleftrightarrow> m = []"
  by (cases m) (auto simp: extension_text_def)

lemma read_extensions_pair:
  assumes "extension_ok (n, v)"
  shows "read_extensions_loop exts (pre @ extension_text ((n, v) # m)) (length pre) =
    (if m = [] then Inr (map_put n v exts)
     else read_extensions_loop (map_put n v exts)
            ((pre @ extension_text [(n, v)]) @ extension_text m) (length (pre @ extension_text [(n, v)])))"
proof -
  have no: "CHR '';'' \<notin> set n" "CHR ''='' \<notin> set n" "CHR '';'' \<notin> set v"
    using assms by (auto simp: extension_ok_def)
  let ?t = "extension_text m"
  show ?thesis
  proof (cases "v = []")
    case True
    let ?s = "pre @ n @ CHR '';'' # ?t"
    have s: "pre @ extension_text ((n, v) # m) = ?s" using True by (simp add: extension_text_Cons)
    have semi: "str_find_char ?s (CHR '';'') (length pre) = Some (length pre + length n)"
      by (rule str_find_char_append [OF no(1)])
    have eq: "case str_find_char ?s (CHR ''='') (length pre) of None \<Rightarrow> True
        | Some e \<Rightarrow> length pre + length n < e"
      using str_find_char_beyond [of "CHR ''=''" "n @ '';''" pre ?t] no(2)
      by (cases "str_find_char ?s (CHR ''='') (length pre)") auto
    have sub: "substr ?s (length pre) (length n) = n" by (simp add: substr_def)
    have "read_extensions_loop exts ?s (length pre) =
        (if length pre + length n + 1 \<ge> length ?s then Inr (map_put n [] exts)
         else read_extensions_loop (map_put n [] exts) ?s (length pre + length n + 1))"
      using eq by (cases "str_find_char ?s (CHR ''='') (length pre)";
          subst read_extensions_loop.simps) (simp_all add: semi Let_def sub)
    then show ?thesis using True by (simp add: s extension_text_Cons)
  next
    case False
    let ?s = "pre @ n @ CHR ''='' # v @ CHR '';'' # ?t"
    have s: "pre @ extension_text ((n, v) # m) = ?s" using False by (simp add: extension_text_Cons)
    have semi: "str_find_char ?s (CHR '';'') (length pre) = Some (length pre + length n + 1 + length v)"
      using no str_find_char_append [of "CHR '';''" "n @ CHR ''='' # v" pre ?t] by simp
    have eq: "str_find_char ?s (CHR ''='') (length pre) = Some (length pre + length n)"
      by (rule str_find_char_append [OF no(2)])
    have sub: "substr ?s (length pre) (length n) = n"
      "substr ?s (length pre + length n + 1) (length v) = v" by (simp_all add: substr_def)
    have "read_extensions_loop exts ?s (length pre) =
        (if length pre + length n + 1 + length v + 1 \<ge> length ?s then Inr (map_put n v exts)
         else read_extensions_loop (map_put n v exts) ?s (length pre + length n + 1 + length v + 1))"
      using False sub by (subst read_extensions_loop.simps) (simp add: semi eq Let_def)
    then show ?thesis using False by (simp add: s extension_text_Cons add.assoc)
  qed
qed

lemma read_extensions_text:
  assumes "\<forall>p \<in> set m. extension_ok p" and "m \<noteq> []"
  shows "read_extensions_loop exts (pre @ extension_text m) (length pre) =
    Inr (fold (\<lambda>(k, v). map_put k v) m exts)"
  using assms
proof (induction m arbitrary: exts pre)
  case Nil
  then show ?case by simp
next
  case (Cons p m)
  obtain n v where p: "p = (n, v)" by (cases p)
  show ?case
  proof (cases "m = []")
    case True
    with Cons.prems show ?thesis by (simp add: p read_extensions_pair)
  next
    case False
    with Cons.prems Cons.IH [of "map_put n v exts" "pre @ extension_text [(n, v)]"]
    show ?thesis by (simp add: p read_extensions_pair)
  qed
qed

lemma read_extensions_fold:
  "\<forall>p \<in> set m. extension_ok p \<Longrightarrow> m \<noteq> [] \<Longrightarrow>
    read_extensions exts (extension_text m) = Inr (fold (\<lambda>(k, v). map_put k v) m exts)"
  using read_extensions_text [of m exts "[]"] by (simp add: read_extensions_def)

subsection \<open>Messages\<close>

context socket_source
begin

lemma receive_message_extensions:
  assumes "ready c (sendExtensions m @ rest)" and "m \<noteq> []" and "\<forall>p \<in> set m. extension_ok p"
    and "length (extension_text m) < 16 ^ 7"
  shows "\<exists>c'. ready c' rest \<and>
    receive_message (Suc fuel) recv c exts ss =
      receive_message fuel recv c' (fold (\<lambda>(k, v). map_put k v) m exts) ss"
proof -
  have r: "ready c (hex7 (length (extension_text m)) @ CHR ''x'' # extension_text m @ rest)"
    using assms(1,2) by (simp add: sendExtensions_def Let_def)
  from receive_extensions [OF r assms(4) _ read_extensions_fold [OF assms(3,2)], of exts] assms(2)
  show ?thesis by fastforce
qed

lemma receive_message_chunk:
  assumes "ready c (hex7 (length d) @ CHR ''d'' # d @ rest)" and "length d < 16 ^ 7" and "d \<noteq> []"
  shows "\<exists>c'. ready c' rest \<and>
    receive_message (Suc fuel) recv c exts ss = receive_message fuel recv c' exts (ss @ d)"
  using receive_chunk [OF assms, of exts] by fastforce

lemma receive_message_last:
  assumes "ready c (hex7 0 @ CHR ''d'' # rest)"
  shows "\<exists>c'. ready c' rest \<and> receive_message (Suc fuel) recv c exts ss = Some (Inr (exts, ss, c'))"
  using receive_last [OF assms, of exts] by fastforce

lemma receive_message_send:
  assumes "ready c (send d m @ rest)" and "\<forall>p \<in> set m. extension_ok p"
    and "length (extension_text m) < 16 ^ 7" and "length d < 16 ^ 7" and "3 \<le> fuel"
  shows "\<exists>c'. ready c' rest \<and>
    receive_message fuel recv c exts [] = Some (Inr (fold (\<lambda>(k, v). map_put k v) m exts, d, c'))"
proof -
  let ?exts = "fold (\<lambda>(k, v). map_put k v) m exts"
  let ?body = "(if d = [] then [] else hex7 (length d) @ CHR ''d'' # d) @ hex7 0 @ CHR ''d'' # rest"
  have split: "send d m @ rest = sendExtensions m @ ?body"
    by (simp add: send_def sendChunk_def sendExtensions_def)
  obtain f where f: "fuel = Suc (Suc (Suc f))"
    using assms(5) by (metis Suc_le_D Suc_le_mono numeral_3_eq_3)
  have body: "\<exists>c'. ready c' rest \<and> receive_message (Suc (Suc g)) recv c e [] = Some (Inr (e, d, c'))"
    if c: "ready c ?body" for c e g
  proof (cases "d = []")
    case True
    with c receive_message_last [of c rest "Suc g" e "[]"] show ?thesis by simp
  next
    case False
    with c have "ready c (hex7 (length d) @ CHR ''d'' # d @ (hex7 0 @ CHR ''d'' # rest))" by simp
    from receive_message_chunk [OF this assms(4) False, of "Suc g" e "[]"]
    obtain c1 where c1: "ready c1 (hex7 0 @ CHR ''d'' # rest)"
      "receive_message (Suc (Suc g)) recv c e [] = receive_message (Suc g) recv c1 e d" by auto
    with receive_message_last [OF c1(1), of g e d] show ?thesis by simp
  qed
  show ?thesis
  proof (cases "m = []")
    case True
    with assms(1) split have "ready c ?body" by (simp add: sendExtensions_def)
    from body [OF this] f True show ?thesis by simp
  next
    case False
    with receive_message_extensions [of c m ?body "Suc (Suc f)" exts "[]"] assms(1-3) split
    obtain c1 where "ready c1 ?body" "receive_message fuel recv c exts [] =
        receive_message (Suc (Suc f)) recv c1 ?exts []" by (auto simp: f)
    with body [of c1 f ?exts] show ?thesis by simp
  qed
qed

text \<open>A response that \<^verbatim>\<open>PPTStreamBuf\<close> cut into chunks.\<close>

lemma receive_message_chunks:
  assumes "ready c (concat (map (\<lambda>d. hex7 (length d) @ CHR ''d'' # d) ds) @ hex7 0 @ CHR ''d'' # rest)"
    and "\<forall>d \<in> set ds. d \<noteq> [] \<and> length d < 16 ^ 7" and "length ds < fuel"
  shows "\<exists>c'. ready c' rest \<and>
    receive_message fuel recv c exts ss = Some (Inr (exts, ss @ concat ds, c'))"
  using assms
proof (induction ds arbitrary: c ss fuel)
  case Nil
  then show ?case using receive_message_last [of c rest "fuel - 1" exts ss] by (cases fuel) auto
next
  case (Cons d ds)
  then obtain f where f: "fuel = Suc f" by (cases fuel) auto
  let ?r = "concat (map (\<lambda>d. hex7 (length d) @ CHR ''d'' # d) ds) @ hex7 0 @ CHR ''d'' # rest"
  obtain c1 where c1: "ready c1 ?r"
    "receive_message (Suc f) recv c exts ss = receive_message f recv c1 exts (ss @ d)"
    using receive_message_chunk [of c d ?r f exts ss] Cons.prems by auto
  from Cons.IH [OF c1(1), of f "ss @ d"] Cons.prems show ?case
    by (simp add: f c1(2) del: receive_message.simps)
qed

end

subsection \<open>The socket delivers its bytes\<close>

lemma sock_live_Cons: "sock_live (e # evs) \<longleftrightarrow> (case e of Failure _ \<Rightarrow> False | _ \<Rightarrow> True) \<and> sock_live evs"
  by (simp add: sock_live_def)

lemma sock_receive_bytes:
  assumes "sock_live evs" and "sock_bytes evs \<noteq> []" and "0 < n"
  shows "\<exists>bytes evs'. sock_receive evs n = Inr (bytes, evs') \<and> bytes \<noteq> [] \<and> int (length bytes) \<le> n
    \<and> sock_bytes evs = bytes @ sock_bytes evs' \<and> sock_live evs'"
  using assms by (induction evs n rule: sock_receive.induct) (auto simp: sock_live_Cons)

lemma sock_receive_eof:
  "sock_live evs \<Longrightarrow> sock_bytes evs = [] \<Longrightarrow> 0 < n \<Longrightarrow> \<exists>evs'. sock_receive evs n = Inr ([], evs')"
  by (induction evs n rule: sock_receive.induct) (auto simp: sock_live_Cons)

interpretation seg: socket_source sock_receive sock_bytes sock_live
  by unfold_locales (fact sock_receive_bytes sock_receive_eof)+

subsection \<open>The stream buffer\<close>

definition chunk_text :: "string \<Rightarrow> string" where
  "chunk_text d = hex7 (length d) @ CHR ''d'' # d"

text \<open>What has been put into the buffer is what was written after \<open>p\<close>, in chunks of at most the
  buffer size, followed by what is pending.\<close>

definition sb_inv :: "string \<Rightarrow> string \<Rightarrow> string list \<Rightarrow> ppt_streambuf \<Rightarrow> bool" where
  "sb_inv p bytes ds b \<longleftrightarrow>
     written b = p @ concat (map chunk_text ds) \<and> bytes = concat ds @ d_buffer b \<and>
     length (d_buffer b) \<le> d_bufsize b \<and> 0 < d_bufsize b \<and>
     (\<forall>d \<in> set ds. d \<noteq> [] \<and> length d \<le> d_bufsize b)"

lemma sb_inv_open: "sb_inv [] [] [] (sb_open n)"
  by (simp add: sb_inv_def sb_open_def)

lemma sb_inv_sync:
  "sb_inv p bytes ds b \<Longrightarrow> \<exists>ds'. sb_inv p bytes ds' (sb_sync b) \<and> d_buffer (sb_sync b) = []"
proof (cases "d_buffer b = []")
  case False
  assume "sb_inv p bytes ds b"
  with False have "sb_inv p bytes (ds @ [d_buffer b]) (sb_sync b) \<and> d_buffer (sb_sync b) = []"
    by (auto simp: sb_inv_def sb_sync_def chunk_text_def)
  then show ?thesis by blast
qed (auto simp: sb_sync_def)

lemma sb_bufsize [simp]:
  "d_bufsize (sb_sync b) = d_bufsize b" "d_bufsize (sb_put c b) = d_bufsize b"
  by (simp_all add: sb_sync_def sb_put_def sb_overflow_def Let_def)

lemma sb_inv_put:
  assumes "sb_inv p bytes ds b"
  shows "\<exists>ds'. sb_inv p (bytes @ [c]) ds' (sb_put c b)"
proof (cases "length (d_buffer b) < d_bufsize b")
  case True
  with assms have "sb_inv p (bytes @ [c]) ds (sb_put c b)" by (simp add: sb_inv_def sb_put_def)
  then show ?thesis ..
next
  case False
  obtain ds' where "sb_inv p bytes ds' (sb_sync b)" "d_buffer (sb_sync b) = []"
    using sb_inv_sync [OF assms] by blast
  with False have "sb_inv p (bytes @ [c]) ds' (sb_put c b)"
    by (auto simp: sb_inv_def sb_put_def sb_overflow_def Let_def)
  then show ?thesis ..
qed

lemma sb_inv_fold: "sb_inv p pre ds b \<Longrightarrow> \<exists>ds'. sb_inv p (pre @ bytes) ds' (fold sb_put bytes b)"
proof (induction bytes arbitrary: pre ds b)
  case (Cons c bytes)
  then obtain ds' where "sb_inv p (pre @ [c]) ds' (sb_put c b)" using sb_inv_put by blast
  from Cons.IH [OF this] show ?case by simp
qed auto

lemma sb_bufsize_fold [simp]: "d_bufsize (fold sb_put bytes b) = d_bufsize b"
  by (induction bytes arbitrary: b) auto

lemma length_concat_nonempty: "\<forall>d \<in> set ds. d \<noteq> [] \<Longrightarrow> length ds \<le> length (concat ds)"
proof (induction ds)
  case (Cons d ds)
  then show ?case by (cases d) auto
qed simp

lemma sb_response:
  obtains ds where "written (sb_finish (fold sb_put data (sb_open n))) =
      concat (map chunk_text ds) @ hex7 0 @ CHR ''d'' # []"
    and "concat ds = data" and "\<forall>d \<in> set ds. d \<noteq> [] \<and> length d \<le> max 1 n"
    and "length ds \<le> length data"
proof -
  obtain ds where "sb_inv [] data ds (fold sb_put data (sb_open n))"
    using sb_inv_fold [OF sb_inv_open, of data] by auto
  then obtain ds where ds: "sb_inv [] data ds (sb_sync (fold sb_put data (sb_open n)))"
    "d_buffer (sb_sync (fold sb_put data (sb_open n))) = []" using sb_inv_sync by blast
  have eod: "eod_marker = hex7 0 @ ''d''" by code_simp
  have "d_bufsize (sb_open n) = max 1 n" by (simp add: sb_open_def)
  with ds length_concat_nonempty [of ds] show thesis
    by (intro that [of ds]) (auto simp: sb_inv_def sb_finish_def Let_def eod)
qed

subsection \<open>Properties of the transport\<close>

text \<open>
  C6: Whatever \<^verbatim>\<open>PPTConnection::send\<close> writes, the receive loop of the peer returns: the same
  data, and the same extensions when it starts with none.  This holds however the network
  cuts the bytes into segments and wherever reads are interrupted; the loop ends after at
  most three chunks, and the bytes that follow the message are left unread.  The data and
  the text of the extensions must fit the seven hexadecimal digits of a chunk header,
  extension names must not contain a semicolon or an equals sign and values no semicolon.  The
  receive buffer size is any that the code can read a header with (7 at least).
\<close>

theorem receive_send:
  assumes "sock_live evs" and "sock_bytes evs = send data m @ rest"
    and "map_ok m" and "\<forall>p \<in> set m. extension_ok p"
    and "length data < 16 ^ 7" and "length (extension_text m) < 16 ^ 7"
    and "3 \<le> fuel"
  shows "\<exists>c. receive_message fuel sock_receive \<lparr>mySock = evs, recvBufferSize = n, inBuff = None\<rparr> [] []
        = Some (Inr (m, data, c)) \<and> sock_bytes (mySock c) = rest"
proof -
  have "seg.ready \<lparr>mySock = evs, recvBufferSize = n, inBuff = None\<rparr> (send data m @ rest)"
    using assms(1,2) by (simp add: seg.ready_def)
  from seg.receive_message_send [OF this assms(4,6,5,7), of "[]"] fold_map_put_sorted [of "[]" m] assms(3)
  show ?thesis by (auto simp: seg.ready_def)
qed

theorem receive_send_witness:
  "\<exists>c. receive_message 3 sock_receive
     \<lparr>mySock = [Segment ''000000cxa;'', Interrupted, Segment ''status=ok;0000002dhi0'', Segment ''000000dnext''],
      recvBufferSize = 7, inBuff = None\<rparr> [] []
   = Some (Inr ([(''a'', []), (''status'', ''ok'')], ''hi'', c)) \<and> sock_bytes (mySock c) = ''next''"
proof (rule receive_send)
  show "sock_live [Segment ''000000cxa;'', Interrupted, Segment ''status=ok;0000002dhi0'', Segment ''000000dnext'']"
    by code_simp
  show "sock_bytes [Segment ''000000cxa;'', Interrupted, Segment ''status=ok;0000002dhi0'', Segment ''000000dnext'']
      = send ''hi'' [(''a'', []), (''status'', ''ok'')] @ ''next''" by code_simp
  show "map_ok [(''a'', []), (''status'', ''ok'')]" by code_simp
  show "\<forall>p \<in> set [(''a'', []), (''status'', ''ok'')]. extension_ok p" by code_simp
qed (simp_all add: extension_text_def)

text \<open>
  C7: A response written through \<^verbatim>\<open>PPTStreamBuf\<close>, whatever the buffer size, and closed with
  \<^verbatim>\<open>finish\<close> is received as the same bytes, with the extensions unchanged; the receive loop
  ends after at most one chunk per byte and the final one.  The buffer size must fit a
  chunk header.
\<close>

theorem receive_response:
  assumes "sock_live evs" and "sock_bytes evs = written (sb_finish (fold sb_put data (sb_open n))) @ rest"
    and "n < 16 ^ 7" and "length data < fuel" and "inBuff c \<noteq> Some 0" and "mySock c = evs"
  shows "\<exists>c'. receive_message fuel sock_receive c exts [] = Some (Inr (exts, data, c'))
    \<and> sock_bytes (mySock c') = rest"
proof -
  obtain ds where ds: "written (sb_finish (fold sb_put data (sb_open n))) =
      concat (map chunk_text ds) @ hex7 0 @ CHR ''d'' # []" "concat ds = data"
    "\<forall>d \<in> set ds. d \<noteq> [] \<and> length d \<le> max 1 n" "length ds \<le> length data" by (rule sb_response)
  have "seg.ready c (concat (map chunk_text ds) @ hex7 0 @ CHR ''d'' # rest)"
    using assms(1,2,5,6) ds(1) by (simp add: seg.ready_def)
  moreover have "\<forall>d \<in> set ds. d \<noteq> [] \<and> length d < 16 ^ 7" using ds(3) assms(3) by fastforce
  ultimately obtain c' where "seg.ready c' rest"
      "receive_message fuel sock_receive c exts [] = Some (Inr (exts, [] @ concat ds, c'))"
    using seg.receive_message_chunks [of c ds rest fuel exts "[]"] ds(4) assms(4)
    unfolding chunk_text_def by fastforce
  with ds(2) show ?thesis by (auto simp: seg.ready_def)
qed

theorem receive_response_witness:
  "\<exists>c'. receive_message 4 sock_receive
      \<lparr>mySock = [Segment ''0000002dab00'', Segment ''00001dc0000000d''], recvBufferSize = 7, inBuff = None\<rparr>
      [] [] = Some (Inr ([], ''abc'', c')) \<and> sock_bytes (mySock c') = []"
proof (rule receive_response)
  show "sock_live [Segment ''0000002dab00'', Segment ''00001dc0000000d'']" by code_simp
  show "sock_bytes [Segment ''0000002dab00'', Segment ''00001dc0000000d''] =
      written (sb_finish (fold sb_put ''abc'' (sb_open 2))) @ []" by code_simp
qed simp_all

text \<open>
  C8: When the peer closes the connection inside a chunk, data or extensions,
  \<^verbatim>\<open>PPTConnection::receive\<close> throws; a truncated chunk is never taken for a complete one.
\<close>

theorem receive_truncated_fails:
  assumes "sock_live (mySock c)" and "inBuff c \<noteq> Some 0" and "length data < 16 ^ 7"
    and "k = CHR ''d'' \<or> k = CHR ''x''"
    and "strict_prefix (sock_bytes (mySock c)) (hex7 (length data) @ k # data)"
  shows "\<exists>e. receive sock_receive c exts = Inl e"
  using assms by (intro seg.receive_truncated) (auto simp: seg.ready_def)

theorem receive_truncated_fails_witness:
  "\<exists>e. receive sock_receive \<lparr>mySock = [Segment ''0000003dab''], recvBufferSize = 9, inBuff = None\<rparr> []
    = Inl e"
  using receive_truncated_fails [of "\<lparr>mySock = [Segment ''0000003dab''], recvBufferSize = 9, inBuff = None\<rparr>"
      "''abc''" "CHR ''d''" "[]"]
  by (simp add: sock_live_def hex7_def to_hex.simps hex_digit_def strict_prefix_def)
    (simp add: eval_nat_numeral)

text \<open>
  The chunk header has room for seven hexadecimal digits, so a chunk length is written
  with exactly seven of them if and only if it is below \<open>16 ^ 7\<close>: a longer buffer passed to
  \<^verbatim>\<open>sendChunk\<close> makes the header too long and the peer misreads the chunk type.
\<close>

theorem sendChunk_header_length:
  "length (sendChunk data []) = 8 + length data \<longleftrightarrow> length data < 16 ^ 7"
  using length_to_hex [of 7 "length data"] by (auto simp: sendChunk_def hex7_def)

end
