(* ===== verification/Std_Numbers.thy ===== *)
theory Std_Numbers
  imports Bes_Prelude
begin

text \<open>
  Decimal numbers as the C and C++ libraries print and read them: \<^verbatim>\<open>ostream << n\<close>,
  \<^verbatim>\<open>strtol\<close>, and the conversion of a \<^verbatim>\<open>long\<close> to an \<^verbatim>\<open>int\<close>.
\<close>

definition digit_char :: "nat \<Rightarrow> char" where
  "digit_char n = ''0123456789'' ! n"

fun nat_text :: "nat \<Rightarrow> string" where
  "nat_text n = (if n < 10 then [digit_char n] else nat_text (n div 10) @ [digit_char (n mod 10)])"

declare nat_text.simps [simp del]

definition int_text :: "int \<Rightarrow> string" where
  "int_text i = (if i < 0 then CHR ''-'' # nat_text (nat (- i)) else nat_text (nat i))"

definition digit_value :: "char \<Rightarrow> nat option" where
  "digit_value c = find_idx (\<lambda>x. x = c) ''0123456789''"

definition is_digit :: "char \<Rightarrow> bool" where
  "is_digit c \<longleftrightarrow> digit_value c \<noteq> None"

definition is_space :: "char \<Rightarrow> bool" where
  "is_space c \<longleftrightarrow> c \<in> set [CHR '' '', CHR 0x09, CHR 0x0A, CHR 0x0B, CHR 0x0C, CHR 0x0D]"

definition digits_value :: "string \<Rightarrow> nat" where
  "digits_value s = foldl (\<lambda>acc c. case digit_value c of None \<Rightarrow> acc | Some d \<Rightarrow> acc * 10 + d) 0 s"

text \<open>White space, an optional sign and the longest run of digits; the value of the number
  there, 0 when there is no digit, and the text after it.\<close>

definition scan_int :: "string \<Rightarrow> int \<times> string" where
  "scan_int s =
     (let t = dropWhile is_space s;
          u = (case t of c # cs \<Rightarrow> if c = CHR ''-'' \<or> c = CHR ''+'' then cs else t | [] \<Rightarrow> []);
          neg = (case t of c # cs \<Rightarrow> c = CHR ''-'' | [] \<Rightarrow> False);
          v = int (digits_value (takeWhile is_digit u))
      in (if neg then - v else v,
          if takeWhile is_digit u = [] then s else dropWhile is_digit u))"

text \<open>\<^verbatim>\<open>strtol(s, &end, 10)\<close> with 64 bit \<^verbatim>\<open>long\<close>: the value and whether \<^verbatim>\<open>errno\<close> is set
  to \<^verbatim>\<open>ERANGE\<close>.\<close>

definition LONG_MAX :: int where "LONG_MAX = 2 ^ 63 - 1"

definition LONG_MIN :: int where "LONG_MIN = - (2 ^ 63)"

definition strtol :: "string \<Rightarrow> int \<times> bool" where
  "strtol s =
     (let v = fst (scan_int s)
      in if v > LONG_MAX then (LONG_MAX, True)
         else if v < LONG_MIN then (LONG_MIN, True)
         else (v, False))"

definition int_of_long :: "int \<Rightarrow> int" where
  "int_of_long n = (n + 2 ^ 31) mod 2 ^ 32 - 2 ^ 31"

lemma int_of_long_id: "- (2 ^ 31) \<le> n \<Longrightarrow> n < 2 ^ 31 \<Longrightarrow> int_of_long n = n"
  by (simp add: int_of_long_def)

lemma int_of_long_bounds: "- (2 ^ 31) \<le> int_of_long n" "int_of_long n < 2 ^ 31"
  by (simp_all add: int_of_long_def)

subsection \<open>Reading back what was printed\<close>

lemma digit_char_facts:
  assumes "d < 10"
  shows "digit_value (digit_char d) = Some d" and "\<not> is_space (digit_char d)"
    and "digit_char d \<noteq> CHR ''-''" and "digit_char d \<noteq> CHR ''+''"
proof -
  have all: "\<forall>d \<in> set [0..<10]. digit_value (digit_char d) = Some d \<and> \<not> is_space (digit_char d) \<and>
      digit_char d \<notin> {CHR ''-'', CHR ''+''}" by code_simp
  have "d \<in> set [0..<10]" using assms by simp
  from bspec [OF all this] show "digit_value (digit_char d) = Some d" and "\<not> is_space (digit_char d)"
    and "digit_char d \<noteq> CHR ''-''" and "digit_char d \<noteq> CHR ''+''" by simp_all
qed

lemma nat_text_digits:
  "nat_text n \<noteq> [] \<and> (\<forall>c \<in> set (nat_text n). \<exists>d < 10. c = digit_char d) \<and> digits_value (nat_text n) = n"
proof (induction n rule: nat_text.induct)
  case (1 n)
  show ?case
  proof (cases "n < 10")
    case True
    then have "nat_text n = [digit_char n]" by (simp add: nat_text.simps)
    with True show ?thesis using digit_char_facts(1) [OF True] by (auto simp: digits_value_def)
  next
    case False
    note ih = 1 [OF False]
    have t: "nat_text n = nat_text (n div 10) @ [digit_char (n mod 10)]"
      using False by (simp add: nat_text.simps [of n])
    have m: "n mod 10 < 10" by simp
    have "\<forall>c \<in> set (nat_text n). \<exists>d < 10. c = digit_char d"
    proof
      fix c assume "c \<in> set (nat_text n)"
      then show "\<exists>d < 10. c = digit_char d" using ih m by (fastforce simp: t)
    qed
    moreover have "digits_value (nat_text n) = n"
      using ih digit_char_facts(1) [OF m] by (simp add: digits_value_def t)
    ultimately show ?thesis by (simp add: t)
  qed
qed

lemma nat_text_is_digit: "c \<in> set (nat_text n) \<Longrightarrow> is_digit c"
  using nat_text_digits [of n] digit_char_facts(1) by (fastforce simp: is_digit_def)

lemma nat_text_hd:
  obtains c cs where "nat_text n = c # cs" and "\<not> is_space c" and "c \<noteq> CHR ''-''" and "c \<noteq> CHR ''+''"
proof -
  obtain c cs where c: "nat_text n = c # cs" using nat_text_digits [of n] by (cases "nat_text n") auto
  then obtain d where "d < 10" "c = digit_char d" using nat_text_digits [of n] by auto
  with c digit_char_facts [of d] that show thesis by auto
qed

lemma scan_int_text [simp]:
  assumes "rest = [] \<or> \<not> is_digit (hd rest)"
  shows "scan_int (int_text i @ rest) = (i, rest)"
proof -
  have digits: "takeWhile is_digit (nat_text n @ rest) = nat_text n"
    "dropWhile is_digit (nat_text n @ rest) = rest" for n
    using assms nat_text_is_digit
    by (simp_all add: takeWhile_append dropWhile_append, cases rest; auto)+
  have ne: "nat_text n \<noteq> []" for n using nat_text_digits by blast
  show ?thesis
  proof (cases "i < 0")
    case True
    have "\<not> is_space (CHR ''-'')" by (simp add: is_space_def)
    with True digits [of "nat (- i)"] ne show ?thesis
      by (simp add: scan_int_def int_text_def nat_text_digits)
  next
    case False
    obtain c cs where c: "nat_text (nat i) = c # cs" "\<not> is_space c" "c \<noteq> CHR ''-''" "c \<noteq> CHR ''+''"
      by (rule nat_text_hd)
    with False digits [of "nat i"] ne nat_text_digits [of "nat i"] show ?thesis
      by (simp add: scan_int_def int_text_def)
  qed
qed

lemma strtol_int_text:
  "LONG_MIN \<le> i \<Longrightarrow> i \<le> LONG_MAX \<Longrightarrow> strtol (int_text i) = (i, False)"
  using scan_int_text [of "[]" i] by (simp add: strtol_def)

end
