(* ===== verification/Bes_Info.thy ===== *)
theory Bes_Info
  imports Std_Map Std_Numbers
begin

text \<open>
  Informational responses: \<^verbatim>\<open>dispatch/BESInfo\<close> and its implementations
  \<^verbatim>\<open>BESTextInfo\<close>, \<^verbatim>\<open>BESHTMLInfo\<close> and \<^verbatim>\<open>BESXMLInfo\<close>.

  The virtual methods that build a response are the constructors of \<open>info_call\<close>; a class
  is a function that executes one call on its object.  The code that fills a response
  (\<^verbatim>\<open>add_exception\<close> here, the registries in the other theories) is the sequence of calls it makes.
  \<open>info_sink\<close> is the contract between the two, the stack of open tags; its
  interpretations are the three classes.

  \<^verbatim>\<open>libxml2\<close>'s text writer is a parameter: \<open>rc\<close> gives the return code of the last of the
  calls made so far.  The MIME header that unbuffered responses start with holds the
  current time and is a parameter too.
\<close>

type_synonym attrs = "(string, string) stdmap"

datatype info_call =
    Begin_tag string "attrs option"
  | End_tag string
  | Add_tag string string "attrs option"
  | Add_data string
  | Add_space nat
  | Add_break nat

subsection \<open>The base class\<close>

record info =
  strm :: string
  buffered :: bool
  response_started :: bool
  response_name :: string
  tags :: "string list"

definition info_begin_response :: "string \<Rightarrow> 'a info_scheme \<Rightarrow> 'a info_scheme" where
  "info_begin_response nm i = i\<lparr>response_started := True, response_name := nm\<rparr>"

definition info_end_response :: "'a info_scheme \<Rightarrow> 'a info_scheme result" where
  "info_end_response i =
     (let i = i\<lparr>response_started := False\<rparr>
      in if tags i \<noteq> [] then Inl (BESInternalError ''Not all tags were ended in info response'')
         else Inr i)"

definition info_begin_tag :: "string \<Rightarrow> 'a info_scheme \<Rightarrow> 'a info_scheme" where
  "info_begin_tag tag_name i = i\<lparr>tags := tag_name # tags i\<rparr>"

definition info_end_tag :: "string \<Rightarrow> 'a info_scheme \<Rightarrow> 'a info_scheme result" where
  "info_end_tag tag_name i =
     (if tags i = [] \<or> hd (tags i) \<noteq> tag_name then
        Inl (BESInternalError (''tag '' @ tag_name @ '' already ended or not started''))
      else Inr (i\<lparr>tags := tl (tags i)\<rparr>))"

definition info_add_data :: "string \<Rightarrow> 'a info_scheme \<Rightarrow> 'a info_scheme" where
  "info_add_data s i = i\<lparr>strm := strm i @ s\<rparr>"

definition info_print :: "'a info_scheme \<Rightarrow> string" where
  "info_print i = (if buffered i then strm i else [])"

text \<open>The calls that \<^verbatim>\<open>BESInfo::add_exception\<close> makes.\<close>

definition add_exception :: "nat \<Rightarrow> string \<Rightarrow> string \<Rightarrow> nat \<Rightarrow> string \<Rightarrow> info_call list" where
  "add_exception error_type message file line admin =
     [Begin_tag ''BESError'' None,
      Add_tag ''Type'' (nat_text error_type) None,
      Add_tag ''Message'' message None,
      Add_tag ''Administrator'' admin None,
      Begin_tag ''Location'' None,
      Add_tag ''File'' file None,
      Add_tag ''Line'' (nat_text line) None,
      End_tag ''Location'',
      End_tag ''BESError'']"

subsection \<open>Data from a file\<close>

text \<open>
  \<^verbatim>\<open>ifs.getline(line, n)\<close> on a stream in a good state: the line, what is left of the stream,
  and the state, which is \<open>EofBit\<close> when the end was reached before a newline and \<open>FailBit\<close>
  when \<open>n - 1\<close> characters were stored without reaching the newline.
\<close>

datatype stream_state = Good | EofBit | FailBit

fun getline_n :: "nat \<Rightarrow> string \<Rightarrow> string \<times> string \<times> stream_state" where
  "getline_n n [] = ([], [], EofBit)"
| "getline_n n (c # cs) =
     (if c = CHR 0x0A then ([], cs, Good)
      else if n \<le> 1 then ([], c # cs, FailBit)
      else (let (l, r, st) = getline_n (n - 1) cs in (c # l, r, st)))"

text \<open>
  The loop of \<^verbatim>\<open>BESInfo::add_data_from_file\<close>, \<^verbatim>\<open>while (!ifs.eof())\<close>, given what one
  \<^verbatim>\<open>add_data\<close> does.  A stream in a failed state stays there, and each further \<^verbatim>\<open>getline\<close>
  yields the empty line.  \<open>fuel\<close> bounds the iterations and \<^const>\<open>None\<close> is running out of it.
\<close>

definition BES_INFO_FILE_BUFFER_SIZE :: nat where
  "BES_INFO_FILE_BUFFER_SIZE = 4096"

fun add_lines ::
  "(string \<Rightarrow> 'i \<Rightarrow> 'i result) \<Rightarrow> nat \<Rightarrow> string \<times> stream_state \<Rightarrow> 'i \<Rightarrow> 'i result option" where
  "add_lines add_data 0 ifs i = None"
| "add_lines add_data (Suc fuel) (s, st) i =
     (if st = EofBit then Some (Inr i)
      else
        (let (l, r, st') = (if st = Good then getline_n BES_INFO_FILE_BUFFER_SIZE s else ([], s, FailBit))
         in if st' = EofBit then Some (Inr i)
            else
              (case res_bind (add_data l i) (add_data [CHR 0x0A]) of
                 Inl e \<Rightarrow> Some (Inl e)
               | Inr i' \<Rightarrow> add_lines add_data fuel (r, st') i')))"

text \<open>
  \<^verbatim>\<open>BESInfo::add_data_from_file\<close>: \<open>lookup\<close> is \<^verbatim>\<open>TheBESKeys::get_value\<close>, which reports an
  error as not found, and \<open>open_file\<close> yields the contents of a file or the error text.
\<close>

definition info_add_data_from_file ::
  "(string \<Rightarrow> 'i \<Rightarrow> 'i result) \<Rightarrow> (string \<Rightarrow> string option) \<Rightarrow> (string \<Rightarrow> string + string)
    \<Rightarrow> nat \<Rightarrow> string \<Rightarrow> string \<Rightarrow> 'i \<Rightarrow> 'i result option" where
  "info_add_data_from_file add_data lookup open_file fuel key nm i =
     (case lookup key of
        None \<Rightarrow> Some (add_data (nm @ '' file key '' @ key @ '' not found, information not available'' @ [CHR 0x0A]) i)
      | Some file \<Rightarrow>
          (case open_file file of
             Inl err \<Rightarrow>
               Some (add_data (nm @ '' file '' @ file @ '' not found, information not available: '' @ err
                        @ [CHR 0x0A]) i)
           | Inr s \<Rightarrow> add_lines add_data fuel (s, Good) i))"

subsection \<open>Text\<close>

definition unindent :: "string \<Rightarrow> string" where
  "unindent s = (if length s \<ge> 4 then take (length s - 4) s else s)"

record text_info = info +
  indent :: string
  ishttp :: bool
  header :: bool

definition text_new :: "bool \<Rightarrow> text_info" where
  "text_new http = \<lparr>strm = [], buffered = True, response_started = False, response_name = [], tags = [],
     indent = [], ishttp = http, header = False\<rparr>"

definition text_add_data :: "string \<Rightarrow> string \<Rightarrow> text_info \<Rightarrow> text_info" where
  "text_add_data mime s i =
     info_add_data s
       (if ishttp i \<and> \<not> header i \<and> \<not> buffered i then i\<lparr>strm := strm i @ mime, header := True\<rparr> else i)"

definition text_add_attrs :: "string \<Rightarrow> string \<Rightarrow> attrs option \<Rightarrow> text_info \<Rightarrow> text_info" where
  "text_add_attrs mime ind attrs i =
     (case attrs of
        None \<Rightarrow> i
      | Some m \<Rightarrow> fold (\<lambda>(nm, val). text_add_data mime (ind @ nm @ '': '' @ val @ [CHR 0x0A])) m i)"

fun text_call :: "string \<Rightarrow> info_call \<Rightarrow> text_info \<Rightarrow> text_info result" where
  "text_call mime (Add_tag tag_name tag_data attrs) i =
     Inr (text_add_attrs mime (indent i @ ''    '') attrs
            (text_add_data mime (indent i @ tag_name @ '': '' @ tag_data @ [CHR 0x0A]) i))"
| "text_call mime (Begin_tag tag_name attrs) i =
     (let i = info_begin_tag tag_name i;
          i = text_add_data mime (indent i @ tag_name @ [CHR 0x0A]) i;
          i = i\<lparr>indent := indent i @ ''    ''\<rparr>
      in Inr (text_add_attrs mime (indent i) attrs i))"
| "text_call mime (End_tag tag_name) i =
     res_bind (info_end_tag tag_name i) (\<lambda>i. Inr (i\<lparr>indent := unindent (indent i)\<rparr>))"
| "text_call mime (Add_data s) i = Inr (text_add_data mime s i)"
| "text_call mime (Add_space n) i = Inr (text_add_data mime (replicate n (CHR '' '')) i)"
| "text_call mime (Add_break n) i = Inr (text_add_data mime (replicate n (CHR 0x0A)) i)"

subsection \<open>HTML\<close>

record html_info = info +
  hindent :: string
  hheader :: bool
  do_indent :: bool

definition html_new :: html_info where
  "html_new = \<lparr>strm = [], buffered = True, response_started = False, response_name = [], tags = [],
     hindent = [], hheader = False, do_indent = True\<rparr>"

definition BR :: string where
  "BR = ''<BR />''"

definition html_add_data :: "string \<Rightarrow> string \<Rightarrow> html_info \<Rightarrow> html_info" where
  "html_add_data mime s i =
     (let i = (if \<not> hheader i \<and> \<not> buffered i then i\<lparr>strm := strm i @ mime, hheader := True\<rparr> else i);
          i = (if do_indent i then info_add_data (hindent i @ s) i else info_add_data s i)
      in i\<lparr>do_indent := True\<rparr>)"

definition html_add_attrs :: "string \<Rightarrow> attrs option \<Rightarrow> html_info \<Rightarrow> html_info" where
  "html_add_attrs ind attrs i =
     (case attrs of
        None \<Rightarrow> i
      | Some m \<Rightarrow> fold (\<lambda>(nm, val). info_add_data (ind @ nm @ '': '' @ val @ BR @ [CHR 0x0A])) m i)"

definition html_begin_response :: "string \<Rightarrow> string \<Rightarrow> html_info \<Rightarrow> html_info" where
  "html_begin_response mime nm i =
     (let i = info_begin_response nm i;
          i = html_add_data mime (''<HTML>'' @ [CHR 0x0A]) i;
          i = i\<lparr>hindent := hindent i @ ''    ''\<rparr>;
          i = html_add_data mime (''<HEAD>'' @ [CHR 0x0A]) i;
          i = i\<lparr>hindent := hindent i @ ''    ''\<rparr>;
          i = html_add_data mime (''<TITLE>'' @ nm @ ''</TITLE>'' @ [CHR 0x0A]) i;
          i = i\<lparr>hindent := unindent (hindent i)\<rparr>;
          i = html_add_data mime (''</HEAD>'' @ [CHR 0x0A]) i;
          i = html_add_data mime (''<BODY>'' @ [CHR 0x0A]) i
      in i\<lparr>hindent := hindent i @ ''    ''\<rparr>)"

definition html_end_response :: "string \<Rightarrow> html_info \<Rightarrow> html_info" where
  "html_end_response mime i =
     (let i = i\<lparr>hindent := unindent (hindent i)\<rparr>;
          i = html_add_data mime (''</BODY>'' @ [CHR 0x0A]) i;
          i = i\<lparr>hindent := unindent (hindent i)\<rparr>
      in html_add_data mime (''</HTML>'' @ [CHR 0x0A]) i)"

fun html_call :: "string \<Rightarrow> info_call \<Rightarrow> html_info \<Rightarrow> html_info result" where
  "html_call mime (Add_tag tag_name tag_data attrs) i =
     (let i = html_add_data mime (tag_name @ '': '' @ tag_data @ BR @ [CHR 0x0A]) i
      in Inr (html_add_attrs (hindent i @ ''    '') attrs i))"
| "html_call mime (Begin_tag tag_name attrs) i =
     (let i = info_begin_tag tag_name i;
          i = html_add_data mime (tag_name @ BR @ [CHR 0x0A]) i;
          i = i\<lparr>hindent := hindent i @ ''    ''\<rparr>
      in Inr (html_add_attrs (hindent i) attrs i))"
| "html_call mime (End_tag tag_name) i =
     res_bind (info_end_tag tag_name i) (\<lambda>i. Inr (i\<lparr>hindent := unindent (hindent i)\<rparr>))"
| "html_call mime (Add_data s) i = Inr (html_add_data mime s i)"
| "html_call mime (Add_space n) i =
     Inr (html_add_data mime (concat (replicate n ''&nbsp;'')) (i\<lparr>do_indent := False\<rparr>))"
| "html_call mime (Add_break n) i =
     Inr (html_add_data mime (concat (replicate n BR) @ [CHR 0x0A]) (i\<lparr>do_indent := False\<rparr>))"

subsection \<open>XML\<close>

datatype xml_call =
    CreateBuffer | NewWriter | SetIndent nat | SetIndentString string
  | StartDocument string
  | StartElementNS "string option" string string
  | StartElement string
  | WriteAttribute string string
  | WriteString string
  | EndElement
  | EndDocument

text \<open>\<open>xcalls\<close> are the calls made on the writer of the current document.\<close>

record xml_info = info +
  writer :: bool
  started :: bool
  ended :: bool
  doc :: string
  xcalls :: "xml_call list"

definition xml_new :: xml_info where
  "xml_new = \<lparr>strm = [], buffered = True, response_started = False, response_name = [], tags = [],
     writer = False, started = False, ended = False, doc = [], xcalls = []\<rparr>"

text \<open>One library call: when it fails the object is cleaned up and an error is thrown.  The
  library returns an error for a null writer.\<close>

definition xml_do :: "(xml_call list \<Rightarrow> int) \<Rightarrow> xml_call \<Rightarrow> string \<Rightarrow> xml_info \<Rightarrow> xml_info result" where
  "xml_do rc c err i =
     (let cs = xcalls i @ [c]
      in if \<not> writer i \<or> rc cs < 0 then Inl (BESInternalError (err @ response_name i))
         else Inr (i\<lparr>xcalls := cs\<rparr>))"

definition xml_attrs ::
  "(xml_call list \<Rightarrow> int) \<Rightarrow> (string \<Rightarrow> string) \<Rightarrow> attrs \<Rightarrow> xml_info \<Rightarrow> xml_info result" where
  "xml_attrs rc err m = fold_res (\<lambda>(nm, val). xml_do rc (WriteAttribute nm val) (err nm)) m"

definition attr_err :: "string \<Rightarrow> string" where
  "attr_err nm = ''Error adding attribute '' @ nm @ '' for response ''"

definition xml_cleanup :: "xml_info \<Rightarrow> xml_info" where
  "xml_cleanup i = i\<lparr>writer := False, started := False, ended := False, strm := []\<rparr>"

definition MY_ENCODING :: string where
  "MY_ENCODING = ''ISO-8859-1''"

definition BES_SCHEMA :: string where
  "BES_SCHEMA = ''http://xml.opendap.org/ns/bes/1.0#''"

definition REQUEST_ID :: string where
  "REQUEST_ID = ''reqID''"

definition xml_begin_response ::
  "(xml_call list \<Rightarrow> int) \<Rightarrow> string \<Rightarrow> attrs \<Rightarrow> string \<Rightarrow> xml_info \<Rightarrow> xml_info result" where
  "xml_begin_response rc nm attrs reqid i =
     (let i = info_begin_response nm i;
          i = i\<lparr>xcalls := []\<rparr>
      in if rc [CreateBuffer] < 0 then
           Inl (BESInternalError (''Error creating the xml buffer for response '' @ nm))
         else if rc [CreateBuffer, NewWriter] < 0 then
           Inl (BESInternalError (''Error creating the xml writer for response '' @ nm))
         else
           res_bind (xml_do rc (SetIndent 4) ''Error starting indentation for response document ''
             (i\<lparr>writer := True, xcalls := [CreateBuffer, NewWriter]\<rparr>)) (\<lambda>i.
           res_bind (xml_do rc (SetIndentString ''    '') ''Error setting indentation for response document '' i) (\<lambda>i.
           res_bind (xml_do rc (StartDocument MY_ENCODING) ''Error starting xml response document for ''
             (i\<lparr>started := True\<rparr>)) (\<lambda>i.
           res_bind (xml_do rc (StartElementNS None ''response'' BES_SCHEMA)
             ''Error starting the response element for response '' i) (\<lambda>i.
           res_bind (if reqid \<noteq> [] then xml_do rc (WriteAttribute REQUEST_ID reqid) (attr_err REQUEST_ID) i
                     else Inr i) (\<lambda>i.
           res_bind (xml_do rc (StartElement nm) ''Error creating root element for response '' i) (\<lambda>i.
           xml_attrs rc (\<lambda>_. ''Error creating root element for response '') attrs i)))))))"

definition xml_end_response ::
  "(xml_call list \<Rightarrow> int) \<Rightarrow> (xml_call list \<Rightarrow> string option) \<Rightarrow> xml_info \<Rightarrow> xml_info result" where
  "xml_end_response rc content i =
     res_bind (info_end_response i) (\<lambda>i.
     res_bind (xml_do rc EndElement ''Error ending response element for response '' i) (\<lambda>i.
     res_bind (xml_do rc EndElement ''Error ending specific response element for response '' i) (\<lambda>i.
     res_bind (xml_do rc EndDocument ''Error ending the response document for response '' i) (\<lambda>i.
     (case content (xcalls i) of
        None \<Rightarrow>
          Inl (BESInternalError (''Error retrieving response document as string for response '' @ response_name i))
      | Some d \<Rightarrow> Inr (xml_cleanup (i\<lparr>writer := False, doc := d, ended := True\<rparr>)))))))"

definition xml_begin_tag_ns ::
  "(xml_call list \<Rightarrow> int) \<Rightarrow> string \<Rightarrow> string \<Rightarrow> string \<Rightarrow> attrs option \<Rightarrow> xml_info \<Rightarrow> xml_info result" where
  "xml_begin_tag_ns rc tag_name ns uri attrs i =
     (let i = info_begin_tag tag_name i;
          err = ''Error starting element '' @ tag_name @ '' for response ''
      in res_bind (if ns = [] \<and> uri = [] then xml_do rc (StartElement tag_name) err i
                   else xml_do rc (StartElementNS (if ns \<noteq> [] then Some ns else None) tag_name uri) err i) (\<lambda>i.
         (case attrs of None \<Rightarrow> Inr i | Some m \<Rightarrow> xml_attrs rc attr_err m i)))"

definition xml_add_tag ::
  "(xml_call list \<Rightarrow> int) \<Rightarrow> string \<Rightarrow> string \<Rightarrow> attrs option \<Rightarrow> xml_info \<Rightarrow> xml_info result" where
  "xml_add_tag rc tag_name tag_data attrs i =
     res_bind (xml_do rc (StartElement tag_name) (''Error starting element '' @ tag_name @ '' for response '') i) (\<lambda>i.
     res_bind (case attrs of None \<Rightarrow> Inr i | Some m \<Rightarrow> xml_attrs rc attr_err m i) (\<lambda>i.
     res_bind (if tag_data \<noteq> [] then
                 xml_do rc (WriteString tag_data)
                   (''Error writing the value for element '' @ tag_name @ '' for response '') i
               else Inr i) (\<lambda>i.
     xml_do rc EndElement (''Error ending element '' @ tag_name @ '' for response '') i)))"

definition xml_end_tag :: "(xml_call list \<Rightarrow> int) \<Rightarrow> string \<Rightarrow> xml_info \<Rightarrow> xml_info result" where
  "xml_end_tag rc tag_name i =
     res_bind (info_end_tag tag_name i) (\<lambda>i.
     res_bind (if strm i \<noteq> [] then
                 res_bind (xml_do rc (WriteString (strm i))
                   (''Error writing the value for element '' @ tag_name @ '' for response '') i)
                   (\<lambda>i. Inr (i\<lparr>strm := []\<rparr>))
               else Inr i) (\<lambda>i.
     xml_do rc EndElement (''Error ending element '' @ tag_name @ '' for response '') i))"

fun xml_info_call :: "(xml_call list \<Rightarrow> int) \<Rightarrow> info_call \<Rightarrow> xml_info \<Rightarrow> xml_info result" where
  "xml_info_call rc (Add_tag tag_name tag_data attrs) i = xml_add_tag rc tag_name tag_data attrs i"
| "xml_info_call rc (Begin_tag tag_name attrs) i = xml_begin_tag_ns rc tag_name [] [] attrs i"
| "xml_info_call rc (End_tag tag_name) i = xml_end_tag rc tag_name i"
| "xml_info_call rc (Add_data s) i = xml_do rc (WriteString s) ''Error writing String data for response '' i"
| "xml_info_call rc (Add_space n) i = Inr (info_add_data (replicate n (CHR '' '')) i)"
| "xml_info_call rc (Add_break n) i = Inr (info_add_data (replicate n (CHR 0x0A)) i)"

definition xml_print ::
  "(xml_call list \<Rightarrow> int) \<Rightarrow> (xml_call list \<Rightarrow> string option) \<Rightarrow> xml_info \<Rightarrow> (string \<times> xml_info) result" where
  "xml_print rc content i =
     res_bind (if started i \<and> \<not> ended i then xml_end_response rc content i else Inr i)
       (\<lambda>i. Inr (doc i, i))"

subsection \<open>The contract of an informational response\<close>

text \<open>Calls that leave the open tags as they found them.\<close>

inductive closed :: "info_call list \<Rightarrow> bool" where
  closed_Nil [intro]: "closed []"
| closed_leaf [intro]: "closed cs \<Longrightarrow> (\<forall>t a. c \<noteq> Begin_tag t a) \<Longrightarrow> (\<forall>t. c \<noteq> End_tag t) \<Longrightarrow> closed (c # cs)"
| closed_tag [intro]: "closed cs \<Longrightarrow> closed ds \<Longrightarrow> closed (Begin_tag t a # cs @ End_tag t # ds)"

lemma closed_append: "closed cs \<Longrightarrow> closed ds \<Longrightarrow> closed (cs @ ds)"
proof (induction cs rule: closed.induct)
  case (closed_tag cs es t a)
  then show ?case using closed.closed_tag [of cs "es @ ds" t a] by simp
qed (auto intro: closed_leaf)

lemma closed_concat: "(\<And>x. x \<in> set xs \<Longrightarrow> closed (f x)) \<Longrightarrow> closed (concat (map f xs))"
  by (induction xs) (auto intro: closed_append)

lemma closed_tagged: "closed cs \<Longrightarrow> closed (Begin_tag t a # cs @ [End_tag t])"
  using closed_tag [OF _ closed_Nil] by simp

lemma closed_Add_tag [simp]: "closed cs \<Longrightarrow> closed (Add_tag t d a # cs)"
  by (auto intro: closed_leaf)

locale info_sink =
  fixes call :: "info_call \<Rightarrow> 'i \<Rightarrow> 'i result"
    and open_tags :: "'i \<Rightarrow> string list"
  assumes begin_tag: "call (Begin_tag t a) i = Inr i' \<Longrightarrow> open_tags i' = t # open_tags i"
    and end_tag: "call (End_tag t) i = Inr i' \<Longrightarrow> open_tags i = t # open_tags i'"
    and end_wrong_tag: "open_tags i = [] \<or> hd (open_tags i) \<noteq> t \<Longrightarrow>
      call (End_tag t) i = Inl (BESInternalError (''tag '' @ t @ '' already ended or not started''))"
    and other_call: "call c i = Inr i' \<Longrightarrow> (\<forall>t a. c \<noteq> Begin_tag t a) \<Longrightarrow> (\<forall>t. c \<noteq> End_tag t) \<Longrightarrow>
      open_tags i' = open_tags i"
begin

lemma closed_keeps_tags:
  "closed cs \<Longrightarrow> fold_res call cs i = Inr i' \<Longrightarrow> open_tags i' = open_tags i"
proof (induction cs arbitrary: i i' rule: closed.induct)
  case (closed_leaf cs c)
  then show ?case using other_call by (fastforce simp: res_bind_Inr_iff)
next
  case (closed_tag cs ds t a)
  from closed_tag.prems obtain i1 i2 i3 where
    "call (Begin_tag t a) i = Inr i1" "fold_res call cs i1 = Inr i2"
    "call (End_tag t) i2 = Inr i3" "fold_res call ds i3 = Inr i'"
    by (auto simp: res_bind_Inr_iff fold_res_append)
  with closed_tag.IH begin_tag end_tag show ?case by fastforce
qed auto

end

text \<open>A response object on which only ending a tag can fail.\<close>

locale total_info_sink = info_sink +
  assumes end_tag_ok: "open_tags i = t # ts \<Longrightarrow> \<exists>i'. call (End_tag t) i = Inr i'"
    and call_ok: "(\<forall>t. c \<noteq> End_tag t) \<Longrightarrow> \<exists>i'. call c i = Inr i'"
begin

lemma closed_succeeds: "closed cs \<Longrightarrow> \<exists>i'. fold_res call cs i = Inr i' \<and> open_tags i' = open_tags i"
proof (induction cs arbitrary: i rule: closed.induct)
  case (closed_leaf cs c)
  obtain i1 where i1: "call c i = Inr i1" using call_ok closed_leaf.hyps(3) by blast
  with other_call [OF i1] closed_leaf.hyps closed_leaf.IH [of i1] show ?case by simp
next
  case (closed_tag cs ds t a)
  obtain i1 where i1: "call (Begin_tag t a) i = Inr i1" using call_ok by blast
  obtain i2 where i2: "fold_res call cs i1 = Inr i2" "open_tags i2 = t # open_tags i"
    using closed_tag.IH(1) [of i1] begin_tag [OF i1] by auto
  obtain i3 where i3: "call (End_tag t) i2 = Inr i3" using end_tag_ok i2(2) by blast
  have "open_tags i3 = open_tags i" using end_tag [OF i3] i2(2) by simp
  with closed_tag.IH(2) [of i3] i1 i2 i3 show ?case by (simp add: fold_res_append)
qed auto

end

subsection \<open>The three classes implement the contract\<close>

lemma info_add_data_tags [simp]: "tags (info_add_data s i) = tags i"
  by (simp add: info_add_data_def)

lemma text_add_data_tags [simp]: "tags (text_add_data mime s i) = tags i"
  by (simp add: text_add_data_def)

lemma text_add_attrs_tags [simp]: "tags (text_add_attrs mime ind a i) = tags i"
proof (cases a)
  case (Some m)
  have "tags (fold (\<lambda>(nm, val). text_add_data mime (ind @ nm @ '': '' @ val @ [CHR 0x0A])) m i) = tags i"
    by (induction m arbitrary: i) auto
  with Some show ?thesis by (simp add: text_add_attrs_def)
qed (simp add: text_add_attrs_def)

lemma html_add_data_tags [simp]: "tags (html_add_data mime s i) = tags i"
  by (simp add: html_add_data_def Let_def)

lemma html_add_attrs_tags [simp]: "tags (html_add_attrs ind a i) = tags i"
proof (cases a)
  case (Some m)
  have "tags (fold (\<lambda>(nm, val). info_add_data (ind @ nm @ '': '' @ val @ BR @ [CHR 0x0A])) m i) = tags i"
    by (induction m arbitrary: i) auto
  with Some show ?thesis by (simp add: html_add_attrs_def)
qed (simp add: html_add_attrs_def)

lemma info_end_tag_iff: "info_end_tag t i = Inr i' \<longleftrightarrow> (\<exists>ts. tags i = t # ts \<and> i' = i\<lparr>tags := ts\<rparr>)"
  by (cases "tags i") (auto simp: info_end_tag_def)

lemma info_end_tag_wrong:
  "tags i = [] \<or> hd (tags i) \<noteq> t \<Longrightarrow>
    info_end_tag t i = Inl (BESInternalError (''tag '' @ t @ '' already ended or not started''))"
  by (simp add: info_end_tag_def)

interpretation text_sink: total_info_sink "text_call mime" tags
proof
  fix c i and i' :: text_info
  assume "text_call mime c i = Inr i'" "\<forall>t a. c \<noteq> Begin_tag t a" "\<forall>t. c \<noteq> End_tag t"
  then show "tags i' = tags i" by (cases c) auto
next
  fix c i assume "\<forall>t. c \<noteq> End_tag t"
  then show "\<exists>i'. text_call mime c i = Inr i'" by (cases c) (auto simp: Let_def)
qed (auto simp: Let_def info_begin_tag_def res_bind_Inr_iff info_end_tag_iff
  info_end_tag_wrong)

interpretation html_sink: total_info_sink "html_call mime" tags
proof
  fix c i and i' :: html_info
  assume "html_call mime c i = Inr i'" "\<forall>t a. c \<noteq> Begin_tag t a" "\<forall>t. c \<noteq> End_tag t"
  then show "tags i' = tags i" by (cases c) (auto simp: Let_def)
next
  fix c i assume "\<forall>t. c \<noteq> End_tag t"
  then show "\<exists>i'. html_call mime c i = Inr i'" by (cases c) (auto simp: Let_def)
qed (auto simp: Let_def info_begin_tag_def res_bind_Inr_iff info_end_tag_iff
  info_end_tag_wrong)

text \<open>The nesting depth of the document after some calls; \<^const>\<open>None\<close> when an element is
  ended that was not started.\<close>

fun xdepth :: "nat \<Rightarrow> xml_call list \<Rightarrow> nat option" where
  "xdepth n [] = Some n"
| "xdepth n (StartElement _ # cs) = xdepth (Suc n) cs"
| "xdepth n (StartElementNS _ _ _ # cs) = xdepth (Suc n) cs"
| "xdepth n (EndElement # cs) = (case n of 0 \<Rightarrow> None | Suc m \<Rightarrow> xdepth m cs)"
| "xdepth n (_ # cs) = xdepth n cs"

lemma xdepth_append: "xdepth n (xs @ ys) = Option.bind (xdepth n xs) (\<lambda>m. xdepth m ys)"
  by (induction n xs rule: xdepth.induct) (auto split: nat.splits)

definition xml_step :: "(xml_call list \<Rightarrow> int) \<Rightarrow> xml_info \<Rightarrow> xml_call list \<Rightarrow> xml_info \<Rightarrow> bool" where
  "xml_step rc i cs i' \<longleftrightarrow>
     xcalls i' = xcalls i @ cs \<and> tags i' = tags i \<and> writer i' = writer i
     \<and> response_name i' = response_name i"

lemma xml_do_step: "xml_do rc c err i = Inr i' \<Longrightarrow> xml_step rc i [c] i' \<and> strm i' = strm i"
  by (auto simp: xml_do_def xml_step_def Let_def split: if_splits)

lemma xml_attrs_step:
  "xml_attrs rc err m i = Inr i' \<Longrightarrow> xml_step rc i (map (\<lambda>(nm, val). WriteAttribute nm val) m) i'"
proof (induction m arbitrary: i)
  case Nil
  then show ?case by (simp add: xml_attrs_def xml_step_def)
next
  case (Cons p m)
  obtain nm val where p: "p = (nm, val)" by (cases p)
  from Cons.prems obtain j where "xml_do rc (WriteAttribute nm val) (err nm) i = Inr j"
      "xml_attrs rc err m j = Inr i'" by (auto simp: xml_attrs_def p res_bind_Inr_iff)
  with Cons.IH [of j] xml_do_step show ?case by (fastforce simp: xml_step_def p)
qed

lemma xdepth_attributes [simp]: "xdepth n (map (\<lambda>(nm, val). WriteAttribute nm val) m @ cs) = xdepth n cs"
  by (induction m) auto

lemma xdepth_attributes_only [simp]: "xdepth n (map (\<lambda>(nm, val). WriteAttribute nm val) m) = Some n"
  using xdepth_attributes [of n m "[]"] by simp

text \<open>What each operation adds to the calls: nothing that changes the depth but the tag's
  own start or end.\<close>

lemma xml_opt_attrs_step:
  assumes "(case a of None \<Rightarrow> Inr i | Some m \<Rightarrow> xml_attrs rc err m i) = Inr i'"
  shows "\<exists>m. xml_step rc i (map (\<lambda>(nm, val). WriteAttribute nm val) m) i'"
proof (cases a)
  case None
  with assms have "xml_step rc i (map (\<lambda>(nm, val). WriteAttribute nm val) []) i'" by (simp add: xml_step_def)
  then show ?thesis by blast
next
  case (Some m)
  with assms xml_attrs_step show ?thesis by fastforce
qed

definition xml_moves :: "nat \<Rightarrow> nat \<Rightarrow> xml_info \<Rightarrow> xml_info \<Rightarrow> bool" where
  "xml_moves a b i i' \<longleftrightarrow>
     (\<forall>n. xdepth 0 (xcalls i) = Some (n + a) \<longrightarrow> xdepth 0 (xcalls i') = Some (n + b))"

lemma xml_step_moves: "xml_step rc i cs i' \<Longrightarrow> (\<And>n. xdepth (n + a) cs = Some (n + b)) \<Longrightarrow> xml_moves a b i i'"
  by (auto simp: xml_step_def xml_moves_def xdepth_append)

lemma xml_moves_trans: "xml_moves a b i j \<Longrightarrow> xml_moves b c j k \<Longrightarrow> xml_moves a c i k"
  by (auto simp: xml_moves_def)

lemma xml_begin_tag_moves:
  assumes "xml_begin_tag_ns rc t ns uri a i = Inr i'"
  shows "xml_moves 0 1 i i' \<and> tags i' = t # tags i"
proof -
  from assms obtain j c err where
    j: "xml_do rc c err (info_begin_tag t i) = Inr j"
       "c = StartElement t \<or> (\<exists>n. c = StartElementNS n t uri)"
       "(case a of None \<Rightarrow> Inr j | Some m \<Rightarrow> xml_attrs rc attr_err m j) = Inr i'"
    by (auto simp: xml_begin_tag_ns_def Let_def res_bind_Inr_iff split: if_splits)
  obtain m where m: "xml_step rc j (map (\<lambda>(nm, val). WriteAttribute nm val) m) i'"
    using xml_opt_attrs_step [OF j(3)] by blast
  have s: "xml_step rc (info_begin_tag t i) [c] j" using xml_do_step [OF j(1)] by simp
  have "xml_moves 0 1 (info_begin_tag t i) j"
    using j(2) by (intro xml_step_moves [OF s]) auto
  then have "xml_moves 0 1 i j" by (simp add: xml_moves_def info_begin_tag_def)
  moreover have "xml_moves 1 1 j i'" by (rule xml_step_moves [OF m]) simp
  ultimately show ?thesis
    using m s by (auto intro: xml_moves_trans simp: xml_step_def info_begin_tag_def)
qed

lemma xml_add_tag_moves:
  assumes "xml_add_tag rc t d a i = Inr i'"
  shows "xml_moves 0 0 i i' \<and> tags i' = tags i"
proof -
  from assms obtain j k l e1 e2 e3 where
    1: "xml_do rc (StartElement t) e1 i = Inr j" and
    2: "(case a of None \<Rightarrow> Inr j | Some m \<Rightarrow> xml_attrs rc attr_err m j) = Inr k" and
    3: "(if d \<noteq> [] then xml_do rc (WriteString d) e2 k else Inr k) = Inr l" and
    4: "xml_do rc EndElement e3 l = Inr i'"
    unfolding xml_add_tag_def res_bind_Inr_iff by blast
  obtain m where m: "xml_step rc j (map (\<lambda>(nm, val). WriteAttribute nm val) m) k"
    using xml_opt_attrs_step [OF 2] by blast
  have s3: "\<exists>cs. xml_step rc k cs l \<and> (\<forall>n. xdepth n cs = Some n)"
  proof (cases "d = []")
    case True
    with 3 have "xml_step rc k [] l" by (simp add: xml_step_def)
    then show ?thesis by force
  next
    case False
    with 3 xml_do_step have "xml_step rc k [WriteString d] l" by auto
    then show ?thesis by force
  qed
  then obtain cs where s3: "xml_step rc k cs l" "\<And>n. xdepth n cs = Some n" by blast
  have s1: "xml_step rc i [StartElement t] j" using xml_do_step [OF 1] by simp
  have s4: "xml_step rc l [EndElement] i'" using xml_do_step [OF 4] by simp
  have "xml_moves 0 1 i j" by (rule xml_step_moves [OF s1]) simp
  moreover have "xml_moves 1 1 j k" by (rule xml_step_moves [OF m]) simp
  moreover have "xml_moves 1 1 k l" by (rule xml_step_moves [OF s3(1)]) (simp add: s3(2))
  moreover have "xml_moves 1 0 l i'" by (rule xml_step_moves [OF s4]) simp
  ultimately have "xml_moves 0 0 i i'" by (blast intro: xml_moves_trans)
  with s1 m s3(1) s4 show ?thesis by (simp add: xml_step_def)
qed

lemma xml_end_tag_moves:
  assumes "xml_end_tag rc t i = Inr i'"
  shows "xml_moves 1 0 i i' \<and> tags i = t # tags i'"
proof -
  from assms obtain j k err where
    1: "info_end_tag t i = Inr j" and
    2: "(if strm j \<noteq> [] then res_bind (xml_do rc (WriteString (strm j))
           (''Error writing the value for element '' @ t @ '' for response '') j) (\<lambda>i. Inr (i\<lparr>strm := []\<rparr>))
         else Inr j) = Inr k" and
    3: "xml_do rc EndElement err k = Inr i'"
    unfolding xml_end_tag_def res_bind_Inr_iff by blast
  from 1 have t: "tags i = t # tags j" "xcalls j = xcalls i" by (auto simp: info_end_tag_iff)
  have "xml_moves 0 0 j k \<and> tags k = tags j"
  proof (cases "strm j = []")
    case True
    with 2 show ?thesis by (simp add: xml_moves_def)
  next
    case False
    then obtain l where l: "xml_do rc (WriteString (strm j))
        (''Error writing the value for element '' @ t @ '' for response '') j = Inr l"
        "k = l\<lparr>strm := []\<rparr>" using 2 by (auto simp: res_bind_Inr_iff)
    have "xml_step rc j [WriteString (strm j)] l" using xml_do_step [OF l(1)] by simp
    then show ?thesis by (simp add: l(2) xml_step_def xml_moves_def xdepth_append)
  qed
  then have jk: "xml_moves 1 1 j k" "tags k = tags j" by (auto simp: xml_moves_def)
  have s3: "xml_step rc k [EndElement] i'" using xml_do_step [OF 3] by simp
  have "xml_moves 1 0 k i'" by (rule xml_step_moves [OF s3]) simp
  with jk have "xml_moves 1 0 j i'" by (blast intro: xml_moves_trans)
  with t jk s3 show ?thesis by (simp add: xml_moves_def xml_step_def)
qed

interpretation xml_sink: info_sink "xml_info_call rc" tags
proof
  fix t a i and i' :: xml_info
  show "xml_info_call rc (Begin_tag t a) i = Inr i' \<Longrightarrow> tags i' = t # tags i"
    using xml_begin_tag_moves by simp
  show "xml_info_call rc (End_tag t) i = Inr i' \<Longrightarrow> tags i = t # tags i'"
    using xml_end_tag_moves by simp
next
  fix i :: xml_info and t
  assume "tags i = [] \<or> hd (tags i) \<noteq> t"
  then show "xml_info_call rc (End_tag t) i =
      Inl (BESInternalError (''tag '' @ t @ '' already ended or not started''))"
    by (simp add: xml_end_tag_def info_end_tag_def)
next
  fix c i and i' :: xml_info
  assume "xml_info_call rc c i = Inr i'" "\<forall>t a. c \<noteq> Begin_tag t a" "\<forall>t. c \<noteq> End_tag t"
  then show "tags i' = tags i"
    using xml_add_tag_moves xml_do_step by (cases c) (fastforce simp: xml_step_def)+
qed

lemma xml_info_call_depth:
  assumes "xml_info_call rc c i = Inr i'" and "xdepth 0 (xcalls i) = Some (length (tags i) + 2)"
  shows "xdepth 0 (xcalls i') = Some (length (tags i') + 2)"
proof (cases c)
  case (Begin_tag t a)
  with assms xml_begin_tag_moves [of rc t "[]" "[]" a i i'] show ?thesis by (auto simp: xml_moves_def)
next
  case (End_tag t)
  with assms xml_end_tag_moves [of rc t i i'] have "xml_moves 1 0 i i'" "tags i = t # tags i'" by auto
  with assms(2) show ?thesis by (auto simp: xml_moves_def dest: spec [of _ "length (tags i') + 2"])
next
  case (Add_tag t d a)
  with assms xml_add_tag_moves [of rc t d a i i'] show ?thesis by (auto simp: xml_moves_def)
next
  case (Add_data s)
  with assms xml_do_step [of rc "WriteString s" "''Error writing String data for response ''" i i']
  show ?thesis by (auto simp: xml_step_def xdepth_append)
qed (use assms in \<open>auto simp: info_add_data_def\<close>)

lemma xml_calls_depth:
  "fold_res (xml_info_call rc) cs i = Inr i' \<Longrightarrow> xdepth 0 (xcalls i) = Some (length (tags i) + 2) \<Longrightarrow>
    xdepth 0 (xcalls i') = Some (length (tags i') + 2)"
  using fold_res_invariant [of "xml_info_call rc" cs i i' "\<lambda>i. xdepth 0 (xcalls i) = Some (length (tags i) + 2)"]
    xml_info_call_depth by blast

lemma xml_begin_response_depth:
  assumes "xml_begin_response rc nm m reqid i = Inr i'" and "tags i = []"
  shows "xdepth 0 (xcalls i') = Some (length (tags i') + 2)"
proof -
  let ?i0 = "((info_begin_response nm i)\<lparr>xcalls := []\<rparr>)\<lparr>writer := True, xcalls := [CreateBuffer, NewWriter]\<rparr>"
  have rc: "\<not> rc [CreateBuffer] < 0" "\<not> rc [CreateBuffer, NewWriter] < 0"
    using assms(1) by (auto simp: xml_begin_response_def Let_def split: if_splits)
  from assms(1) obtain i1 i2 i3 i4 i5 i6 e1 e2 e3 e4 e5 e6 where
    1: "xml_do rc (SetIndent 4) e1 ?i0 = Inr i1" and
    2: "xml_do rc (SetIndentString ''    '') e2 i1 = Inr i2" and
    3: "xml_do rc (StartDocument MY_ENCODING) e3 (i2\<lparr>started := True\<rparr>) = Inr i3" and
    4: "xml_do rc (StartElementNS None ''response'' BES_SCHEMA) e4 i3 = Inr i4" and
    5: "(if reqid \<noteq> [] then xml_do rc (WriteAttribute REQUEST_ID reqid) e5 i4 else Inr i4) = Inr i5" and
    6: "xml_do rc (StartElement nm) e6 i5 = Inr i6" and
    7: "xml_attrs rc (\<lambda>_. ''Error creating root element for response '') m i6 = Inr i'"
    unfolding xml_begin_response_def Let_def if_not_P [OF rc(1)] if_not_P [OF rc(2)] res_bind_Inr_iff by blast
  have t0: "tags ?i0 = []" using assms(2) by (simp add: info_begin_response_def)
  have "xdepth 0 (xcalls i4) = Some 1 \<and> tags i4 = []"
    using xml_do_step [OF 1] xml_do_step [OF 2] xml_do_step [OF 3] xml_do_step [OF 4] t0
    by (auto simp: xml_step_def)
  then have "xdepth 0 (xcalls i5) = Some 1 \<and> tags i5 = []"
    using 5 xml_do_step [of rc "WriteAttribute REQUEST_ID reqid" e5 i4 i5]
    by (auto simp: xml_step_def xdepth_append split: if_splits)
  then have "xdepth 0 (xcalls i6) = Some 2 \<and> tags i6 = []"
    using xml_do_step [OF 6] by (auto simp: xml_step_def xdepth_append)
  then show ?thesis using xml_attrs_step [OF 7] by (auto simp: xml_step_def xdepth_append)
qed

subsection \<open>Properties of the informational responses\<close>

text \<open>
  C13: Every XML informational response that is completed is well nested: whatever sequence
  of tags and data is written between \<^verbatim>\<open>begin_response\<close> and \<^verbatim>\<open>end_response\<close>, and whatever
  \<^verbatim>\<open>libxml2\<close> returns, if no error is thrown then the calls made on the writer start and end
  the same number of elements, never end one that is not open, and finish with the end of
  the document.
\<close>

theorem xml_response_nested:
  assumes "tags i0 = []" and "xml_begin_response rc nm m reqid i0 = Inr i1"
    and "fold_res (xml_info_call rc) cs i1 = Inr i2" and "xml_end_response rc content i2 = Inr i3"
  shows "xdepth 0 (xcalls i3) = Some 0 \<and> last (xcalls i3) = EndDocument \<and> tags i3 = []
    \<and> Some (doc i3) = content (xcalls i3)"
proof -
  have d2: "xdepth 0 (xcalls i2) = Some (length (tags i2) + 2)"
    using xml_calls_depth [OF assms(3)] xml_begin_response_depth [OF assms(2,1)] by blast
  from assms(4) obtain i j k l e1 e2 e3 d where
    0: "info_end_response i2 = Inr i" and
    1: "xml_do rc EndElement e1 i = Inr j" and 2: "xml_do rc EndElement e2 j = Inr k" and
    3: "xml_do rc EndDocument e3 k = Inr l" and 4: "content (xcalls l) = Some d"
    "i3 = xml_cleanup (l\<lparr>writer := False, doc := d, ended := True\<rparr>)"
    by (auto simp: xml_end_response_def res_bind_Inr_iff split: option.splits)
  have i: "tags i = []" "tags i2 = []" "xcalls i = xcalls i2"
    using 0 by (auto simp: info_end_response_def Let_def split: if_splits)
  have "xcalls l = xcalls i2 @ [EndElement, EndElement, EndDocument]" "tags l = tags i"
    using xml_do_step [OF 1] xml_do_step [OF 2] xml_do_step [OF 3] i by (auto simp: xml_step_def)
  with d2 i 4 show ?thesis by (simp add: xdepth_append xml_cleanup_def numeral_2_eq_2)
qed

theorem xml_response_nested_witness:
  "\<exists>i1 i2 i3. xml_begin_response (\<lambda>_. 0) ''showContext'' [] ''1'' xml_new = Inr i1 \<and>
    fold_res (xml_info_call (\<lambda>_. 0)) [Begin_tag ''a'' None, Add_break 1, End_tag ''a''] i1 = Inr i2 \<and>
    xml_end_response (\<lambda>_. 0) (\<lambda>cs. Some (replicate (length cs) (CHR ''x''))) i2 = Inr i3 \<and>
    xdepth 0 (xcalls i3) = Some 0"
proof -
  obtain i1 where 1: "xml_begin_response (\<lambda>_. 0) ''showContext'' [] ''1'' xml_new = Inr i1"
    and 2: "tags i1 = []" "strm i1 = []" "writer i1"
    by (simp add: xml_begin_response_def xml_do_def xml_attrs_def Let_def info_begin_response_def xml_new_def)
  obtain i2 where 3: "fold_res (xml_info_call (\<lambda>_. 0)) [Begin_tag ''a'' None, Add_break 1, End_tag ''a''] i1 = Inr i2"
    and 4: "tags i2 = []" "writer i2"
    using 2 by (simp add: xml_begin_tag_ns_def xml_end_tag_def info_begin_tag_def info_end_tag_def
        xml_do_def Let_def info_add_data_def)
  obtain i3 where 5: "xml_end_response (\<lambda>_. 0) (\<lambda>cs. Some (replicate (length cs) (CHR ''x''))) i2 = Inr i3"
    using 4 by (simp add: xml_end_response_def info_end_response_def xml_do_def Let_def)
  from xml_response_nested [OF _ 1 3 5] 1 3 5 show ?thesis by (simp add: xml_new_def)
qed

text \<open>
  A text response takes every balanced sequence of calls: none of them throws, and
  \<^verbatim>\<open>end_response\<close> then succeeds; after an unbalanced \<^verbatim>\<open>begin_tag\<close> it throws.
\<close>

theorem text_response_complete:
  assumes "closed cs"
  shows "(\<exists>i. fold_res (text_call mime) cs (text_new http) = Inr i
              \<and> info_end_response i = Inr (i\<lparr>response_started := False\<rparr>))
       \<and> (\<exists>i. fold_res (text_call mime) (cs @ [Begin_tag t a]) (text_new http) = Inr i
              \<and> info_end_response i = Inl (BESInternalError ''Not all tags were ended in info response''))"
proof -
  obtain i where i: "fold_res (text_call mime) cs (text_new http) = Inr i" "tags i = []"
    using text_sink.closed_succeeds [OF assms, of mime "text_new http"] by (auto simp: text_new_def)
  moreover obtain j where j: "text_call mime (Begin_tag t a) i = Inr j" "tags j = [t]"
    using text_sink.call_ok [of "Begin_tag t a" mime i] text_sink.begin_tag i(2) by fastforce
  ultimately show ?thesis by (simp add: info_end_response_def fold_res_append)
qed

theorem text_response_complete_witness:
  "\<exists>i. fold_res (text_call []) (add_exception 1 ''m'' ''f'' 7 ''a'') (text_new False) = Inr i
     \<and> info_end_response i = Inr (i\<lparr>response_started := False\<rparr>)"
proof -
  have "closed (add_exception 1 ''m'' ''f'' 7 ''a'')"
    unfolding add_exception_def
    using closed_tagged [of "[Add_tag ''Type'' (nat_text 1) None, Add_tag ''Message'' ''m'' None,
        Add_tag ''Administrator'' ''a'' None, Begin_tag ''Location'' None, Add_tag ''File'' ''f'' None,
        Add_tag ''Line'' (nat_text 7) None, End_tag ''Location'']" "''BESError''" None]
      closed_tagged [of "[Add_tag ''File'' ''f'' None, Add_tag ''Line'' (nat_text 7) None]" "''Location''" None]
    by auto
  from text_response_complete [OF this, of "[]" False "''t''" None] show ?thesis by blast
qed

text \<open>
  \<^verbatim>\<open>BESHTMLInfo::end_response\<close> does not check that the tags were ended and leaves the
  response marked as started, unlike the base class: for every object it succeeds with the
  open tags and the flag as they were.
\<close>

theorem html_end_response_unchecked:
  "tags (html_end_response mime i) = tags i \<and> response_started (html_end_response mime i) = response_started i"
  by (simp add: html_end_response_def html_add_data_def info_add_data_def Let_def)

lemma getline_n_line:
  "CHR 0x0A \<notin> set l \<Longrightarrow> length l < n \<Longrightarrow> getline_n n (l @ CHR 0x0A # r) = (l, r, Good)"
  by (induction l arbitrary: n) auto

lemma getline_n_eof: "CHR 0x0A \<notin> set l \<Longrightarrow> length l < n \<Longrightarrow> snd (snd (getline_n n l)) = EofBit"
  by (induction l arbitrary: n) (auto simp: Let_def case_prod_beta)

lemma getline_n_long:
  "CHR 0x0A \<notin> set l \<Longrightarrow> 0 < n \<Longrightarrow> n \<le> length l \<Longrightarrow> snd (snd (getline_n n (l @ r))) = FailBit"
proof (induction l arbitrary: n)
  case (Cons c l)
  then show ?case
    by (cases "n \<le> 1") (auto simp: Let_def case_prod_beta)
qed simp

lemma add_lines_copy:
  assumes "\<forall>l \<in> set ls. CHR 0x0A \<notin> set l \<and> length l < BES_INFO_FILE_BUFFER_SIZE"
    and "CHR 0x0A \<notin> set last_line" and "length last_line < BES_INFO_FILE_BUFFER_SIZE"
    and "length ls < fuel"
  shows "add_lines (\<lambda>s i. Inr (info_add_data s i)) fuel
      (concat (map (\<lambda>l. l @ [CHR 0x0A]) ls) @ last_line, Good) i =
    Some (Inr (info_add_data (concat (map (\<lambda>l. l @ [CHR 0x0A]) ls)) i))"
  using assms(1,4)
proof (induction ls arbitrary: i fuel)
  case Nil
  then show ?case using getline_n_eof [OF assms(2,3)]
    by (cases fuel) (auto simp: Let_def case_prod_beta info_add_data_def)
next
  case (Cons l ls)
  then obtain f where f: "fuel = Suc f" by (cases fuel) auto
  have g: "getline_n BES_INFO_FILE_BUFFER_SIZE
      (l @ CHR 0x0A # concat (map (\<lambda>l. l @ [CHR 0x0A]) ls) @ last_line) =
      (l, concat (map (\<lambda>l. l @ [CHR 0x0A]) ls) @ last_line, Good)"
    using Cons.prems(1) by (intro getline_n_line) auto
  have merge: "info_add_data y (info_add_data x j) = info_add_data (x @ y) j" for x y and j :: "'a info_scheme"
    by (simp add: info_add_data_def)
  show ?case using Cons.prems by (simp add: f g Cons.IH merge)
qed

lemma add_lines_stuck: "add_lines (\<lambda>s i. Inr (info_add_data s i)) fuel (s, FailBit) i = None"
  by (induction fuel arbitrary: i) auto

text \<open>
  \<^verbatim>\<open>add_data_from_file\<close> copies the complete lines of a file into the response, with
  one iteration per line and one more, as long as no line is longer than 4095 characters;
  text after the last newline is dropped.
\<close>

theorem add_data_from_file_copies:
  assumes "lookup key = Some file" and "open_file file = Inr (concat (map (\<lambda>l. l @ [CHR 0x0A]) ls) @ last_line)"
    and "\<forall>l \<in> set ls. CHR 0x0A \<notin> set l \<and> length l < 4096"
    and "CHR 0x0A \<notin> set last_line" and "length last_line < 4096" and "length ls < fuel"
  shows "info_add_data_from_file (\<lambda>s i. Inr (info_add_data s i)) lookup open_file fuel key nm i =
    Some (Inr (i\<lparr>strm := strm i @ concat (map (\<lambda>l. l @ [CHR 0x0A]) ls)\<rparr>))"
  using assms by (simp add: info_add_data_from_file_def add_lines_copy BES_INFO_FILE_BUFFER_SIZE_def)
    (simp add: info_add_data_def)

theorem add_data_from_file_copies_witness:
  "info_add_data_from_file (\<lambda>s i. Inr (info_add_data s i)) (\<lambda>_. Some ''f'')
      (\<lambda>_. Inr (''one'' @ [CHR 0x0A] @ ''two'')) 2 ''k'' ''n'' (text_new False) =
    Some (Inr ((text_new False)\<lparr>strm := ''one'' @ [CHR 0x0A]\<rparr>))"
  using add_data_from_file_copies [of "\<lambda>_. Some ''f''" "''k''" "''f''" "\<lambda>_. Inr (''one'' @ [CHR 0x0A] @ ''two'')"
      "[''one'']" "''two''" 2 "''n''" "text_new False"]
  by (simp add: text_new_def)

text \<open>
  A line of 4096 characters or more makes \<^verbatim>\<open>add_data_from_file\<close> loop for ever: \<^verbatim>\<open>getline\<close>
  sets the fail bit, which the loop condition does not look at, and no later \<^verbatim>\<open>getline\<close>
  reads anything.  No number of iterations is enough.
\<close>

theorem add_data_from_file_hangs:
  assumes "lookup key = Some file" and "open_file file = Inr (l @ rest)"
    and "CHR 0x0A \<notin> set l" and "4096 \<le> length l"
  shows "info_add_data_from_file (\<lambda>s i. Inr (info_add_data s i)) lookup open_file fuel key nm i = None"
proof (cases fuel)
  case 0
  then show ?thesis using assms by (simp add: info_add_data_from_file_def)
next
  case (Suc f)
  obtain x r where "getline_n BES_INFO_FILE_BUFFER_SIZE (l @ rest) = (x, r, FailBit)"
    using getline_n_long [OF assms(3), of 4096 rest] assms(4)
    by (cases "getline_n 4096 (l @ rest)") (auto simp: BES_INFO_FILE_BUFFER_SIZE_def)
  with assms Suc show ?thesis by (simp add: info_add_data_from_file_def add_lines_stuck)
qed

theorem add_data_from_file_hangs_witness:
  "info_add_data_from_file (\<lambda>s i. Inr (info_add_data s i)) (\<lambda>_. Some ''f'')
      (\<lambda>_. Inr (replicate 4096 (CHR ''a'') @ [CHR 0x0A])) 1000000 ''k'' ''n'' (text_new False) = None"
proof (rule add_data_from_file_hangs)
  show "CHR 0x0A \<notin> set (replicate 4096 (CHR ''a''))" by (simp only: set_replicate_conv_if) simp
  show "4096 \<le> length (replicate 4096 (CHR ''a''))" by (simp only: length_replicate)
qed simp_all

end
