(* ===== verification/Bes_Registry.thy ===== *)
theory Bes_Registry
  imports Bes_Info
begin

text \<open>
  Two registries of \<^verbatim>\<open>dispatch/\<close>: \<^verbatim>\<open>BESContextManager\<close>, the name/value pairs a client
  sets for a session, and \<^verbatim>\<open>BESServiceRegistry\<close>, the services, their commands and formats,
  and which handler provides which service.

  The registry of services is a state machine: \<open>reg_step\<close> has one transition per operation
  that changes it, the failing calls included, and \<open>reg_ok\<close> holds in every state that can
  be reached: a handler never claims a service that is not registered.
\<close>

subsection \<open>Contexts\<close>

type_synonym contexts = "(string, string) stdmap"

definition set_context :: "string \<Rightarrow> string \<Rightarrow> contexts \<Rightarrow> contexts" where
  "set_context nm val m = map_put nm val m"

definition unset_context :: "string \<Rightarrow> contexts \<Rightarrow> contexts" where
  "unset_context nm m = map_erase nm m"

text \<open>The value and whether the context was found.\<close>

definition get_context :: "string \<Rightarrow> contexts \<Rightarrow> string \<times> bool" where
  "get_context nm m = (case map_find m nm of Some v \<Rightarrow> (v, True) | None \<Rightarrow> ([], False))"

definition get_context_int :: "string \<Rightarrow> contexts \<Rightarrow> (int \<times> bool) result" where
  "get_context_int nm m =
     (let (val, found) = get_context nm m
      in if \<not> found \<or> val = [] then Inr (0, found)
         else
           (let (n, erange) = strtol val; v = int_of_long n
            in if v = 0 \<and> erange then
                 Inl (BESInternalError (''Error reading an integer value for the context '' @ [CHR 0x27] @ nm
                        @ [CHR 0x27] @ '': Numerical result out of range''))
               else Inr (v, found)))"

definition list_context :: "contexts \<Rightarrow> info_call list" where
  "list_context m = map (\<lambda>(nm, val). Add_tag ''context'' val (Some (map_put ''name'' nm []))) m"

subsection \<open>Services\<close>

record service_cmd =
  description :: string
  formats :: "(string, string) stdmap"

record service_registry =
  services :: "(string, (string, service_cmd) stdmap) stdmap"
  handles :: "(string, (string, string) stdmap) stdmap"

definition empty_registry :: service_registry where
  "empty_registry = \<lparr>services = [], handles = []\<rparr>"

definition add_service :: "string \<Rightarrow> service_registry \<Rightarrow> service_registry result" where
  "add_service nm r =
     (case map_find (services r) nm of
        None \<Rightarrow> Inr (r\<lparr>services := map_put nm [] (services r)\<rparr>)
      | Some _ \<Rightarrow> Inl (BESInternalError (''The service '' @ nm @ '' has already been registered'')))"

definition add_to_service ::
  "string \<Rightarrow> string \<Rightarrow> string \<Rightarrow> string \<Rightarrow> service_registry \<Rightarrow> service_registry result" where
  "add_to_service service cmd cmd_descript format r =
     (case map_find (services r) service of
        Some cmds \<Rightarrow>
          (case map_find cmds cmd of
             Some _ \<Rightarrow> Inl (BESInternalError (''Attempting to add command '' @ cmd @ '' to the service ''
                         @ service @ '', command alrady exists''))
           | None \<Rightarrow>
               (let sc = \<lparr>description = cmd_descript, formats = map_put format format []\<rparr>
                in Inr (r\<lparr>services := map_put service (map_put cmd sc cmds) (services r)\<rparr>)))
      | None \<Rightarrow> Inl (BESInternalError (''Attempting to add commands to the service '' @ service
                  @ '' that has not yet been registered'')))"

definition add_format :: "string \<Rightarrow> string \<Rightarrow> string \<Rightarrow> service_registry \<Rightarrow> service_registry result" where
  "add_format service cmd format r =
     (case map_find (services r) service of
        Some cmds \<Rightarrow>
          (case map_find cmds cmd of
             Some sc \<Rightarrow>
               (case map_find (formats sc) format of
                  None \<Rightarrow>
                    Inr (r\<lparr>services := map_put service
                      (map_put cmd (sc\<lparr>formats := map_put format format (formats sc)\<rparr>) cmds) (services r)\<rparr>)
                | Some _ \<Rightarrow> Inl (BESInternalError (''Attempting to add format '' @ format @ '' to command ''
                    @ cmd @ '' for service '' @ service @ '' where the format has already been registered'')))
           | None \<Rightarrow> Inl (BESInternalError (''Attempting to add a format '' @ format @ '' to command '' @ cmd
               @ '' for service '' @ service @ '' where the command has not been registered'')))
      | None \<Rightarrow> Inl (BESInternalError (''Attempting to add a format '' @ format @ '' to command '' @ cmd
          @ '' for a service '' @ service @ '' that has not been registered'')))"

definition remove_service :: "string \<Rightarrow> service_registry \<Rightarrow> service_registry" where
  "remove_service service r =
     (case map_find (services r) service of
        None \<Rightarrow> r
      | Some _ \<Rightarrow>
          r\<lparr>services := map_erase service (services r),
            handles := map (\<lambda>(handler, ss).
                         (handler, case map_find ss service of Some _ \<Rightarrow> map_erase service ss | None \<Rightarrow> ss))
                       (handles r)\<rparr>)"

definition service_available :: "string \<Rightarrow> string \<Rightarrow> string \<Rightarrow> service_registry \<Rightarrow> bool" where
  "service_available service cmd format r =
     (case map_find (services r) service of
        None \<Rightarrow> False
      | Some cmds \<Rightarrow>
          if cmd \<noteq> [] then
            (case map_find cmds cmd of
               None \<Rightarrow> False
             | Some sc \<Rightarrow> if format \<noteq> [] then map_find (formats sc) format \<noteq> None else True)
          else True)"

definition handles_service :: "string \<Rightarrow> string \<Rightarrow> service_registry \<Rightarrow> service_registry result" where
  "handles_service handler service r =
     (case map_find (services r) service of
        None \<Rightarrow> Inl (BESInternalError (''Registering a handler to handle service '' @ service
                  @ '' that has not yet been registered''))
      | Some _ \<Rightarrow>
          (case map_find (handles r) handler of
             None \<Rightarrow> Inr (r\<lparr>handles := map_put handler (map_put service service []) (handles r)\<rparr>)
           | Some ss \<Rightarrow>
               (case map_find ss service of
                  None \<Rightarrow> Inr (r\<lparr>handles := map_put handler (map_put service service ss) (handles r)\<rparr>)
                | Some _ \<Rightarrow> Inr r)))"

definition does_handle_service :: "string \<Rightarrow> string \<Rightarrow> service_registry \<Rightarrow> bool" where
  "does_handle_service handler service r =
     (case map_find (handles r) handler of
        None \<Rightarrow> False
      | Some ss \<Rightarrow> map_find ss service \<noteq> None)"

text \<open>\<^verbatim>\<open>services_handled\<close> appends to the caller's list.\<close>

definition services_handled :: "string \<Rightarrow> string list \<Rightarrow> service_registry \<Rightarrow> string list" where
  "services_handled handler acc r =
     (case map_find (handles r) handler of
        None \<Rightarrow> acc
      | Some ss \<Rightarrow> acc @ map snd ss)"

definition show_services :: "service_registry \<Rightarrow> info_call list" where
  "show_services r =
     concat (map (\<lambda>(nm, cmds).
       Begin_tag ''serviceDescription'' (Some (map_put ''name'' nm [])) #
       concat (map (\<lambda>(cname, sc).
         Begin_tag ''command'' (Some (map_put ''name'' cname [])) #
         (Add_tag ''description'' (description sc) None #
          map (\<lambda>(f, _). Add_tag ''format'' [] (Some (map_put ''name'' f []))) (formats sc)) @
         [End_tag ''command'']) cmds) @
       [End_tag ''serviceDescription'']) (services r))"

subsection \<open>The registry as a state machine\<close>

text \<open>A call that throws leaves the registry as it was.\<close>

definition attempt :: "('s \<Rightarrow> 's result) \<Rightarrow> 's \<Rightarrow> 's" where
  "attempt f s = (case f s of Inl _ \<Rightarrow> s | Inr s' \<Rightarrow> s')"

inductive reg_step :: "service_registry \<Rightarrow> service_registry \<Rightarrow> bool" where
  "reg_step r (attempt (add_service nm) r)"
| "reg_step r (attempt (add_to_service nm cmd d f) r)"
| "reg_step r (attempt (add_format nm cmd f) r)"
| "reg_step r (attempt (handles_service h nm) r)"
| "reg_step r (remove_service nm r)"

inductive reg_reachable :: "service_registry \<Rightarrow> bool" where
  "reg_reachable empty_registry"
| "reg_reachable r \<Longrightarrow> reg_step r r' \<Longrightarrow> reg_reachable r'"

text \<open>The maps are ordered, a handled service is registered and listed under its own name,
  and so is a format.\<close>

definition reg_ok :: "service_registry \<Rightarrow> bool" where
  "reg_ok r \<longleftrightarrow> map_ok (services r) \<and> map_ok (handles r)
     \<and> (\<forall>cmds \<in> snd ` set (services r). map_ok cmds \<and>
          (\<forall>sc \<in> snd ` set cmds. map_ok (formats sc) \<and> (\<forall>(k, v) \<in> set (formats sc). k = v)))
     \<and> (\<forall>ss \<in> snd ` set (handles r). map_ok ss \<and>
          (\<forall>(k, v) \<in> set ss. k = v \<and> k \<in> fst ` set (services r)))"

subsection \<open>Every operation keeps the invariant\<close>

lemma map_find_in: "map_find m k = Some v \<Longrightarrow> v \<in> snd ` set m"
  by (force dest: map_of_SomeD)

lemma map_put_snd: "x \<in> snd ` set (map_put k v m) \<Longrightarrow> x = v \<or> x \<in> snd ` set m"
  using set_map_put_subset [of k v m] by force

definition cmds_ok :: "(string, service_cmd) stdmap \<Rightarrow> bool" where
  "cmds_ok cmds \<longleftrightarrow> map_ok cmds \<and>
     (\<forall>sc \<in> snd ` set cmds. map_ok (formats sc) \<and> (\<forall>(k, v) \<in> set (formats sc). k = v))"

lemma reg_ok_alt:
  "reg_ok r \<longleftrightarrow> map_ok (services r) \<and> map_ok (handles r) \<and> (\<forall>cmds \<in> snd ` set (services r). cmds_ok cmds)
     \<and> (\<forall>ss \<in> snd ` set (handles r). map_ok ss \<and> (\<forall>(k, v) \<in> set ss. k = v \<and> k \<in> fst ` set (services r)))"
  by (simp add: reg_ok_def cmds_ok_def)

text \<open>Replacing the commands of a service keeps the invariant if they are well formed.\<close>

lemma reg_ok_put_cmds:
  assumes "reg_ok r" and "cmds_ok cmds"
  shows "reg_ok (r\<lparr>services := map_put nm cmds (services r)\<rparr>)"
  using assms map_put_snd by (fastforce simp: reg_ok_alt fst_set_map_put)

lemma cmds_ok_put:
  assumes "cmds_ok cmds" and "map_ok (formats sc)" and "\<forall>(k, v) \<in> set (formats sc). k = v"
  shows "cmds_ok (map_put c sc cmds)"
  using assms map_put_snd by (fastforce simp: cmds_ok_def)

lemma reg_ok_find: "reg_ok r \<Longrightarrow> map_find (services r) nm = Some cmds \<Longrightarrow> cmds_ok cmds"
  using map_find_in by (fastforce simp: reg_ok_alt)

lemma formats_put:
  "\<forall>(k, v) \<in> set m. k = v \<Longrightarrow> \<forall>(k, v) \<in> set (map_put (f::string) f m). k = v"
  using set_map_put_subset [of f f m] by fastforce

lemma add_service_ok: "reg_ok r \<Longrightarrow> add_service nm r = Inr r' \<Longrightarrow> reg_ok r'"
  by (auto simp: add_service_def cmds_ok_def intro!: reg_ok_put_cmds split: option.splits)

lemma add_to_service_ok:
  assumes "reg_ok r" and "add_to_service nm cmd d f r = Inr r'"
  shows "reg_ok r'"
proof -
  from assms(2) obtain cmds where c: "map_find (services r) nm = Some cmds"
    "r' = r\<lparr>services := map_put nm (map_put cmd \<lparr>description = d, formats = map_put f f []\<rparr> cmds) (services r)\<rparr>"
    by (auto simp: add_to_service_def Let_def split: option.splits)
  have "cmds_ok (map_put cmd \<lparr>description = d, formats = map_put f f []\<rparr> cmds)"
    using reg_ok_find [OF assms(1) c(1)] by (intro cmds_ok_put) (auto simp: map_ok_Cons)
  with assms(1) c(2) show ?thesis by (simp add: reg_ok_put_cmds)
qed

lemma add_format_ok:
  assumes "reg_ok r" and "add_format nm cmd f r = Inr r'"
  shows "reg_ok r'"
proof -
  from assms(2) obtain cmds sc where c: "map_find (services r) nm = Some cmds" "map_find cmds cmd = Some sc"
    "r' = r\<lparr>services := map_put nm (map_put cmd (sc\<lparr>formats := map_put f f (formats sc)\<rparr>) cmds) (services r)\<rparr>"
    by (auto simp: add_format_def split: option.splits)
  have ok: "cmds_ok cmds" by (rule reg_ok_find [OF assms(1) c(1)])
  then have "map_ok (formats sc)" "\<forall>(k, v) \<in> set (formats sc). k = v"
    using map_find_in [OF c(2)] by (auto simp: cmds_ok_def)
  then have "cmds_ok (map_put cmd (sc\<lparr>formats := map_put f f (formats sc)\<rparr>) cmds)"
    using ok formats_put by (intro cmds_ok_put) auto
  with assms(1) c(3) show ?thesis by (simp add: reg_ok_put_cmds)
qed

lemma handles_put_ok:
  assumes "reg_ok r" and "map_ok ss" and "\<forall>(k, v) \<in> set ss. k = v \<and> k \<in> fst ` set (services r)"
  shows "reg_ok (r\<lparr>handles := map_put h ss (handles r)\<rparr>)"
  using assms map_put_snd by (fastforce simp: reg_ok_alt)

lemma handles_service_registered:
  assumes "handles_service h nm r = Inr r'"
  shows "nm \<in> fst ` set (services r)"
proof (rule ccontr)
  assume "nm \<notin> fst ` set (services r)"
  then have "map_find (services r) nm = None" by (rule iffD2 [OF map_of_eq_None_iff])
  with assms show False unfolding handles_service_def by (simp only: option.case sum.distinct)
qed

lemma handles_service_cases:
  assumes "handles_service h nm r = Inr r'"
  shows "r' = r \<or> (\<exists>ss. (ss = [] \<or> map_find (handles r) h = Some ss) \<and>
    r' = r\<lparr>handles := map_put h (map_put nm nm ss) (handles r)\<rparr>)"
  using assms by (auto simp: handles_service_def split: option.splits)

lemma handles_pairs_put:
  assumes "\<forall>(k, v) \<in> set ss. k = v \<and> k \<in> S" and "nm \<in> S"
  shows "\<forall>(k, v) \<in> set (map_put nm nm ss). k = v \<and> k \<in> S"
  using assms set_map_put_subset [of nm nm ss] by fastforce

lemma handles_service_ok:
  assumes "reg_ok r" and "handles_service h nm r = Inr r'"
  shows "reg_ok r'"
  using handles_service_cases [OF assms(2)]
proof (elim disjE exE conjE)
  fix ss assume ss: "map_find (handles r) h = Some ss" and
    r': "r' = r\<lparr>handles := map_put h (map_put nm nm ss) (handles r)\<rparr>"
  have "\<forall>ss \<in> snd ` set (handles r). map_ok ss \<and> (\<forall>(k, v) \<in> set ss. k = v \<and> k \<in> fst ` set (services r))"
    using assms(1) unfolding reg_ok_alt by (elim conjE)
  note ok = bspec [OF this map_find_in [OF ss]]
  show ?thesis unfolding r'
    by (rule handles_put_ok [OF assms(1) map_ok_put [OF conjunct1 [OF ok]]
          handles_pairs_put [OF conjunct2 [OF ok] handles_service_registered [OF assms(2)]]])
next
  fix ss :: "(string, string) stdmap"
  assume "ss = []" and r': "r' = r\<lparr>handles := map_put h (map_put nm nm ss) (handles r)\<rparr>"
  then show ?thesis unfolding r' using handles_service_registered [OF assms(2)]
    by (intro handles_put_ok [OF assms(1)] handles_pairs_put map_ok_put) simp_all
qed (use assms(1) in simp)

lemma map_ok_map_snd: "map_ok (map (\<lambda>(k, v). (k, f k v)) m) \<longleftrightarrow> map_ok m"
  by (simp add: map_ok_def comp_def case_prod_beta)

lemma map_find_map_snd:
  "map_find (map (\<lambda>(k, v). (k, f k v)) m) k = map_option (f k) (map_find m k)"
  by (induction m) auto

lemma map_erase_absent: "map_find m k = None \<Longrightarrow> map_erase k m = m"
  by (induction m) (auto simp: map_erase_def split: if_splits)

lemma remove_service_eq:
  "remove_service nm r =
     (case map_find (services r) nm of
        None \<Rightarrow> r
      | Some _ \<Rightarrow> r\<lparr>services := map_erase nm (services r),
                    handles := map (\<lambda>(h, ss). (h, map_erase nm ss)) (handles r)\<rparr>)"
proof -
  have "(case map_find ss nm of Some _ \<Rightarrow> map_erase nm ss | None \<Rightarrow> ss) = map_erase nm ss" for ss :: "(string, string) stdmap"
    by (simp add: map_erase_absent split: option.splits)
  then show ?thesis by (simp add: remove_service_def split: option.splits)
qed

lemma remove_service_ok:
  assumes "reg_ok r"
  shows "reg_ok (remove_service nm r)"
proof (cases "map_find (services r) nm")
  case None
  with assms show ?thesis by (simp add: remove_service_eq)
next
  case (Some cmds)
  let ?s = "map_erase nm (services r)" and ?h = "map (\<lambda>(h, ss). (h, map_erase nm ss)) (handles r)"
  have f: "fst ` set ?s = fst ` set (services r) - {nm}"
    by (auto simp: map_erase_def)
  have "map_ok ?s" "map_ok ?h" using assms by (auto simp: reg_ok_alt map_ok_map_snd)
  moreover have "\<forall>cmds \<in> snd ` set ?s. cmds_ok cmds" using assms by (auto simp: reg_ok_alt map_erase_def)
  moreover have "\<forall>ss \<in> snd ` set ?h. map_ok ss \<and> (\<forall>(k, v) \<in> set ss. k = v \<and> k \<in> fst ` set ?s)"
  proof
    fix x assume "x \<in> snd ` set ?h"
    then obtain h ss where ss: "(h, ss) \<in> set (handles r)" "x = map_erase nm ss" by auto
    then have "map_ok ss" "\<forall>(k, v) \<in> set ss. k = v \<and> k \<in> fst ` set (services r)"
      using assms by (auto simp: reg_ok_alt)
    then show "map_ok x \<and> (\<forall>(k, v) \<in> set x. k = v \<and> k \<in> fst ` set ?s)"
      unfolding f using ss(2) by (auto simp: map_erase_def [of nm ss] map_ok_erase [unfolded map_erase_def])
  qed
  ultimately show ?thesis using Some by (simp add: remove_service_eq reg_ok_alt)
qed

lemma reg_reachable_ok: "reg_reachable r \<Longrightarrow> reg_ok r"
proof (induction rule: reg_reachable.induct)
  case 1
  then show ?case by (simp add: empty_registry_def reg_ok_def)
next
  case (2 r r')
  have att: "reg_ok (attempt f r)" if "\<And>r'. f r = Inr r' \<Longrightarrow> reg_ok r'" for f
    using that 2(3) by (cases "f r") (simp_all add: attempt_def)
  from 2(2) show ?case
  proof cases
    case (1 nm)
    then show ?thesis using att add_service_ok [OF 2(3)] by blast
  next
    case (2 nm cmd d f)
    then show ?thesis using att add_to_service_ok [OF \<open>reg_ok r\<close>] by blast
  next
    case (3 nm cmd f)
    then show ?thesis using att add_format_ok [OF \<open>reg_ok r\<close>] by blast
  next
    case (4 h nm)
    then show ?thesis using att handles_service_ok [OF \<open>reg_ok r\<close>] by blast
  next
    case (5 nm)
    then show ?thesis using remove_service_ok [OF \<open>reg_ok r\<close>] by blast
  qed
qed

lemma closed_show_services: "closed (show_services r)"
proof -
  have fmts: "closed (map (\<lambda>(f, y). Add_tag ''format'' [] (Some [(''name'', f)])) m)"
    for m :: "(string, string) stdmap" by (induction m) auto
  show ?thesis unfolding show_services_def
    by (intro closed_concat) (auto intro!: closed_tagged closed_concat fmts closed_Add_tag simp del: append_Cons)
qed

subsection \<open>Properties of the registries\<close>

lemma does_handle_pairs:
  assumes "reg_ok r" and "map_find (handles r) h = Some ss"
  shows "map_ok ss" and "\<forall>(k, v) \<in> set ss. k = v \<and> k \<in> fst ` set (services r)"
proof -
  have "\<forall>ss \<in> snd ` set (handles r). map_ok ss \<and> (\<forall>(k, v) \<in> set ss. k = v \<and> k \<in> fst ` set (services r))"
    using assms(1) unfolding reg_ok_alt by (elim conjE)
  note ok = bspec [OF this map_find_in [OF assms(2)]]
  from ok show "map_ok ss" by (rule conjunct1)
  from ok show "\<forall>(k, v) \<in> set ss. k = v \<and> k \<in> fst ` set (services r)" by (rule conjunct2)
qed

lemma does_handle_iff:
  "does_handle_service h s r \<longleftrightarrow> (\<exists>ss. map_find (handles r) h = Some ss \<and> s \<in> fst ` set ss)"
proof (cases "map_find (handles r) h")
  case None
  show ?thesis unfolding does_handle_service_def None option.case by simp
next
  case (Some ss)
  show ?thesis unfolding does_handle_service_def Some option.case by (simp add: map_of_eq_None_iff)
qed

lemma service_available_iff: "service_available s [] f r \<longleftrightarrow> s \<in> fst ` set (services r)"
proof (cases "map_find (services r) s")
  case None
  then have "s \<notin> fst ` set (services r)" by (rule iffD1 [OF map_of_eq_None_iff])
  then show ?thesis unfolding service_available_def None option.case by simp
next
  case (Some cmds)
  then have "(s, cmds) \<in> set (services r)" by (rule map_of_SomeD)
  then have "s \<in> fst ` set (services r)" by (rule image_eqI [rotated]) simp
  then show ?thesis unfolding service_available_def Some option.case by simp
qed

lemma handled_service_available_aux:
  assumes "reg_reachable r" and "does_handle_service handler service r"
  shows "service_available service [] [] r"
proof -
  obtain ss where ss: "map_find (handles r) handler = Some ss" "service \<in> fst ` set ss"
    using assms(2) by (auto simp only: does_handle_iff)
  then obtain v where "(service, v) \<in> set ss" by auto
  from bspec [OF does_handle_pairs(2) [OF reg_reachable_ok [OF assms(1)] ss(1)] this]
  have "service = v \<and> service \<in> fst ` set (services r)" unfolding prod.case .
  then show ?thesis unfolding service_available_iff by (rule conjunct2)
qed

text \<open>
  C11: In every state the service registry can reach, through any sequence of successful and
  failing registrations and removals, a service that some handler is said to provide is a
  service the registry has.
\<close>

theorem handled_service_available:
  assumes "reg_reachable r" and "does_handle_service handler service r"
  shows "service_available service [] [] r"
  using assms by (rule handled_service_available_aux)

theorem handled_service_available_witness:
  "service_available ''dap'' [] []
     (attempt (handles_service ''nc'' ''dap'') (attempt (add_service ''dap'') empty_registry))"
proof (rule handled_service_available)
  have "reg_reachable (attempt (add_service ''dap'') empty_registry)"
    by (rule reg_reachable.intros(2) [OF reg_reachable.intros(1) reg_step.intros(1)])
  then show "reg_reachable (attempt (handles_service ''nc'' ''dap'') (attempt (add_service ''dap'') empty_registry))"
    by (rule reg_reachable.intros(2) [OF _ reg_step.intros(4)])
  show "does_handle_service ''nc'' ''dap''
      (attempt (handles_service ''nc'' ''dap'') (attempt (add_service ''dap'') empty_registry))"
    by code_simp
qed

text \<open>
  C12: \<^verbatim>\<open>remove_service\<close> removes the service, all its commands and every handler's claim to it,
  and changes nothing about any other service or handler.
\<close>

theorem remove_service_exact:
  assumes "reg_reachable r"
  shows "service_available s c f (remove_service nm r) = (s \<noteq> nm \<and> service_available s c f r)
    \<and> does_handle_service h s (remove_service nm r) = (s \<noteq> nm \<and> does_handle_service h s r)"
proof (cases "map_find (services r) nm")
  case None
  have "\<not> service_available nm [] [] r" by (simp add: service_available_def None)
  then have "\<not> does_handle_service h nm r" using handled_service_available_aux assms by blast
  moreover have "\<not> service_available nm c f r" by (simp add: service_available_def None)
  ultimately show ?thesis by (auto simp: remove_service_eq None)
next
  case (Some cmds)
  then show ?thesis
    by (auto simp: remove_service_eq service_available_def does_handle_service_def map_find_map_snd
        split: option.splits)
qed

theorem remove_service_exact_witness:
  "\<not> does_handle_service ''nc'' ''dap'' (remove_service ''dap'' (attempt (add_service ''dap'') empty_registry))"
  using remove_service_exact [of "attempt (add_service ''dap'') empty_registry" "''dap''" "[]" "[]" "''dap''" "''nc''"]
    reg_reachable.intros(2) [OF reg_reachable.intros(1) reg_step.intros(1) [of empty_registry "''dap''"]]
  by simp

text \<open>
  \<^verbatim>\<open>services_handled\<close> appends exactly the services that \<^verbatim>\<open>does_handle_service\<close> confirms
  for the handler, each once and in order.
\<close>

theorem services_handled_exact:
  assumes "reg_reachable r"
  shows "\<exists>l. services_handled h acc r = acc @ l \<and> set l = {s. does_handle_service h s r}
    \<and> sorted_wrt (<) l"
proof (cases "map_find (handles r) h")
  case None
  then show ?thesis by (simp add: services_handled_def does_handle_service_def)
next
  case (Some ss)
  note ok = does_handle_pairs [OF reg_reachable_ok [OF assms] Some]
  have "\<forall>p \<in> set ss. snd p = fst p" using ok(2) by auto
  then have "map snd ss = map fst ss" by simp
  then have "services_handled h acc r = acc @ map fst ss" using Some by (simp add: services_handled_def)
  moreover have "set (map fst ss) = {s. does_handle_service h s r}" using Some by (auto simp: does_handle_iff)
  ultimately show ?thesis using ok(1) unfolding map_ok_def by blast
qed

theorem services_handled_exact_witness:
  "\<exists>l. services_handled ''nc'' [''x''] (attempt (add_service ''dap'') empty_registry) = [''x''] @ l
    \<and> set l = {s. does_handle_service ''nc'' s (attempt (add_service ''dap'') empty_registry)} \<and> sorted_wrt (<) l"
  by (rule services_handled_exact [OF reg_reachable.intros(2) [OF reg_reachable.intros(1) reg_step.intros(1)]])

text \<open>
  \<^verbatim>\<open>add_format\<close>, when it succeeds, makes exactly the new format of that command of that
  service available and nothing else.
\<close>

theorem add_format_exact:
  assumes "add_format service cmd format r = Inr r'" and "c \<noteq> []" and "f \<noteq> []"
  shows "service_available s c f r' \<longleftrightarrow> service_available s c f r \<or> (s = service \<and> c = cmd \<and> f = format)"
  using assms by (auto simp: add_format_def service_available_def split: option.splits if_splits)

theorem add_format_exact_witness:
  "service_available ''dap'' ''das'' ''nc''
     \<lparr>services = [(''dap'', [(''das'', \<lparr>description = [], formats = [(''nc'', ''nc'')]\<rparr>)])], handles = []\<rparr>"
proof -
  have "add_format ''dap'' ''das'' ''nc''
      \<lparr>services = [(''dap'', [(''das'', \<lparr>description = [], formats = []\<rparr>)])], handles = []\<rparr> =
    Inr \<lparr>services = [(''dap'', [(''das'', \<lparr>description = [], formats = [(''nc'', ''nc'')]\<rparr>)])], handles = []\<rparr>"
    by (simp add: add_format_def)
  from add_format_exact [OF this, of "''das''" "''nc''" "''dap''"] show ?thesis by simp
qed

text \<open>
  What \<^verbatim>\<open>get_context_int\<close> returns for a context that was set to the decimal text of any
  integer: the integer itself when it fits an \<^verbatim>\<open>int\<close>; its value modulo \<open>2 ^ 32\<close>, without an
  error, when it only fits a \<^verbatim>\<open>long\<close>; -1, also without an error, when it is above
  \<^verbatim>\<open>LONG_MAX\<close>, since \<^verbatim>\<open>errno\<close> is tested only for the result 0; an error below \<^verbatim>\<open>LONG_MIN\<close>.
  A context that was unset is 0 and not found.
\<close>

theorem get_context_int_spec:
  "get_context_int nm (unset_context nm m) = Inr (0, False)
   \<and> (case get_context_int nm (set_context nm (int_text i) m) of
        Inl e \<Rightarrow> i < LONG_MIN
      | Inr (v, found) \<Rightarrow> found \<and> LONG_MIN \<le> i \<and> v = (if LONG_MAX < i then - 1 else int_of_long i)
          \<and> (- (2 ^ 31) \<le> i \<and> i < 2 ^ 31 \<longrightarrow> v = i))"
proof -
  have ne: "int_text i \<noteq> []" using nat_text_digits by (simp add: int_text_def)
  have s: "strtol (int_text i) = (if i > LONG_MAX then (LONG_MAX, True) else if i < LONG_MIN then (LONG_MIN, True) else (i, False))"
    using scan_int_text [of "[]" i] by (simp add: strtol_def Let_def)
  have ends: "int_of_long LONG_MAX = - 1" "int_of_long LONG_MIN = 0" "LONG_MIN < LONG_MAX"
    by (simp_all add: int_of_long_def LONG_MAX_def LONG_MIN_def)
  have small: "LONG_MIN \<le> i \<and> \<not> LONG_MAX < i \<and> int_of_long i = i" if "- (2 ^ 31) \<le> i" "i < 2 ^ 31"
    using that by (simp add: LONG_MAX_def LONG_MIN_def int_of_long_id)
  have set: "get_context_int nm (set_context nm (int_text i) m) =
      (let (n, erange) = strtol (int_text i); v = int_of_long n
       in if v = 0 \<and> erange then
            Inl (BESInternalError (''Error reading an integer value for the context '' @ [CHR 0x27] @ nm
                   @ [CHR 0x27] @ '': Numerical result out of range''))
          else Inr (v, True))"
    using ne by (simp add: get_context_int_def get_context_def set_context_def)
  have "get_context_int nm (unset_context nm m) = Inr (0, False)"
    by (simp add: get_context_int_def get_context_def unset_context_def)
  moreover consider "i < LONG_MIN" | "LONG_MAX < i" | "LONG_MIN \<le> i" "i \<le> LONG_MAX" by linarith
  then have "case get_context_int nm (set_context nm (int_text i) m) of
        Inl e \<Rightarrow> i < LONG_MIN
      | Inr (v, found) \<Rightarrow> found \<and> LONG_MIN \<le> i \<and> v = (if LONG_MAX < i then - 1 else int_of_long i)
          \<and> (- (2 ^ 31) \<le> i \<and> i < 2 ^ 31 \<longrightarrow> v = i)"
    unfolding set s using ends small by cases auto
  ultimately show ?thesis by blast
qed

theorem get_context_int_spec_witness:
  "get_context_int ''n'' (set_context ''n'' (int_text (- 7)) []) = Inr (- 7, True)"
  using get_context_int_spec [of "''n''" "[]" "- 7"]
  by (auto simp: LONG_MIN_def split: sum.splits)

end
