(* ===== verification/Bes_Keys.thy ===== *)
theory Bes_Keys
  imports Bes_Util Std_Map Std_Numbers
begin

text \<open>
  The configuration: \<^verbatim>\<open>dispatch/kvp_utils.cc\<close>, which reads key/value files and the files
  they include, and \<^verbatim>\<open>dispatch/TheBESKeys.cc\<close>, which keeps the keys; with
  \<^verbatim>\<open>BESFSFile\<close> and \<^verbatim>\<open>BESFSDir\<close>, through which included files are found.

  The operating system is a parameter: \<open>kvp_env\<close> holds what opening a file and listing a
  directory yield, whether reading a file fails before its end, and the regular expression
  match of \<^verbatim>\<open>BESRegex\<close> (POSIX \<^verbatim>\<open>regexec\<close>).
  Loading recurses into included files, so \<open>load_keys\<close> takes fuel for the depth; the
  number of files that can be opened is always enough.
\<close>

subsection \<open>Breaking a line apart\<close>

definition only_blanks :: "string \<Rightarrow> bool" where
  "only_blanks line \<longleftrightarrow> find_first_not_of line '' '' 0 = None"

text \<open>The loop over the characters: \<open>Some (pos, addto)\<close> when an equals sign ends it;
  the inner error is a plus sign that does not stand just before the equals sign.\<close>

fun break_scan :: "string \<Rightarrow> nat \<Rightarrow> nat \<Rightarrow> bool \<Rightarrow> (nat \<times> bool) option option" where
  "break_scan [] j pos addto = Some None"
| "break_scan (c # cs) j pos addto =
     (if c = CHR ''='' then
        if \<not> addto then Some (Some (j, addto))
        else if int pos \<noteq> int j - 1 then None
        else Some (Some (pos, addto))
      else if c = CHR ''+'' then break_scan cs (j + 1) j True
      else break_scan cs (j + 1) pos addto)"

definition break_pair :: "string \<Rightarrow> (string \<times> string \<times> bool) option result" where
  "break_pair b =
     (if b \<noteq> [] \<and> hd b = CHR ''#'' \<or> only_blanks b then Inr None
      else if length b > 1 then
        (case break_scan b 0 0 False of
           None \<Rightarrow>
             Inl (BESInternalFatalError (''BES: Invalid entry '' @ b @ '' in configuration file ''
                    @ '' '' @ [CHR 0x27] @ ''+'' @ [CHR 0x27] @ '' character found in variable name''
                    @ '' or attempting '' @ [CHR 0x27] @ ''+='' @ [CHR 0x27] @ '' with space''
                    @ '' between the characters.'' @ [CHR 0x0A]))
         | Some None \<Rightarrow>
             Inl (BESInternalFatalError (''BES: Invalid entry '' @ b @ '' in configuration file ''
                    @ '' '' @ [CHR 0x27] @ ''='' @ [CHR 0x27] @ '' character not found.'' @ [CHR 0x0A]))
         | Some (Some (pos, addto)) \<Rightarrow>
             Inr (Some (removeLeadingAndTrailingBlanks (substr b 0 pos),
                        removeLeadingAndTrailingBlanks (drop (if addto then pos + 2 else pos + 1) b),
                        addto)))
      else Inr None)"

subsection \<open>The key store\<close>

type_synonym keystore = "(string, string list) stdmap"

definition set_key :: "string \<Rightarrow> string \<Rightarrow> bool \<Rightarrow> keystore \<Rightarrow> keystore" where
  "set_key key val addto ks =
     (let ks = (case map_find ks key of None \<Rightarrow> map_put key [] ks | Some _ \<Rightarrow> ks);
          old = (case map_find ks key of None \<Rightarrow> [] | Some vs \<Rightarrow> vs);
          vs = (if addto then old else [])
      in map_put key (if val \<noteq> [] then vs @ [val] else vs) ks)"

definition set_keys :: "string \<Rightarrow> string list \<Rightarrow> bool \<Rightarrow> keystore \<Rightarrow> keystore" where
  "set_keys key values addto ks =
     (let ks = (case map_find ks key of None \<Rightarrow> map_put key [] ks | Some _ \<Rightarrow> ks);
          old = (case map_find ks key of None \<Rightarrow> [] | Some vs \<Rightarrow> vs);
          vs = (if addto then old else [])
      in map_put key (vs @ filter (\<lambda>v. v \<noteq> []) values) ks)"

definition set_keys_map ::
  "string \<Rightarrow> (string, string) stdmap \<Rightarrow> bool \<Rightarrow> bool \<Rightarrow> keystore \<Rightarrow> keystore" where
  "set_keys_map key values case_insensitive_map_keys addto ks =
     (let ks = (case map_find ks key of None \<Rightarrow> map_put key [] ks | Some _ \<Rightarrow> ks);
          old = (case map_find ks key of None \<Rightarrow> [] | Some vs \<Rightarrow> vs);
          vs = (if addto then old else [])
      in map_put key
           (vs @ map (\<lambda>(k, v). (if case_insensitive_map_keys then lowercase k else k) @ '':'' @ v)
                   (filter (\<lambda>(k, v). k \<noteq> []) values)) ks)"

text \<open>\<^verbatim>\<open>TheBESKeys::set_key(pair)\<close> ignores whether \<^verbatim>\<open>break_pair\<close> found a pair; without one
  the key and the value are empty.\<close>

definition set_key_pair :: "string \<Rightarrow> keystore \<Rightarrow> keystore result" where
  "set_key_pair pair ks =
     res_bind (break_pair (takeWhile (\<lambda>c. c \<noteq> CHR 0x00) pair)) (\<lambda>r.
       case r of
         None \<Rightarrow> Inr (set_key [] [] False ks)
       | Some (key, val, addto) \<Rightarrow> Inr (set_key key val addto ks))"

text \<open>\<^const>\<open>None\<close> is \<^verbatim>\<open>found == false\<close>, which leaves the caller's value alone.\<close>

definition get_value :: "string \<Rightarrow> keystore \<Rightarrow> string option result" where
  "get_value s ks =
     (case map_find ks s of
        None \<Rightarrow> Inr None
      | Some vs \<Rightarrow>
          if length vs > 1 then
            Inl (BESInternalError (''Multiple values for the key '' @ s @ '' found, should only be one.''))
          else if length vs = 1 then Inr (Some (hd vs))
          else Inr (Some []))"

definition get_values :: "string \<Rightarrow> string list \<Rightarrow> keystore \<Rightarrow> string list \<times> bool" where
  "get_values s vals ks =
     (case map_find ks s of None \<Rightarrow> (vals, False) | Some vs \<Rightarrow> (vals @ vs, True))"

definition read_bool_key :: "string \<Rightarrow> bool \<Rightarrow> keystore \<Rightarrow> bool result" where
  "read_bool_key key default_value ks =
     res_bind (get_value key ks) (\<lambda>r.
       case r of
         Some v \<Rightarrow> (let v = lowercase v in Inr (v = ''true'' \<or> v = ''yes'' \<or> v = ''on''))
       | None \<Rightarrow> Inr default_value)"

definition read_string_key :: "string \<Rightarrow> string \<Rightarrow> keystore \<Rightarrow> string result" where
  "read_string_key key default_value ks =
     res_bind (get_value key ks) (\<lambda>r.
       case r of Some v \<Rightarrow> Inr (trim_if_trailing_slash v) | None \<Rightarrow> Inr default_value)"

text \<open>\<^verbatim>\<open>iss >> int_val\<close>: \<open>Some\<close> of the number when it fits an \<^verbatim>\<open>int\<close>, and the rest of
  the text; \<^const>\<open>None\<close> when the stream fails.\<close>

definition extract_int :: "string \<Rightarrow> (int \<times> string) option" where
  "extract_int s =
     (let (v, rest) = scan_int s
      in if rest = s then None
         else if - (2 ^ 31) \<le> v \<and> v < 2 ^ 31 then Some (v, rest) else None)"

definition read_int_key :: "string \<Rightarrow> int \<Rightarrow> keystore \<Rightarrow> int result" where
  "read_int_key key default_value ks =
     res_bind (get_value key ks) (\<lambda>r.
       case r of
         Some v \<Rightarrow>
           (case extract_int v of
              None \<Rightarrow> Inr default_value
            | Some (n, rest) \<Rightarrow> if rest \<noteq> [] then Inr default_value else Inr n)
       | None \<Rightarrow> Inr default_value)"

definition get_as_config :: "keystore \<Rightarrow> string" where
  "get_as_config ks =
     [CHR 0x0A] @ ''# TheBESKeys::get_as_config()'' @ [CHR 0x0A] @
     (if ks \<noteq> [] then
        concat (map (\<lambda>(nm, vs).
          concat (map (\<lambda>(i, v). nm @ (if i = 0 then ''='' else ''+='') @ v @ [CHR 0x0A])
                   (zip [0::nat..<length vs] vs))) ks)
      else ''# TheBESKeys are empty()'' @ [CHR 0x0A])"

definition parse_map_record :: "string \<Rightarrow> bool \<Rightarrow> (string \<times> string) option" where
  "parse_map_record map_record case_insensitive_map_keys =
     (case str_find_char map_record (CHR '':'') 0 of
        Some i \<Rightarrow>
          if i > 0 then
            Some (if case_insensitive_map_keys then lowercase (substr map_record 0 i) else substr map_record 0 i,
                  drop (i + 1) map_record)
          else None
      | None \<Rightarrow> None)"

definition get_values_map ::
  "string \<Rightarrow> (string, string) stdmap \<Rightarrow> bool \<Rightarrow> keystore \<Rightarrow> (string, string) stdmap \<times> bool" where
  "get_values_map key map_values case_insensitive_map_keys ks =
     (let (values, found) = get_values key [] ks
      in if \<not> found then (map_values, False)
         else (fold (\<lambda>rec m. case parse_map_record rec case_insensitive_map_keys of
                               Some (k, v) \<Rightarrow> map_insert k v m
                             | None \<Rightarrow> m) values map_values, True))"

definition primary_put ::
  "string \<Rightarrow> string \<Rightarrow> string \<Rightarrow> (string, (string, string list) stdmap) stdmap
    \<Rightarrow> (string, (string, string list) stdmap) stdmap" where
  "primary_put pk sk sv m =
     (case map_find m pk of
        Some secondary \<Rightarrow>
          (case map_find secondary sk of
             Some vs \<Rightarrow> map_put pk (map_put sk (vs @ [sv]) secondary) m
           | None \<Rightarrow> map_put pk (map_insert sk [sv] secondary) m)
      | None \<Rightarrow> map_insert pk (map_insert sk [sv] []) m)"

definition get_values_primary ::
  "string \<Rightarrow> (string, (string, string list) stdmap) stdmap \<Rightarrow> bool \<Rightarrow> keystore
    \<Rightarrow> (string, (string, string list) stdmap) stdmap \<times> bool" where
  "get_values_primary key primary_map ci ks =
     (let (values, found) = get_values key [] ks
      in if \<not> found then (primary_map, False)
         else (fold (\<lambda>rec m. case parse_map_record rec ci of
                               None \<Rightarrow> m
                             | Some (pk, pv) \<Rightarrow>
                                 (case parse_map_record pv ci of
                                    None \<Rightarrow> m
                                  | Some (sk, sv) \<Rightarrow> primary_put pk sk sv m)) values primary_map, True))"

subsection \<open>Files and directories\<close>

record fs_file =
  dirName :: string
  fileName :: string
  baseName :: string
  extension :: string

definition breakExtension :: "fs_file \<Rightarrow> fs_file" where
  "breakExtension f =
     (case find_last_of (fileName f) (CHR ''.'') of
        Some pos \<Rightarrow> f\<lparr>baseName := substr (fileName f) 0 pos,
                      extension := substr (fileName f) (pos + 1) (length (fileName f) - pos)\<rparr>
      | None \<Rightarrow> f\<lparr>baseName := fileName f\<rparr>)"

definition breakApart :: "string \<Rightarrow> fs_file" where
  "breakApart fullPath =
     breakExtension
       (case find_last_of fullPath (CHR ''/'') of
          Some pos \<Rightarrow> \<lparr>dirName = substr fullPath 0 pos,
                       fileName = substr fullPath (pos + 1) (length fullPath - pos),
                       baseName = [], extension = []\<rparr>
        | None \<Rightarrow> \<lparr>dirName = ''./'', fileName = fullPath, baseName = [], extension = []\<rparr>)"

definition getFullPath :: "fs_file \<Rightarrow> string" where
  "getFullPath f = dirName f @ ''/'' @ fileName f"

definition hasDotDot :: "fs_file \<Rightarrow> bool" where
  "hasDotDot f \<longleftrightarrow> str_find (getFullPath f) ''..'' 0 \<noteq> None"

text \<open>
  What the system says about the files: the contents of a file that can be opened, or what
  of them is read until reading fails for a file of \<open>read_fails\<close> (a directory can be opened,
  but not read), the
  entries of a directory in the order of \<^verbatim>\<open>readdir\<close>, each with \<open>Some True\<close> for a
  directory, \<open>Some False\<close> for another file and \<^const>\<open>None\<close> when \<^verbatim>\<open>stat\<close> fails, and the length
  that a regular expression matches at the start of a name, or an error.
\<close>

record kvp_env =
  open_keys :: "string \<Rightarrow> string option"
  read_fails :: "string \<Rightarrow> bool"
  read_dir :: "string \<Rightarrow> (string \<times> bool option) list option"
  regex_match :: "string \<Rightarrow> string \<Rightarrow> int result"

text \<open>The files of \<^verbatim>\<open>BESFSDir(dirName, fileExpr)\<close>, from \<^verbatim>\<open>loadDir\<close>.\<close>

definition loadDir :: "kvp_env \<Rightarrow> string \<Rightarrow> string \<Rightarrow> fs_file list result" where
  "loadDir env dir fileExpr =
     (case read_dir env dir of
        None \<Rightarrow> Inl (BESNotFoundError (''ERROR: failed to open directory '' @ [CHR 0x27] @ dir @ [CHR 0x27]))
      | Some entries \<Rightarrow>
          fold_res (\<lambda>(nm, st) fs.
            let f = breakExtension \<lparr>dirName = dir, fileName = nm, baseName = [], extension = []\<rparr>
            in if nm = ''.'' \<or> nm = ''..'' then Inr fs
               else if st \<noteq> Some False then Inr fs
               else if fileExpr \<noteq> [] then
                 res_bind (regex_match env fileExpr nm) (\<lambda>n.
                   if n = int (length nm) then Inr (fs @ [f]) else Inr fs)
               else Inr (fs @ [f])) entries [])"

subsection \<open>Loading\<close>

type_synonym load_state = "string set \<times> keystore"

text \<open>The lines \<^verbatim>\<open>getline\<close> yields until the end of the file is reached, the last one
  included, even when it is empty.\<close>

fun file_lines :: "string \<Rightarrow> string list" where
  "file_lines [] = [[]]"
| "file_lines (c # cs) =
     (if c = CHR 0x0A then [] # file_lines cs
      else case file_lines cs of [] \<Rightarrow> [[c]] | l # ls \<Rightarrow> (c # l) # ls)"

definition include_dir :: "string \<Rightarrow> string \<Rightarrow> string" where
  "include_dir current_keys_file_name file_expr =
     (let allfiles = breakApart file_expr; alldir = dirName allfiles
      in if file_expr \<noteq> [] \<and> hd file_expr = CHR ''/'' then alldir
         else
           (let currdir = dirName (breakApart current_keys_file_name)
            in if (currdir = ''./'' \<or> currdir = ''.'') \<and> (alldir = ''./'' \<or> alldir = ''.'') then ''./''
               else if alldir = ''./'' \<or> alldir = ''.'' then currdir
               else currdir @ ''/'' @ alldir))"

text \<open>A step that may recurse: \<^const>\<open>None\<close> is running out of fuel.\<close>

fun fold_opt :: "('a \<Rightarrow> 's \<Rightarrow> 's result option) \<Rightarrow> 'a list \<Rightarrow> 's \<Rightarrow> 's result option" where
  "fold_opt f [] s = Some (Inr s)"
| "fold_opt f (x # xs) s =
     (case f x s of
        None \<Rightarrow> None
      | Some (Inl e) \<Rightarrow> Some (Inl e)
      | Some (Inr s') \<Rightarrow> fold_opt f xs s')"

text \<open>In what follows \<open>load\<close> is \<^verbatim>\<open>load_keys(file, ...)\<close> for an included file.\<close>

definition load_include_file ::
  "(string \<Rightarrow> load_state \<Rightarrow> load_state result option) \<Rightarrow> string \<Rightarrow> load_state \<Rightarrow> load_state result option" where
  "load_include_file load file st =
     (if file \<in> fst st then Some (Inr st) else load file (insert file (fst st), snd st))"

definition load_include_files ::
  "(string \<Rightarrow> load_state \<Rightarrow> load_state result option) \<Rightarrow> kvp_env \<Rightarrow> string \<Rightarrow> string \<Rightarrow> load_state
    \<Rightarrow> load_state result option" where
  "load_include_files load env current_keys_file_name file_expr st =
     (case loadDir env (include_dir current_keys_file_name file_expr) (fileName (breakApart file_expr)) of
        Inl e \<Rightarrow> Some (Inl e)
      | Inr fs \<Rightarrow> fold_opt (\<lambda>f. load_include_file load (getFullPath f)) fs st)"

definition BES_INCLUDE_KEY :: string where
  "BES_INCLUDE_KEY = ''BES.Include''"

definition load_line ::
  "(string \<Rightarrow> load_state \<Rightarrow> load_state result option) \<Rightarrow> kvp_env \<Rightarrow> string \<Rightarrow> string \<Rightarrow> load_state
    \<Rightarrow> load_state result option" where
  "load_line load env current_keys_file_name line st =
     (case break_pair (takeWhile (\<lambda>c. c \<noteq> CHR 0x00) line) of
        Inl e \<Rightarrow> Some (Inl e)
      | Inr None \<Rightarrow> Some (Inr st)
      | Inr (Some (key, val, addto)) \<Rightarrow>
          if key = BES_INCLUDE_KEY then
            load_include_files load env current_keys_file_name val (fst st, set_key key val True (snd st))
          else Some (Inr (fst st, set_key key val addto (snd st))))"

text \<open>
  The loop \<^verbatim>\<open>while (!keys_file.eof())\<close> over the lines still to come.  The last of them sets
  \<^verbatim>\<open>eofbit\<close> and ends the loop, unless reading fails there: then \<^verbatim>\<open>badbit\<close> is set, \<^verbatim>\<open>getline\<close>
  leaves \<open>line\<close> as it is from then on, and the loop goes on with it.  It may thus run forever.
\<close>

partial_function (option) read_lines ::
  "(string \<Rightarrow> load_state \<Rightarrow> load_state result option) \<Rightarrow> bool \<Rightarrow> string \<Rightarrow> string list \<Rightarrow> load_state
    \<Rightarrow> load_state result option" where
  "read_lines f fails line rest st =
     Option.bind (f (if rest = [] then line else hd rest) st) (\<lambda>r.
       case r of
         Inl e \<Rightarrow> Some (Inl e)
       | Inr st' \<Rightarrow>
           if tl rest = [] \<and> \<not> fails then Some (Inr st')
           else read_lines f fails (if rest = [] then line else hd rest) (tl rest) st')"

text \<open>Every error becomes a fatal one; \<open>err\<close> is the text of a failed open.\<close>

definition fatal :: "string \<Rightarrow> bes_error \<Rightarrow> bes_error" where
  "fatal file e =
     (case e of
        BESInternalError m \<Rightarrow> BESInternalFatalError m
      | BESInternalFatalError m \<Rightarrow> BESInternalFatalError m
      | BESSyntaxUserError m \<Rightarrow> BESInternalFatalError m
      | BESForbiddenError m \<Rightarrow> BESInternalFatalError m
      | BESNotFoundError m \<Rightarrow> BESInternalFatalError m
      | BESTimeoutError m \<Rightarrow> BESInternalFatalError m
      | _ \<Rightarrow> BESInternalFatalError
          (''Caught exception load keys from the BES configuration file '' @ [CHR 0x27] @ file @ [CHR 0x27]
           @ '' message:''))"

fun load_keys :: "nat \<Rightarrow> kvp_env \<Rightarrow> string \<Rightarrow> string \<Rightarrow> load_state \<Rightarrow> load_state result option" where
  "load_keys 0 env err keys_file_name st = None"
| "load_keys (Suc fuel) env err keys_file_name st =
     (case open_keys env keys_file_name of
        None \<Rightarrow>
          Some (Inl (BESInternalFatalError (''Cannot open configuration file '' @ [CHR 0x27] @ keys_file_name
                  @ [CHR 0x27] @ '': '' @ err)))
      | Some content \<Rightarrow>
          map_option (\<lambda>r. case r of Inl e \<Rightarrow> Inl (fatal keys_file_name e) | Inr st \<Rightarrow> Inr st)
            (read_lines (load_line (load_keys fuel env err) env keys_file_name) (read_fails env keys_file_name) []
               (file_lines content) (insert keys_file_name (fst st), snd st)))"

record bes_keys =
  d_keys_file_name :: string
  d_the_keys :: keystore
  d_the_original_keys :: keystore
  d_ingested_key_files :: "string set"

definition initialize_keys :: "nat \<Rightarrow> kvp_env \<Rightarrow> string \<Rightarrow> bes_keys \<Rightarrow> bes_keys result option" where
  "initialize_keys fuel env err k =
     map_option (\<lambda>r. case r of
         Inl e \<Rightarrow> Inl e
       | Inr (files, ks) \<Rightarrow> Inr (k\<lparr>d_the_keys := ks, d_the_original_keys := ks, d_ingested_key_files := files\<rparr>))
       (load_keys fuel env err (d_keys_file_name k) (d_ingested_key_files k, d_the_keys k))"

definition LoadedKeys :: "string \<Rightarrow> bes_keys \<Rightarrow> bool" where
  "LoadedKeys key_file k \<longleftrightarrow> key_file \<in> d_ingested_key_files k"

subsection \<open>Loading ends\<close>

text \<open>The loop over a stream that is read to its end is a fold over its lines; the loop over one
  that goes bad never ends normally.\<close>

lemma read_lines_good: "read_lines f False line (l # ls) st = fold_opt f (l # ls) st"
proof (induction ls arbitrary: line l st)
  case Nil
  show ?case by (subst read_lines.simps) (simp split: option.split sum.split)
next
  case (Cons l' ls)
  show ?case by (subst read_lines.simps) (simp add: Cons split: option.split sum.split)
qed

lemma read_lines_bad:
  assumes "read_lines f fails line rest st = Some r"
  shows "fails \<longrightarrow> (\<exists>e. r = Inl e)"
  by (rule read_lines.raw_induct [OF _ assms]) (auto split: sum.splits if_splits bind_splits)

lemma read_lines_hangs:
  assumes "fails" and "\<And>l s e. l \<in> insert line (set rest) \<Longrightarrow> f l s \<noteq> Some (Inl e)"
  shows "read_lines f fails line rest st = None"
proof (rule ccontr)
  assume "read_lines f fails line rest st \<noteq> None"
  then obtain r where r: "read_lines f fails line rest st = Some r" by auto
  have "fails \<longrightarrow> (\<exists>l s e. l \<in> insert line (set rest) \<and> f l s = Some (Inl e))"
  proof (rule read_lines.raw_induct [OF _ r])
    fix rl :: "(string \<Rightarrow> load_state \<Rightarrow> load_state result option) \<Rightarrow> bool \<Rightarrow> string \<Rightarrow> string list \<Rightarrow> load_state
        \<Rightarrow> load_state result option"
      and f :: "string \<Rightarrow> load_state \<Rightarrow> load_state result option" and fails and line :: string and rest st r
    let ?l = "if rest = [] then line else hd rest"
    assume IH: "\<And>f fails line rest st r. rl f fails line rest st = Some r \<Longrightarrow>
        fails \<longrightarrow> (\<exists>l s e. l \<in> insert line (set rest) \<and> f l s = Some (Inl e))"
      and step: "Option.bind (f ?l st) (\<lambda>r. case r of Inl e \<Rightarrow> Some (Inl e)
        | Inr st' \<Rightarrow> if tl rest = [] \<and> \<not> fails then Some (Inr st') else rl f fails ?l (tl rest) st') = Some r"
    have l: "insert ?l (set (tl rest)) \<subseteq> insert line (set rest)" by (cases rest) auto
    show "fails \<longrightarrow> (\<exists>l s e. l \<in> insert line (set rest) \<and> f l s = Some (Inl e))"
    proof
      assume fails
      from step obtain q where q: "f ?l st = Some q" by (cases "f ?l st") simp_all
      show "\<exists>l s e. l \<in> insert line (set rest) \<and> f l s = Some (Inl e)"
      proof (cases q)
        case (Inl e)
        with q l show ?thesis by blast
      next
        case (Inr st')
        with step q \<open>fails\<close> have "rl f fails ?l (tl rest) st' = Some r" by simp
        from IH [OF this] \<open>fails\<close> l show ?thesis by blast
      qed
    qed
  qed
  with assms show False by blast
qed

lemma file_lines_not_Nil [simp]: "file_lines s \<noteq> []"
  by (induction s) (auto split: list.split)

lemma read_lines_file [simp]: "read_lines f False line (file_lines s) st = fold_opt f (file_lines s) st"
  using read_lines_good [of f line "hd (file_lines s)" "tl (file_lines s)" st] by simp

lemma fold_opt_returns:
  assumes "\<And>x s. x \<in> set xs \<Longrightarrow> I s \<Longrightarrow> \<exists>r. f x s = Some r \<and> (\<forall>s'. r = Inr s' \<longrightarrow> I s')" and "I s"
  shows "\<exists>r. fold_opt f xs s = Some r \<and> (\<forall>s'. r = Inr s' \<longrightarrow> I s')"
  using assms
proof (induction xs arbitrary: s)
  case Nil
  then show ?case by simp
next
  case (Cons x xs)
  obtain r where r: "f x s = Some r" "\<forall>s'. r = Inr s' \<longrightarrow> I s'"
    using Cons.prems(1) [of x s] Cons.prems(2) by auto
  show ?case
  proof (cases r)
    case (Inl e)
    with r show ?thesis by simp
  next
    case (Inr s')
    with r Cons.IH [of s'] Cons.prems show ?thesis by simp
  qed
qed

text \<open>The files that can be opened and have not been loaded yet.\<close>

definition unloaded :: "kvp_env \<Rightarrow> string set \<Rightarrow> nat" where
  "unloaded env files = card (dom (open_keys env) - files)"

lemma unloaded_mono: "finite (dom (open_keys env)) \<Longrightarrow> A \<subseteq> B \<Longrightarrow> unloaded env B \<le> unloaded env A"
  unfolding unloaded_def by (intro card_mono) auto

lemma unloaded_insert:
  assumes "finite (dom (open_keys env))" and "g \<in> dom (open_keys env)" and "g \<notin> A"
  shows "unloaded env (insert g A) < unloaded env A"
  unfolding unloaded_def using assms by (intro psubset_card_mono) auto

lemma load_keys_returns:
  assumes "finite (dom (open_keys env))" and readable: "\<forall>g \<in> dom (open_keys env). \<not> read_fails env g"
    and "unloaded env (insert f (fst st)) + (if f \<in> dom (open_keys env) then 1 else 0) < fuel"
  shows "\<exists>r. load_keys fuel env err f st = Some r \<and> (\<forall>st'. r = Inr st' \<longrightarrow> insert f (fst st) \<subseteq> fst st')"
  using assms(3)
proof (induction fuel arbitrary: f st)
  case 0
  then show ?case by simp
next
  case (Suc n)
  show ?case
  proof (cases "open_keys env f")
    case None
    then show ?thesis by simp
  next
    case (Some content)
    then have f: "f \<in> dom (open_keys env)" by auto
    with readable have ok: "\<not> read_fails env f" by blast
    let ?I = "\<lambda>s::load_state. insert f (fst st) \<subseteq> fst s"
    have small: "unloaded env (fst s) < n" if "?I s" for s
      using that Suc.prems f unloaded_mono [OF assms(1), of "insert f (fst st)" "fst s"] by simp
    have incl: "\<exists>r. load_include_file (load_keys n env err) g s = Some r \<and> (\<forall>s'. r = Inr s' \<longrightarrow> ?I s')"
      if s: "?I s" for g s
    proof (cases "g \<in> fst s")
      case True
      with s show ?thesis by (auto simp: load_include_file_def)
    next
      case False
      let ?s = "(insert g (fst s), snd s)"
      have "unloaded env (insert g (fst ?s)) + (if g \<in> dom (open_keys env) then 1 else 0) < n"
        using small [OF s] unloaded_insert [OF assms(1) _ False]
          unloaded_mono [OF assms(1) subset_insertI [of "fst s" g]]
        by (cases "g \<in> dom (open_keys env)") (simp_all del: domIff)
      from Suc.IH [OF this] s False show ?thesis by (auto simp: load_include_file_def)
    qed
    have files: "\<exists>r. load_include_files (load_keys n env err) env f v s = Some r \<and> (\<forall>s'. r = Inr s' \<longrightarrow> ?I s')"
      if s: "?I s" for v s
    proof (cases "loadDir env (include_dir f v) (fileName (breakApart v))")
      case (Inl e)
      then show ?thesis by (simp add: load_include_files_def)
    next
      case (Inr fs)
      have "\<exists>r. fold_opt (\<lambda>x. load_include_file (load_keys n env err) (getFullPath x)) fs s = Some r
          \<and> (\<forall>s'. r = Inr s' \<longrightarrow> ?I s')"
        by (rule fold_opt_returns) (use incl s in auto)
      with Inr show ?thesis by (simp add: load_include_files_def)
    qed
    have line: "\<exists>r. load_line (load_keys n env err) env f l s = Some r \<and> (\<forall>s'. r = Inr s' \<longrightarrow> ?I s')"
      if s: "?I s" for l s
    proof (cases "break_pair (takeWhile (\<lambda>c. c \<noteq> CHR 0x00) l)")
      case (Inl e)
      then show ?thesis by (simp add: load_line_def)
    next
      case (Inr p)
      with s files [of "(fst s, ks)" v for ks v] show ?thesis
        by (cases p) (auto simp: load_line_def)
    qed
    have "\<exists>r. fold_opt (load_line (load_keys n env err) env f) (file_lines content)
        (insert f (fst st), snd st) = Some r \<and> (\<forall>s'. r = Inr s' \<longrightarrow> ?I s')"
      by (rule fold_opt_returns) (use line in auto)
    then obtain r where r: "fold_opt (load_line (load_keys n env err) env f) (file_lines content)
        (insert f (fst st), snd st) = Some r" "\<forall>s'. r = Inr s' \<longrightarrow> ?I s'" by blast
    with Some ok show ?thesis by (cases r) auto
  qed
qed

subsection \<open>Reading back a pair\<close>

definition trimmed :: "string \<Rightarrow> bool" where
  "trimmed s \<longleftrightarrow> s = [] \<or> hd s \<notin> set blanks \<and> last s \<notin> set blanks"

definition key_ok :: "string \<Rightarrow> bool" where
  "key_ok k \<longleftrightarrow> k \<noteq> [] \<and> trimmed k \<and> hd k \<noteq> CHR ''#''
     \<and> set k \<inter> {CHR ''='', CHR ''+'', CHR 0x0A, CHR 0x00} = {}"

definition value_ok :: "string \<Rightarrow> bool" where
  "value_ok v \<longleftrightarrow> v \<noteq> [] \<and> trimmed v \<and> set v \<inter> {CHR 0x0A, CHR 0x00} = {}"

lemma removeBlanks_trimmed: "trimmed s \<Longrightarrow> removeLeadingAndTrailingBlanks s = s"
  using removeBlanks_block [of "[]" "[]" s] by (cases "s = []") (auto simp: trimmed_def removeBlanks_all)

lemma break_scan_plain:
  "set k \<inter> {CHR ''='', CHR ''+''} = {} \<Longrightarrow> break_scan (k @ rest) j pos addto = break_scan rest (j + length k) pos addto"
  by (induction k arbitrary: j) auto

lemma not_only_blanks: "k \<noteq> [] \<Longrightarrow> hd k \<notin> set blanks \<Longrightarrow> \<not> only_blanks (k @ s)"
  by (cases k) (auto simp: only_blanks_def find_first_not_of_def blanks_def)

lemma break_pair_text:
  assumes "key_ok k" and "trimmed v"
  shows "break_pair (k @ (if addto then ''+='' else ''='') @ v) = Inr (Some (k, v, addto))"
proof -
  let ?b = "k @ (if addto then ''+='' else ''='') @ v"
  have k: "k \<noteq> []" "hd k \<noteq> CHR ''#''" "set k \<inter> {CHR ''='', CHR ''+''} = {}" "hd k \<notin> set blanks" "trimmed k"
    using assms(1) by (auto simp: key_ok_def trimmed_def)
  have scan: "break_scan ?b 0 0 False = Some (Some (length k, addto))"
    using break_scan_plain [OF k(3), of "(if addto then ''+='' else ''='') @ v" 0 0 False] by simp
  have "hd ?b \<noteq> CHR ''#''" using k by simp
  moreover have "\<not> only_blanks ?b" by (rule not_only_blanks [OF k(1,4)])
  moreover have "length ?b > 1" using k(1) by (cases k) auto
  ultimately show ?thesis
    unfolding break_pair_def using k(1) assms(2) k(5)
    by (simp add: scan substr_def removeBlanks_trimmed)
qed

lemma set_key_lookup:
  "map_find (set_key key val addto ks) =
     (map_find ks)(key \<mapsto> (if addto then (case map_find ks key of None \<Rightarrow> [] | Some vs \<Rightarrow> vs) else [])
                          @ (if val \<noteq> [] then [val] else []))"
  by (auto simp: set_key_def Let_def fun_eq_iff split: option.splits)

lemma set_key_ok: "map_ok ks \<Longrightarrow> map_ok (set_key key val addto ks)"
  by (auto simp: set_key_def Let_def split: option.splits)

text \<open>Loading a text made of pairs, none of them an include, sets the keys in turn.\<close>

lemma file_lines_append: "CHR 0x0A \<notin> set l \<Longrightarrow> file_lines (l @ CHR 0x0A # s) = l # file_lines s"
  by (induction l) auto

lemma file_lines_concat:
  "\<forall>l \<in> set ls. CHR 0x0A \<notin> set l \<Longrightarrow> file_lines (concat (map (\<lambda>l. l @ [CHR 0x0A]) ls)) = ls @ [[]]"
  by (induction ls) (auto simp: file_lines_append)

definition pair_text :: "string \<times> string \<times> bool \<Rightarrow> string" where
  "pair_text p = (case p of (k, v, addto) \<Rightarrow> k @ (if addto then ''+='' else ''='') @ v)"

lemma pair_text_chars:
  assumes "key_ok k" and "value_ok v"
  shows "CHR 0x0A \<notin> set (pair_text (k, v, addto))" and "CHR 0x00 \<notin> set (pair_text (k, v, addto))"
  using assms by (auto simp: pair_text_def key_ok_def value_ok_def)

lemma load_line_pair:
  assumes "key_ok k" and "value_ok v" and "k \<noteq> BES_INCLUDE_KEY"
  shows "load_line load env f (pair_text (k, v, addto)) st = Some (Inr (fst st, set_key k v addto (snd st)))"
proof -
  let ?l = "pair_text (k, v, addto)"
  have "CHR 0x00 \<notin> set ?l" by (rule pair_text_chars(2) [OF assms(1,2)])
  then have t: "takeWhile (\<lambda>c. c \<noteq> CHR 0x00) ?l = ?l" unfolding takeWhile_eq_all_conv by blast
  have "break_pair ?l = Inr (Some (k, v, addto))"
    unfolding pair_text_def prod.case using assms by (intro break_pair_text) (auto simp: value_ok_def)
  with assms(3) show ?thesis unfolding load_line_def t by simp
qed

lemma fold_opt_append:
  "fold_opt f (xs @ ys) s =
     (case fold_opt f xs s of None \<Rightarrow> None | Some (Inl e) \<Rightarrow> Some (Inl e) | Some (Inr s') \<Rightarrow> fold_opt f ys s')"
  by (induction xs arbitrary: s) (auto split: option.splits sum.splits)

lemma load_lines_pairs:
  assumes "\<forall>(k, v, addto) \<in> set ps. key_ok k \<and> value_ok v \<and> k \<noteq> BES_INCLUDE_KEY"
  shows "fold_opt (load_line load env f) (map pair_text ps) (files, ks) =
    Some (Inr (files, fold (\<lambda>(k, v, addto). set_key k v addto) ps ks))"
  using assms
proof (induction ps arbitrary: ks)
  case Nil
  then show ?case by simp
next
  case (Cons p ps)
  obtain k v a where p: "p = (k, v, a)" by (cases p)
  have "key_ok k" "value_ok v" "k \<noteq> BES_INCLUDE_KEY" using Cons.prems by (simp_all add: p)
  then have "load_line load env f (pair_text p) (files, ks) = Some (Inr (files, set_key k v a ks))"
    using load_line_pair [of k v load env f a "(files, ks)"] by (simp add: p)
  with Cons show ?case by (simp add: p)
qed

text \<open>The pairs of \<^verbatim>\<open>get_as_config\<close>.\<close>

definition key_pairs :: "string \<Rightarrow> string list \<Rightarrow> (string \<times> string \<times> bool) list" where
  "key_pairs nm vs = map (\<lambda>(i, v). (nm, v, i \<noteq> (0::nat))) (zip [0..<length vs] vs)"

lemma get_as_config_pairs:
  assumes "ks \<noteq> []"
  shows "get_as_config ks = concat (map (\<lambda>l. l @ [CHR 0x0A])
    ([] # ''# TheBESKeys::get_as_config()'' # map pair_text (concat (map (\<lambda>(nm, vs). key_pairs nm vs) ks))))"
proof -
  have one: "concat (map (\<lambda>(i, v). nm @ (if i = 0 then ''='' else ''+='') @ v @ [CHR 0x0A]) (zip [0::nat..<length vs] vs))
      = concat (map (\<lambda>l. l @ [CHR 0x0A]) (map pair_text (key_pairs nm vs)))" for nm vs
    unfolding key_pairs_def map_map by (rule arg_cong [where f = concat]) (auto simp: pair_text_def)
  have "concat (map (\<lambda>(nm, vs). concat (map (\<lambda>(i, v). nm @ (if i = 0 then ''='' else ''+='') @ v @ [CHR 0x0A])
          (zip [0::nat..<length vs] vs))) m)
      = concat (map (\<lambda>l. l @ [CHR 0x0A]) (map pair_text (concat (map (\<lambda>(nm, vs). key_pairs nm vs) m))))"
    for m :: keystore
    by (induction m) (auto simp: one)
  with assms show ?thesis by (simp add: get_as_config_def)
qed

lemma key_pairs_snoc: "key_pairs nm (vs @ [v]) = key_pairs nm vs @ [(nm, v, vs \<noteq> [])]"
proof -
  have "zip [0..<length (vs @ [v])] (vs @ [v]) = zip [0..<length vs] vs @ [(length vs, v)]"
    by (simp add: zip_append)
  then show ?thesis by (simp add: key_pairs_def)
qed

lemma fold_key_pairs:
  assumes "\<forall>v \<in> set vs. v \<noteq> []" and "vs \<noteq> []" and "map_find ks nm = None" and "map_ok ks"
  shows "map_find (fold (\<lambda>(k, v, addto). set_key k v addto) (key_pairs nm vs) ks) = (map_find ks)(nm \<mapsto> vs)
    \<and> map_ok (fold (\<lambda>(k, v, addto). set_key k v addto) (key_pairs nm vs) ks)"
  using assms(1,2)
proof (induction vs rule: rev_induct)
  case Nil
  then show ?case by simp
next
  case (snoc v vs)
  show ?case
  proof (cases "vs = []")
    case True
    with snoc.prems assms show ?thesis by (simp add: key_pairs_def set_key_lookup set_key_ok)
  next
    case False
    with snoc show ?thesis by (auto simp: key_pairs_snoc set_key_lookup set_key_ok fun_eq_iff)
  qed
qed

lemma fold_all_pairs:
  assumes "map_ok (m @ n)" and "\<forall>(k, vs) \<in> set n. vs \<noteq> [] \<and> (\<forall>v \<in> set vs. v \<noteq> [])"
  shows "fold (\<lambda>(k, v, addto). set_key k v addto) (concat (map (\<lambda>(nm, vs). key_pairs nm vs) n)) m = m @ n"
  using assms
proof (induction n arbitrary: m)
  case Nil
  then show ?case by simp
next
  case (Cons p n)
  obtain k vs where p: "p = (k, vs)" by (cases p)
  have okm: "map_ok m" and lt: "\<forall>q \<in> set m. fst q < k"
    using Cons.prems(1) by (auto simp: map_ok_def sorted_wrt_append p)
  then have "map_find m k = None" by (force simp: map_of_eq_None_iff)
  with Cons.prems(2) okm have f: "map_find (fold (\<lambda>(k, v, addto). set_key k v addto) (key_pairs k vs) m) = (map_find m)(k \<mapsto> vs)"
    "map_ok (fold (\<lambda>(k, v, addto). set_key k v addto) (key_pairs k vs) m)"
    using fold_key_pairs [of vs m k] by (auto simp: p)
  have "fold (\<lambda>(k, v, addto). set_key k v addto) (key_pairs k vs) m = map_put k vs m"
    using f okm by (intro map_ok_ext) auto
  then have "fold (\<lambda>(k, v, addto). set_key k v addto) (key_pairs k vs) m = m @ [p]"
    using map_put_append [OF lt, of vs] by (simp add: p)
  with Cons.IH [of "m @ [p]"] Cons.prems show ?case by (simp add: p)
qed

lemma parse_map_record_text:
  assumes "k \<noteq> []" and "CHR '':'' \<notin> set k"
  shows "parse_map_record (k @ '':'' @ v) False = Some (k, v)"
proof -
  have "str_find_char (k @ CHR '':'' # v) (CHR '':'') 0 = Some (length k)"
    using assms(2) by (rule str_find_char_0)
  with assms(1) show ?thesis by (simp add: parse_map_record_def substr_def)
qed

lemma fold_map_records:
  assumes "map_ok (a @ m)" and "\<forall>(k, v) \<in> set m. k \<noteq> [] \<and> CHR '':'' \<notin> set k"
  shows "fold (\<lambda>rec m. case parse_map_record rec False of Some (k, v) \<Rightarrow> map_insert k v m | None \<Rightarrow> m)
      (map (\<lambda>(k, v). k @ '':'' @ v) m) a = a @ m"
  using assms
proof (induction m arbitrary: a)
  case Nil
  then show ?case by simp
next
  case (Cons p m)
  obtain k v where p: "p = (k, v)" by (cases p)
  have lt: "\<forall>q \<in> set a. fst q < k"
    using Cons.prems(1) by (auto simp: map_ok_def sorted_wrt_append p)
  then have "map_find a k = None" by (force simp: map_of_eq_None_iff)
  then have "map_insert k v a = a @ [p]"
    by (simp add: map_insert_def map_put_append [OF lt] p)
  with Cons.IH [of "a @ [p]"] Cons.prems parse_map_record_text [of k v] show ?case by (simp add: p)
qed

subsection \<open>Properties of the configuration\<close>

text \<open>
  C9: Loading a configuration ends, with the keys or with an error, also when files include
  each other in a cycle and whatever they contain, if every file that can be opened can be read
  to its end: recursing as deep as the number of names that can be opened, plus two, is enough.
  There must be finitely many such names, which the system's limit on the length of a path
  gives; one file may be loaded again under another name.
\<close>

theorem load_keys_terminates:
  assumes "finite (dom (open_keys env))" and "\<forall>g \<in> dom (open_keys env). \<not> read_fails env g"
    and "card (dom (open_keys env)) + 2 \<le> fuel"
  shows "\<exists>r. load_keys fuel env err file st = Some r"
proof -
  have "unloaded env (insert file (fst st)) \<le> card (dom (open_keys env))"
    unfolding unloaded_def using assms(1) by (intro card_mono) auto
  then have "unloaded env (insert file (fst st)) + (if file \<in> dom (open_keys env) then 1 else 0) < fuel"
    using assms(3) by simp
  from load_keys_returns [OF assms(1,2) this] show ?thesis by blast
qed

theorem load_keys_terminates_witness:
  "\<exists>r. load_keys 4
      \<lparr>open_keys = map_of [(''d/a'', ''BES.Include=b''), (''d/b'', ''BES.Include=a'')],
       read_fails = (\<lambda>f. f = ''d''), read_dir = (\<lambda>_. Some [(''a'', Some False), (''b'', Some False)]),
       regex_match = (\<lambda>e n. Inr (if e = n then int (length n) else - 1))\<rparr>
      ''No such file'' ''d/a'' ({}, []) = Some r"
proof (rule load_keys_terminates)
  let ?e = "\<lparr>open_keys = map_of [(''d/a'', ''BES.Include=b''), (''d/b'', ''BES.Include=a'')],
       read_fails = (\<lambda>f. f = ''d''), read_dir = (\<lambda>_. Some [(''a'', Some False), (''b'', Some False)]),
       regex_match = (\<lambda>e n. Inr (if e = n then int (length n) else - 1))\<rparr>"
  have "card (dom (open_keys ?e)) = card {''d/a'', ''d/b''}" by (simp add: insert_commute)
  then show "card (dom (open_keys ?e)) + 2 \<le> 4" by simp
qed simp_all

text \<open>
  A configuration file whose stream goes bad before its end never loads, however deep the
  recursion may go: \<^verbatim>\<open>load_keys\<close> throws for one of the lines before, or its loop, which only
  looks at \<^verbatim>\<open>eof\<close>, never ends.  For a directory, which can be opened and yields nothing, it is
  always the loop that does not end.
\<close>

theorem bad_stream_never_loads:
  assumes "read_fails env file"
  shows "load_keys fuel env err file st \<noteq> Some (Inr st')
    \<and> (open_keys env file = Some [] \<longrightarrow> load_keys fuel env err file st = None)"
proof (cases fuel)
  case (Suc n)
  let ?f = "load_line (load_keys n env err) env file"
  have blank: "?f [] s = Some (Inr s)" for s by (simp add: load_line_def break_pair_def only_blanks_def find_first_not_of_def)
  have "read_lines ?f True [] [[]] s = None" for s by (rule read_lines_hangs) (use blank in auto)
  with Suc assms show ?thesis
    using read_lines_bad [of ?f True "[]" _ "(insert file (fst st), snd st)"]
    by (auto split: option.split sum.splits)
qed simp

theorem bad_stream_never_loads_witness:
  "load_keys 9 \<lparr>open_keys = (\<lambda>_. Some []), read_fails = (\<lambda>f. f = ''/etc/bes''), read_dir = (\<lambda>_. None),
      regex_match = (\<lambda>_ _. Inr 0)\<rparr> [] ''/etc/bes'' ({}, []) = None"
  by (rule bad_stream_never_loads [THEN conjunct2, THEN mp]) simp_all

text \<open>
  C10: A key file with the text of \<^verbatim>\<open>TheBESKeys::get_as_config\<close> loads as the same keys with
  the same values in the same order, provided every key has a value, keys are free of
  \<^verbatim>\<open>=\<close> and \<^verbatim>\<open>+\<close>, do not start with \<^verbatim>\<open>#\<close> and are not \<^verbatim>\<open>BES.Include\<close>, and keys and values are
  single lines without surrounding blanks and without null characters.  There is at least one
  key and the file can be read to its end.
\<close>

theorem load_keys_config:
  assumes "open_keys env file = Some (get_as_config ks)" and "\<not> read_fails env file" and "map_ok ks" and "ks \<noteq> []"
    and "\<forall>(k, vs) \<in> set ks. key_ok k \<and> k \<noteq> BES_INCLUDE_KEY \<and> vs \<noteq> [] \<and> (\<forall>v \<in> set vs. value_ok v)"
    and "0 < fuel"
  shows "load_keys fuel env err file ({}, []) = Some (Inr ({file}, ks))"
proof -
  let ?ps = "concat (map (\<lambda>(nm, vs). key_pairs nm vs) ks)"
  let ?head = "''# TheBESKeys::get_as_config()''"
  have ps: "key_ok k \<and> value_ok v \<and> k \<noteq> BES_INCLUDE_KEY" if "(k, v, a) \<in> set ?ps" for k v a
    using that assms(5) by (fastforce simp: key_pairs_def dest: set_zip_rightD)
  have nl: "\<forall>l \<in> set ([] # ?head # map pair_text ?ps). CHR 0x0A \<notin> set l"
    using ps pair_text_chars(1) by fastforce
  have lines: "file_lines (get_as_config ks) = [[], ?head] @ map pair_text ?ps @ [[]]"
    unfolding get_as_config_pairs [OF assms(4)] file_lines_concat [OF nl] by simp
  have blank: "load_line load env file [] st = Some (Inr st)" "load_line load env file ?head st = Some (Inr st)"
    for load st by (simp_all add: load_line_def break_pair_def only_blanks_def find_first_not_of_def)
  have pairs: "fold_opt (load_line load env file) (map pair_text ?ps) ({file}, []) =
      Some (Inr ({file}, fold (\<lambda>(k, v, addto). set_key k v addto) ?ps []))" for load
  proof (rule load_lines_pairs, rule ballI)
    fix p assume p: "p \<in> set ?ps"
    obtain k v a where e: "p = (k, v, a)" by (cases p)
    from ps [OF p [unfolded e]] show "case p of (k, v, addto) \<Rightarrow> key_ok k \<and> value_ok v \<and> k \<noteq> BES_INCLUDE_KEY"
      unfolding e prod.case .
  qed
  have "fold (\<lambda>(k, v, addto). set_key k v addto) ?ps [] = [] @ ks"
    using assms(3,5) by (intro fold_all_pairs) (auto simp: value_ok_def)
  with assms(1,2,6) pairs blank show ?thesis
    by (cases fuel) (simp_all add: lines fold_opt_append read_lines_good)
qed

theorem load_keys_config_witness:
  "load_keys 1 \<lparr>open_keys = (\<lambda>_. Some (get_as_config [(''BES.LogName'', [''./bes.log'']), (''M'', [''a b'', ''c''])])),
      read_fails = (\<lambda>_. False), read_dir = (\<lambda>_. None), regex_match = (\<lambda>_ _. Inr 0)\<rparr> [] ''bes.conf'' ({}, [])
   = Some (Inr ({''bes.conf''}, [(''BES.LogName'', [''./bes.log'']), (''M'', [''a b'', ''c''])]))"
proof (rule load_keys_config)
  show "map_ok [(''BES.LogName'', [''./bes.log'']), (''M'', [''a b'', ''c''])]" by code_simp
  show "\<forall>(k, vs) \<in> set [(''BES.LogName'', [''./bes.log'']), (''M'', [''a b'', ''c''])].
      key_ok k \<and> k \<noteq> BES_INCLUDE_KEY \<and> vs \<noteq> [] \<and> (\<forall>v \<in> set vs. value_ok v)"
    by code_simp
qed simp_all

text \<open>
  A map stored under a key with \<^verbatim>\<open>set_keys\<close> is returned unchanged by \<^verbatim>\<open>get_values\<close>,
  when its keys are not empty and contain no colon; the values may contain colons.
\<close>

theorem get_values_map_set:
  assumes "map_ok m" and "\<forall>(k, v) \<in> set m. k \<noteq> [] \<and> CHR '':'' \<notin> set k"
  shows "get_values_map key [] False (set_keys_map key m False False ks) = (m, True)"
proof -
  have "filter (\<lambda>(k, v). k \<noteq> []) m = m" using assms(2) by (auto simp: filter_id_conv)
  then have "get_values key [] (set_keys_map key m False False ks) = (map (\<lambda>(k, v). k @ '':'' @ v) m, True)"
    by (simp add: set_keys_map_def get_values_def Let_def)
  with fold_map_records [of "[]" m] assms show ?thesis by (simp add: get_values_map_def)
qed

theorem get_values_map_set_witness:
  "get_values_map ''H'' [] False (set_keys_map ''H'' [(''a'', ''http://x:80''), (''b'', [])] False False []) =
    ([(''a'', ''http://x:80''), (''b'', [])], True)"
  by (rule get_values_map_set) code_simp+

text \<open>
  An integer key: after \<^verbatim>\<open>set_key\<close> with the decimal text of an integer, \<^verbatim>\<open>read_int_key\<close>
  returns that integer if it fits an \<^verbatim>\<open>int\<close> and the default otherwise; after adding a second
  value to the key it throws.
\<close>

theorem read_int_key_set:
  "read_int_key key dflt (set_key key (int_text i) False ks) =
     Inr (if - (2 ^ 31) \<le> i \<and> i < 2 ^ 31 then i else dflt)
   \<and> (v \<noteq> [] \<longrightarrow> read_int_key key dflt (set_key key v True (set_key key (int_text i) False ks)) =
     Inl (BESInternalError (''Multiple values for the key '' @ key @ '' found, should only be one.'')))"
proof -
  have ne: "int_text i \<noteq> []" using nat_text_digits by (simp add: int_text_def)
  have "scan_int (int_text i) = (i, [])" using scan_int_text [of "[]" i] by simp
  then have "extract_int (int_text i) = (if - (2 ^ 31) \<le> i \<and> i < 2 ^ 31 then Some (i, []) else None)"
    using ne by (simp add: extract_int_def)
  with ne show ?thesis by (simp add: read_int_key_def get_value_def set_key_lookup)
qed

theorem read_int_key_set_witness:
  "read_int_key ''n'' 5 (set_key ''n'' ''3'' True (set_key ''n'' (int_text 12) False [])) =
     Inl (BESInternalError (''Multiple values for the key '' @ ''n'' @ '' found, should only be one.''))"
  using read_int_key_set [of "''n''" 5 12 "[]" "''3''"] by simp

end
