(* ===== verification/Bes_Storage.thy ===== *)
theory Bes_Storage
  imports Bes_Path Bes_Registry Bes_Keys
begin

text \<open>
  Containers and definitions and where they are kept (\<^verbatim>\<open>dispatch/\<close>): \<^verbatim>\<open>BESContainer\<close> and
  \<^verbatim>\<open>BESFileContainer\<close>; the stores \<^verbatim>\<open>BESContainerStorageVolatile\<close>,
  \<^verbatim>\<open>BESContainerStorageFile\<close> and \<^verbatim>\<open>BESDefinitionStorageVolatile\<close>; the reference counted
  lists of stores, \<^verbatim>\<open>BESContainerStorageList\<close> and \<^verbatim>\<open>BESDefinitionStorageList\<close>, which are
  the same code over different stores; and \<^verbatim>\<open>BESCatalogList\<close>, which counts references in the
  catalogs themselves.

  \<open>counted_list\<close> is the contract of a reference counted list: how many uses of a name are
  outstanding.  A store stays until every module that added or referenced it has let go.
\<close>

subsection \<open>Containers\<close>

record container =
  symbolic_name :: string
  real_name :: string
  relative_name :: string
  container_type :: string
  constraint :: string
  dap4_constraint :: string
  dap4_function :: string
  attributes :: string

record file_container = container +
  cached :: bool
  target :: string

definition new_file_container :: "string \<Rightarrow> string \<Rightarrow> string \<Rightarrow> file_container result" where
  "new_file_container sname real typ =
     (if str_find real ''..'' 0 \<noteq> None then
        Inl (BESForbiddenError (''BESFileContainer::BESFileContainer() - '' @ [CHR 0x27] @ ''../'' @ [CHR 0x27]
               @ '' not allowed in container real name '' @ real))
      else Inr \<lparr>symbolic_name = sname, real_name = real, relative_name = [], container_type = typ,
             constraint = [], dap4_constraint = [], dap4_function = [], attributes = [],
             cached = False, target = []\<rparr>)"

text \<open>\<^verbatim>\<open>ptr_duplicate\<close>: a new object with the fields of the base class.\<close>

definition ptr_duplicate :: "file_container \<Rightarrow> file_container" where
  "ptr_duplicate c =
     \<lparr>symbolic_name = symbolic_name c, real_name = real_name c, relative_name = relative_name c,
      container_type = container_type c, constraint = constraint c, dap4_constraint = dap4_constraint c,
      dap4_function = dap4_function c, attributes = attributes c, cached = False, target = []\<rparr>"

definition show_container :: "string \<Rightarrow> string \<Rightarrow> string \<Rightarrow> info_call list" where
  "show_container sname real typ =
     [Add_tag ''container'' real (Some (map_put ''type'' typ (map_put ''name'' sname [])))]"

subsection \<open>The volatile container store\<close>

record volatile_store =
  v_name :: string
  root_dir :: string
  follow_sym_links :: bool
  container_list :: "(string, file_container) stdmap"

definition new_volatile_store :: "keystore \<Rightarrow> string \<Rightarrow> volatile_store result" where
  "new_volatile_store ks n =
     (let key = ''BES.Data.RootDirectory''
      in res_bind (get_value key ks) (\<lambda>r.
           let root = (case r of Some v \<Rightarrow> v | None \<Rightarrow> [])
           in if root = [] then Inl (BESSyntaxUserError (key @ '' not defined in BES configuration file''))
              else res_bind (get_value ''BES.FollowSymLinks'' ks) (\<lambda>s.
                let follow = (case s of None \<Rightarrow> False
                              | Some v \<Rightarrow> lowercase v \<in> set [''yes'', ''on'', ''true''])
                in Inr \<lparr>v_name = n, root_dir = root, follow_sym_links = follow, container_list = []\<rparr>)))"

definition v_look_for :: "string \<Rightarrow> volatile_store \<Rightarrow> file_container option" where
  "v_look_for sname s = map_option ptr_duplicate (map_find (container_list s) sname)"

definition v_add_container ::
  "file_system \<Rightarrow> string \<Rightarrow> string \<Rightarrow> string \<Rightarrow> volatile_store \<Rightarrow> volatile_store result" where
  "v_add_container fs sname real typ s =
     (if typ = [] then
        Inl (BESInternalError (''Unable to add container '' @ [CHR 0x27] @ real @ [CHR 0x27]
               @ '', type of data must be specified''))
      else if map_find (container_list s) sname \<noteq> None then
        Inl (BESInternalError (''A container with the name '' @ [CHR 0x27] @ sname @ [CHR 0x27] @ '' already exists''))
      else
        res_bind (check_path fs real (root_dir s) (follow_sym_links s)) (\<lambda>_.
        res_bind (new_file_container sname (assemblePath (root_dir s) real False False) typ) (\<lambda>c.
        Inr (s\<lparr>container_list := map_put sname (c\<lparr>relative_name := real\<rparr>) (container_list s)\<rparr>))))"

definition v_add_container_obj :: "file_container option \<Rightarrow> volatile_store \<Rightarrow> volatile_store result" where
  "v_add_container_obj oc s =
     (case oc of
        None \<Rightarrow> Inl (BESInternalError ''Unable to add container, container passed is null'')
      | Some c \<Rightarrow>
          if container_type c = [] then
            Inl (BESInternalError ''Unable to add container, type of data must be specified'')
          else if map_find (container_list s) (symbolic_name c) \<noteq> None then
            Inl (BESInternalError (''A container with the name '' @ [CHR 0x27] @ symbolic_name c @ [CHR 0x27]
                   @ '' already exists''))
          else Inr (s\<lparr>container_list := map_put (symbolic_name c) c (container_list s)\<rparr>))"

definition v_del_container :: "string \<Rightarrow> volatile_store \<Rightarrow> bool \<times> volatile_store" where
  "v_del_container sname s =
     (case map_find (container_list s) sname of
        Some _ \<Rightarrow> (True, s\<lparr>container_list := map_erase sname (container_list s)\<rparr>)
      | None \<Rightarrow> (False, s))"

text \<open>\<^verbatim>\<open>while (size() != 0) erase(begin())\<close>\<close>

fun del_all :: "('k, 'v) stdmap \<Rightarrow> ('k, 'v) stdmap" where
  "del_all [] = []"
| "del_all (p # m) = del_all m"

definition v_del_containers :: "volatile_store \<Rightarrow> bool \<times> volatile_store" where
  "v_del_containers s = (True, s\<lparr>container_list := del_all (container_list s)\<rparr>)"

definition v_isData ::
  "service_registry \<Rightarrow> string \<Rightarrow> string list \<Rightarrow> volatile_store \<Rightarrow> bool \<times> string list" where
  "v_isData reg inQuestion provides s =
     (case v_look_for inQuestion s of
        None \<Rightarrow> (False, provides)
      | Some c \<Rightarrow> (True, services_handled (container_type c) provides reg))"

definition v_show_containers :: "volatile_store \<Rightarrow> info_call list" where
  "v_show_containers s =
     Add_tag ''name'' (v_name s) None #
     concat (map (\<lambda>(k, c).
       show_container (symbolic_name c)
         (if length (real_name c) > length (root_dir s) \<and> prefix (root_dir s) (real_name c)
          then drop (length (root_dir s)) (real_name c) else real_name c)
         (container_type c)) (container_list s))"

subsection \<open>The container store read from a file\<close>

record file_store =
  f_name :: string
  f_file :: string
  f_list :: "(string, string \<times> string \<times> string) stdmap"

text \<open>\<^verbatim>\<open>strm >> word\<close>: the next word and the rest, the empty word at the end.\<close>

definition next_word :: "string \<Rightarrow> string \<times> string" where
  "next_word s = (let t = dropWhile is_space s
                  in (takeWhile (\<lambda>c. \<not> is_space c) t, dropWhile (\<lambda>c. \<not> is_space c) t))"

definition persistence_line :: "string \<Rightarrow> string \<Rightarrow> (string \<times> string \<times> string) result" where
  "persistence_line file cline =
     (let (sname, r1) = next_word cline; (real, r2) = next_word r1; (typ, r3) = next_word r2;
          (dummy, _) = next_word r3
      in if sname = [] \<or> real = [] \<or> typ = [] then
           Inl (BESInternalError (''Incomplete container persistence line in file '' @ file))
         else if dummy \<noteq> [] then Inl (BESInternalError (''Too many fields in persistence file '' @ file))
         else Inr (sname, real, typ))"

text \<open>The reading loop; a stream in a failed state yields the empty line for ever, which is an
  incomplete line, so the loop needs no more iterations than the file has lines, and two.\<close>

fun persistence_loop ::
  "nat \<Rightarrow> string \<Rightarrow> string \<times> stream_state \<Rightarrow> (string, string \<times> string \<times> string) stdmap
    \<Rightarrow> (string, string \<times> string \<times> string) stdmap result option" where
  "persistence_loop 0 file ifs m = None"
| "persistence_loop (Suc fuel) file (s, st) m =
     (if st = EofBit then Some (Inr m)
      else
        (let (l, r, st') = (if st = Good then getline_n 80 s else ([], s, FailBit))
         in if st' = EofBit then Some (Inr m)
            else
              (case persistence_line file (takeWhile (\<lambda>c. c \<noteq> CHR 0x00) l) of
                 Inl e \<Rightarrow> Some (Inl e)
               | Inr (sname, real, typ) \<Rightarrow>
                   persistence_loop fuel file (r, st') (map_put sname (sname, real, typ) m))))"

definition new_file_store ::
  "nat \<Rightarrow> (string \<Rightarrow> string + string) \<Rightarrow> keystore \<Rightarrow> string \<Rightarrow> file_store result option" where
  "new_file_store fuel open_file ks n =
     (let key = ''BES.Container.Persistence.File.'' @ n
      in case get_value key ks of
           Inl e \<Rightarrow> Some (Inl e)
         | Inr r \<Rightarrow>
             (let file = (case r of Some v \<Rightarrow> v | None \<Rightarrow> [])
              in if file = [] then
                   Some (Inl (BESSyntaxUserError (key @ '' not defined in BES configuration file'')))
                 else
                   (case open_file file of
                      Inl err \<Rightarrow>
                        Some (Inl (BESInternalError (''Unable to open persistence file '' @ file @ '': '' @ err)))
                    | Inr s \<Rightarrow>
                        map_option (\<lambda>r. res_bind r (\<lambda>m. Inr \<lparr>f_name = n, f_file = file, f_list = m\<rparr>))
                          (persistence_loop fuel file (s, Good) []))))"

definition f_look_for :: "string \<Rightarrow> file_store \<Rightarrow> file_container option result" where
  "f_look_for sname s =
     (case map_find (f_list s) sname of
        None \<Rightarrow> Inr None
      | Some (sn, rn, ct) \<Rightarrow> res_bind (new_file_container sn rn ct) (\<lambda>c. Inr (Some c)))"

definition f_add_container :: "file_store \<Rightarrow> file_store result" where
  "f_add_container s = Inl (BESInternalError ''Unable to add a container to a file, not yet implemented'')"

definition f_del_container :: "string \<Rightarrow> file_store \<Rightarrow> bool \<times> file_store" where
  "f_del_container sname s =
     (case map_find (f_list s) sname of
        Some _ \<Rightarrow> (True, s\<lparr>f_list := map_erase sname (f_list s)\<rparr>)
      | None \<Rightarrow> (False, s))"

definition f_del_containers :: "file_store \<Rightarrow> bool \<times> file_store" where
  "f_del_containers s = (True, s\<lparr>f_list := del_all (f_list s)\<rparr>)"

definition f_isData ::
  "service_registry \<Rightarrow> string \<Rightarrow> string list \<Rightarrow> file_store \<Rightarrow> (bool \<times> string list) result" where
  "f_isData reg inQuestion provides s =
     res_bind (f_look_for inQuestion s) (\<lambda>r.
       case r of
         None \<Rightarrow> Inr (False, provides)
       | Some c \<Rightarrow> Inr (True, services_handled (container_type c) provides reg))"

definition f_show_containers :: "file_store \<Rightarrow> info_call list" where
  "f_show_containers s = concat (map (\<lambda>(k, sn, rn, ct). show_container sn rn ct) (f_list s))"

subsection \<open>The list of container stores\<close>

datatype container_storage = Volatile volatile_store | File file_store

fun storage_name :: "container_storage \<Rightarrow> string" where
  "storage_name (Volatile s) = v_name s"
| "storage_name (File s) = f_name s"

fun storage_look_for :: "string \<Rightarrow> container_storage \<Rightarrow> file_container option result" where
  "storage_look_for sname (Volatile s) = Inr (v_look_for sname s)"
| "storage_look_for sname (File s) = f_look_for sname s"

fun storage_del_container :: "string \<Rightarrow> container_storage \<Rightarrow> container_storage" where
  "storage_del_container sname (Volatile s) = Volatile (snd (v_del_container sname s))"
| "storage_del_container sname (File s) = File (snd (f_del_container sname s))"

fun storage_show :: "container_storage \<Rightarrow> info_call list" where
  "storage_show (Volatile s) = v_show_containers s"
| "storage_show (File s) = f_show_containers s"

text \<open>\<^verbatim>\<open>persistence_list\<close>: the stores in the order they were added, each with its unsigned
  32 bit reference count.  \<open>get_name\<close> is the virtual method of the store.\<close>

type_synonym 'o persistence_list = "('o \<times> nat) list"

fun add_persistence :: "('o \<Rightarrow> string) \<Rightarrow> 'o \<Rightarrow> 'o persistence_list \<Rightarrow> bool \<times> 'o persistence_list" where
  "add_persistence get_name cp [] = (True, [(cp, 1)])"
| "add_persistence get_name cp ((p, n) # pl) =
     (if get_name p \<noteq> get_name cp then
        (let (ret, pl') = add_persistence get_name cp pl in (ret, (p, n) # pl'))
      else (False, (p, n) # pl))"

fun ref_persistence :: "('o \<Rightarrow> string) \<Rightarrow> string \<Rightarrow> 'o persistence_list \<Rightarrow> bool \<times> 'o persistence_list" where
  "ref_persistence get_name nm [] = (False, [])"
| "ref_persistence get_name nm ((p, n) # pl) =
     (if get_name p = nm then (True, (p, (n + 1) mod 2 ^ 32) # pl)
      else (let (ret, pl') = ref_persistence get_name nm pl in (ret, (p, n) # pl')))"

fun deref_persistence :: "('o \<Rightarrow> string) \<Rightarrow> string \<Rightarrow> 'o persistence_list \<Rightarrow> bool \<times> 'o persistence_list" where
  "deref_persistence get_name nm [] = (False, [])"
| "deref_persistence get_name nm ((p, n) # pl) =
     (if get_name p = nm then
        (let n' = (n + (2 ^ 32 - 1)) mod 2 ^ 32 in (True, if n' = 0 then pl else (p, n') # pl))
      else (let (ret, pl') = deref_persistence get_name nm pl in (ret, (p, n) # pl')))"

fun find_persistence :: "('o \<Rightarrow> string) \<Rightarrow> string \<Rightarrow> 'o persistence_list \<Rightarrow> 'o option" where
  "find_persistence get_name nm [] = None"
| "find_persistence get_name nm ((p, n) # pl) =
     (if nm = get_name p then Some p else find_persistence get_name nm pl)"

definition isnice :: "keystore \<Rightarrow> bool result" where
  "isnice ks =
     res_bind (get_value ''BES.Container.Persistence'' ks) (\<lambda>r.
       let v = (case r of Some v \<Rightarrow> v | None \<Rightarrow> []) in Inr (v \<in> set [''Nice'', ''nice'', ''NICE'']))"

fun look_for_first :: "string \<Rightarrow> container_storage persistence_list \<Rightarrow> file_container option result" where
  "look_for_first sname [] = Inr None"
| "look_for_first sname ((p, n) # pl) =
     res_bind (storage_look_for sname p) (\<lambda>r.
       case r of Some c \<Rightarrow> Inr (Some c) | None \<Rightarrow> look_for_first sname pl)"

definition look_for :: "keystore \<Rightarrow> string \<Rightarrow> container_storage persistence_list \<Rightarrow> file_container option result" where
  "look_for ks sname pl =
     res_bind (look_for_first sname pl) (\<lambda>r.
       case r of
         Some c \<Rightarrow> Inr (Some c)
       | None \<Rightarrow>
           res_bind (isnice ks) (\<lambda>nice.
             if \<not> nice then Inl (BESSyntaxUserError (''Could not find the symbolic name '' @ sname))
             else Inr None))"

definition delete_container :: "string \<Rightarrow> container_storage persistence_list \<Rightarrow> container_storage persistence_list" where
  "delete_container sname pl = map (\<lambda>(p, n). (storage_del_container sname p, n)) pl"

definition show_containers :: "container_storage persistence_list \<Rightarrow> info_call list" where
  "show_containers pl =
     concat (map (\<lambda>(p, n). Begin_tag ''store'' (Some (map_put ''name'' (storage_name p) []))
                            # storage_show p @ [End_tag ''store'']) pl)"

subsection \<open>Definitions\<close>

record bes_define =
  d_containers :: "container list"
  agg_cmd :: string
  agg_handler :: string

record definition_store =
  ds_name :: string
  def_list :: "(string, bes_define) stdmap"

definition ds_look_for :: "string \<Rightarrow> definition_store \<Rightarrow> bes_define option" where
  "ds_look_for nm s = map_find (def_list s) nm"

definition add_definition :: "string \<Rightarrow> bes_define \<Rightarrow> definition_store \<Rightarrow> bool \<times> definition_store" where
  "add_definition nm d s =
     (if ds_look_for nm s = None then (True, s\<lparr>def_list := map_put nm d (def_list s)\<rparr>) else (False, s))"

definition del_definition :: "string \<Rightarrow> definition_store \<Rightarrow> bool \<times> definition_store" where
  "del_definition nm s =
     (case map_find (def_list s) nm of
        Some _ \<Rightarrow> (True, s\<lparr>def_list := map_erase nm (def_list s)\<rparr>)
      | None \<Rightarrow> (False, s))"

definition del_definitions :: "definition_store \<Rightarrow> bool \<times> definition_store" where
  "del_definitions s = (True, s\<lparr>def_list := del_all (def_list s)\<rparr>)"

definition container_props :: "container \<Rightarrow> attrs" where
  "container_props c =
     (let m = map_put ''type'' (container_type c) (map_put ''name'' (symbolic_name c) []);
          m = (if constraint c \<noteq> [] then map_put ''constraint'' (constraint c) m else m)
      in if attributes c \<noteq> [] then map_put ''attributes'' (attributes c) m else m)"

definition show_store_definitions :: "definition_store \<Rightarrow> info_call list" where
  "show_store_definitions s =
     concat (map (\<lambda>(nm, d).
       Begin_tag ''definition'' (Some (map_put ''name'' nm [])) #
       (map (\<lambda>c. Add_tag ''container'' (real_name c) (Some (container_props c))) (d_containers d) @
        (if agg_handler d \<noteq> [] then
           [Add_tag ''aggregation'' (agg_cmd d) (Some (map_put ''handler'' (agg_handler d) []))] else [])) @
       [End_tag ''definition'']) (def_list s))"

text \<open>\<^verbatim>\<open>BESDefinitionStorageList\<close> has its own copy of the list operations.\<close>

definition def_add_persistence where "def_add_persistence = add_persistence ds_name"

definition def_ref_persistence where "def_ref_persistence = ref_persistence ds_name"

definition def_deref_persistence where "def_deref_persistence = deref_persistence ds_name"

definition def_find_persistence where "def_find_persistence = find_persistence ds_name"

fun def_look_for :: "string \<Rightarrow> definition_store persistence_list \<Rightarrow> bes_define option" where
  "def_look_for nm [] = None"
| "def_look_for nm ((p, n) # pl) =
     (case ds_look_for nm p of Some d \<Rightarrow> Some d | None \<Rightarrow> def_look_for nm pl)"

fun show_def_stores :: "bool \<Rightarrow> definition_store persistence_list \<Rightarrow> info_call list" where
  "show_def_stores first [] = []"
| "show_def_stores first ((p, n) # pl) =
     (if \<not> first then [Add_break 1] else []) @
     (Begin_tag ''store'' (Some (map_put ''name'' (ds_name p) [])) # show_store_definitions p @ [End_tag ''store'']) @
     show_def_stores False pl"

definition show_definitions :: "definition_store persistence_list \<Rightarrow> info_call list" where
  "show_definitions pl = show_def_stores True pl"

subsection \<open>Catalogs\<close>

record catalog =
  catalog_name :: string
  d_reference :: nat

record catalog_list =
  default_catalog_name :: string
  catalogs :: "(string, catalog) stdmap"

definition new_catalog :: "string \<Rightarrow> catalog" where
  "new_catalog nm = \<lparr>catalog_name = nm, d_reference = 0\<rparr>"

definition reference_catalog :: "catalog \<Rightarrow> catalog" where
  "reference_catalog c = c\<lparr>d_reference := (d_reference c + 1) mod 2 ^ 32\<rparr>"

definition dereference_catalog :: "catalog \<Rightarrow> catalog" where
  "dereference_catalog c = (if d_reference c = 0 then c else c\<lparr>d_reference := d_reference c - 1\<rparr>)"

definition find_catalog :: "string \<Rightarrow> catalog_list \<Rightarrow> catalog option" where
  "find_catalog nm l = map_find (catalogs l) nm"

definition add_catalog :: "catalog option \<Rightarrow> catalog_list \<Rightarrow> bool \<times> catalog_list" where
  "add_catalog oc l =
     (case oc of
        None \<Rightarrow> (False, l)
      | Some c \<Rightarrow>
          if find_catalog (catalog_name c) l = None then
            (True, l\<lparr>catalogs := map_insert (catalog_name c) c (catalogs l)\<rparr>)
          else (False, l))"

definition BES_DEFAULT_CATALOG :: string where
  "BES_DEFAULT_CATALOG = ''catalog''"

definition new_catalog_list :: "keystore \<Rightarrow> catalog_list result" where
  "new_catalog_list ks =
     res_bind (get_value ''BES.Catalog.Default'' ks) (\<lambda>r.
       let nm = (case r of Some v \<Rightarrow> if v = [] then BES_DEFAULT_CATALOG else v | None \<Rightarrow> BES_DEFAULT_CATALOG)
       in Inr (snd (add_catalog (Some (new_catalog nm)) \<lparr>default_catalog_name = nm, catalogs = []\<rparr>)))"

definition ref_catalog :: "string \<Rightarrow> catalog_list \<Rightarrow> bool \<times> catalog_list" where
  "ref_catalog nm l =
     (case map_find (catalogs l) nm of
        Some c \<Rightarrow> (True, l\<lparr>catalogs := map_put nm (reference_catalog c) (catalogs l)\<rparr>)
      | None \<Rightarrow> (False, l))"

definition deref_catalog :: "string \<Rightarrow> catalog_list \<Rightarrow> bool \<times> catalog_list" where
  "deref_catalog nm l =
     (case map_find (catalogs l) nm of
        Some c \<Rightarrow>
          (let c' = dereference_catalog c
           in (True, l\<lparr>catalogs := (if d_reference c' = 0 then map_erase nm (catalogs l)
                                       else map_put nm c' (catalogs l))\<rparr>))
      | None \<Rightarrow> (False, l))"

subsection \<open>The contract of a reference counted list\<close>

text \<open>What the modules do: \<^verbatim>\<open>if (!ref(name)) add(new store)\<close> when they are loaded and
  \<^verbatim>\<open>deref(name)\<close> when they are unloaded.\<close>

datatype 'o module_use = Acquire 'o | Release string

fun module_step ::
  "('o \<Rightarrow> 's \<Rightarrow> bool \<times> 's) \<Rightarrow> (string \<Rightarrow> 's \<Rightarrow> bool \<times> 's) \<Rightarrow> (string \<Rightarrow> 's \<Rightarrow> bool \<times> 's) \<Rightarrow> ('o \<Rightarrow> string)
    \<Rightarrow> 'o module_use \<Rightarrow> 's \<Rightarrow> 's" where
  "module_step add ref deref get_name (Acquire p) s =
     (case ref (get_name p) s of (True, s') \<Rightarrow> s' | (False, s') \<Rightarrow> snd (add p s'))"
| "module_step add ref deref get_name (Release nm) s = snd (deref nm s)"

text \<open>The specification: how many modules hold a name.\<close>

fun use_count :: "('o \<Rightarrow> string) \<Rightarrow> 'o module_use \<Rightarrow> (string \<Rightarrow> nat) \<Rightarrow> string \<Rightarrow> nat" where
  "use_count get_name (Acquire p) u = u(get_name p := u (get_name p) + 1)"
| "use_count get_name (Release nm) u = u(nm := u nm - 1)"

locale counted_list =
  fixes add :: "'o \<Rightarrow> 's \<Rightarrow> bool \<times> 's"
    and ref :: "string \<Rightarrow> 's \<Rightarrow> bool \<times> 's"
    and deref :: "string \<Rightarrow> 's \<Rightarrow> bool \<times> 's"
    and find :: "string \<Rightarrow> 's \<Rightarrow> 'o option"
    and get_name :: "'o \<Rightarrow> string"
    and uses :: "'s \<Rightarrow> string \<Rightarrow> nat"
    and invar :: "'s \<Rightarrow> bool"
  assumes add_uses: "invar s \<Longrightarrow> uses s (get_name p) = 0 \<Longrightarrow>
      uses (snd (add p s)) = (uses s)(get_name p := 1) \<and> invar (snd (add p s))"
    and ref_uses: "invar s \<Longrightarrow> uses s nm + 1 < 2 ^ 32 \<Longrightarrow>
      fst (ref nm s) = (0 < uses s nm) \<and> invar (snd (ref nm s)) \<and>
      uses (snd (ref nm s)) = (if 0 < uses s nm then (uses s)(nm := uses s nm + 1) else uses s)"
    and deref_uses: "invar s \<Longrightarrow> uses (snd (deref nm s)) = (uses s)(nm := uses s nm - 1) \<and> invar (snd (deref nm s))"
    and find_uses: "invar s \<Longrightarrow> find nm s \<noteq> None \<longleftrightarrow> 0 < uses s nm"
begin

lemma module_step_uses:
  assumes "invar s" and "\<forall>nm. uses s nm + 1 < 2 ^ 32"
  shows "uses (module_step add ref deref get_name e s) = use_count get_name e (uses s)
    \<and> invar (module_step add ref deref get_name e s)"
proof (cases e)
  case (Acquire p)
  obtain b s' where r: "ref (get_name p) s = (b, s')" by (cases "ref (get_name p) s")
  have u: "b = (0 < uses s (get_name p))" "invar s'"
    "uses s' = (if 0 < uses s (get_name p) then (uses s)(get_name p := uses s (get_name p) + 1) else uses s)"
    using ref_uses [OF assms(1), of "get_name p"] assms(2) r by auto
  then show ?thesis using add_uses [OF u(2), of p] r Acquire
    by (cases b) auto
next
  case (Release nm)
  with deref_uses [OF assms(1), of nm] show ?thesis by simp
qed

lemma use_count_bound: "(\<forall>nm. u nm \<le> n) \<Longrightarrow> \<forall>nm. use_count get_name e u nm \<le> n + 1"
proof (cases e)
  case (Release nm)
  assume u: "\<forall>nm. u nm \<le> n"
  have "u k - 1 \<le> n + 1" "u k \<le> n + 1" for k using u [rule_format, of k] by simp_all
  with Release show ?thesis by simp
qed (auto intro: le_SucI)

lemma run_uses:
  assumes "invar s" and "\<forall>nm. uses s nm \<le> n" and "n + length es < 2 ^ 32"
  shows "uses (fold (module_step add ref deref get_name) es s) = fold (use_count get_name) es (uses s)
    \<and> invar (fold (module_step add ref deref get_name) es s)"
  using assms
proof (induction es arbitrary: s n)
  case Nil
  then show ?case by simp
next
  case (Cons e es)
  have "\<forall>nm. uses s nm + 1 < 2 ^ 32"
  proof
    fix nm
    have "uses s nm \<le> n" using Cons.prems(2) by blast
    with Cons.prems(3) show "uses s nm + 1 < 2 ^ 32" by simp
  qed
  note st = module_step_uses [OF Cons.prems(1) this, of e]
  have "\<forall>nm. uses (module_step add ref deref get_name e s) nm \<le> n + 1"
    using st use_count_bound [OF Cons.prems(2), of e] by simp
  with Cons.IH [of "module_step add ref deref get_name e s" "n + 1"] st Cons.prems(3) show ?case by simp
qed

lemma found_iff_held:
  assumes "invar s" and "\<forall>nm. uses s nm = 0" and "length es < 2 ^ 32"
  shows "find nm (fold (module_step add ref deref get_name) es s) \<noteq> None \<longleftrightarrow>
    0 < fold (use_count get_name) es (\<lambda>_. 0) nm"
proof -
  have "uses s = (\<lambda>_. 0)" using assms(2) by auto
  with run_uses [OF assms(1), of 0 es] assms(2,3) find_uses show ?thesis by simp
qed

end

definition list_uses :: "('o \<Rightarrow> string) \<Rightarrow> 'o persistence_list \<Rightarrow> string \<Rightarrow> nat" where
  "list_uses get_name pl nm =
     (case map_of (map (\<lambda>(p, n). (get_name p, n)) pl) nm of None \<Rightarrow> 0 | Some n \<Rightarrow> n)"

definition list_ok :: "('o \<Rightarrow> string) \<Rightarrow> 'o persistence_list \<Rightarrow> bool" where
  "list_ok get_name pl \<longleftrightarrow>
     distinct (map (\<lambda>(p, n). get_name p) pl) \<and> (\<forall>(p, n) \<in> set pl. 0 < n \<and> n < 2 ^ 32)"

definition list_names :: "('o \<Rightarrow> string) \<Rightarrow> 'o persistence_list \<Rightarrow> string set" where
  "list_names get_name pl = set (map (\<lambda>(p, n). get_name p) pl)"

lemma list_names_simps [simp]:
  "list_names get_name [] = {}"
  "list_names get_name ((p, n) # pl) = insert (get_name p) (list_names get_name pl)"
  by (simp_all add: list_names_def)

lemma list_ok_Nil [simp]: "list_ok get_name []"
  by (simp add: list_ok_def)

lemma list_uses_Nil [simp]: "list_uses get_name [] nm = 0"
  by (simp add: list_uses_def)

lemma list_ok_Cons:
  "list_ok get_name ((p, n) # pl) \<longleftrightarrow>
     get_name p \<notin> list_names get_name pl \<and> 0 < n \<and> n < 2 ^ 32 \<and> list_ok get_name pl"
  by (auto simp: list_ok_def list_names_def)

lemma list_uses_Cons:
  "list_uses get_name ((p, n) # pl) nm = (if nm = get_name p then n else list_uses get_name pl nm)"
  by (simp add: list_uses_def)

lemma list_uses_zero: "list_ok get_name pl \<Longrightarrow> list_uses get_name pl nm = 0 \<longleftrightarrow> nm \<notin> list_names get_name pl"
  by (induction pl) (auto simp: list_uses_Cons list_ok_Cons split: if_splits)

lemma add_persistence_uses:
  assumes "list_ok get_name pl" and "list_uses get_name pl (get_name p) = 0"
  shows "add_persistence get_name p pl = (True, pl @ [(p, 1)])"
  using assms by (induction pl) (auto simp: list_ok_Cons list_uses_Cons split: if_splits)

lemma list_uses_snoc:
  "list_ok get_name pl \<Longrightarrow> list_uses get_name pl (get_name p) = 0 \<Longrightarrow>
    list_uses get_name (pl @ [(p, 1)]) = (list_uses get_name pl)(get_name p := 1) \<and> list_ok get_name (pl @ [(p, 1)])"
proof (intro conjI ext)
  fix nm assume "list_ok get_name pl" "list_uses get_name pl (get_name p) = 0"
  then show "list_uses get_name (pl @ [(p, 1)]) nm = ((list_uses get_name pl)(get_name p := 1)) nm"
    by (induction pl) (auto simp: list_uses_Cons list_ok_Cons split: if_splits)
next
  assume a: "list_ok get_name pl" "list_uses get_name pl (get_name p) = 0"
  then show "list_ok get_name (pl @ [(p, 1)])"
    using list_uses_zero [OF a(1), of "get_name p"] by (auto simp: list_ok_def list_names_def)
qed

lemma ref_persistence_names: "list_names get_name (snd (ref_persistence get_name nm pl)) = list_names get_name pl"
  by (induction pl) (auto simp: Let_def split: prod.splits if_splits)

lemma ref_persistence_uses:
  assumes "list_ok get_name pl" and "list_uses get_name pl nm + 1 < 2 ^ 32"
  shows "fst (ref_persistence get_name nm pl) = (0 < list_uses get_name pl nm)
    \<and> list_ok get_name (snd (ref_persistence get_name nm pl))
    \<and> list_uses get_name (snd (ref_persistence get_name nm pl)) =
        (if 0 < list_uses get_name pl nm then (list_uses get_name pl)(nm := list_uses get_name pl nm + 1)
         else list_uses get_name pl)"
  using assms
proof (induction pl)
  case Nil
  then show ?case by (simp add: list_uses_def list_ok_def)
next
  case (Cons q pl)
  obtain p n where q: "q = (p, n)" by (cases q)
  show ?case
  proof (cases "get_name p = nm")
    case True
    with Cons.prems have "(n + 1) mod 2 ^ 32 = n + 1" "0 < n" by (auto simp: q list_ok_Cons list_uses_Cons)
    with True Cons.prems show ?thesis by (auto simp: q list_ok_Cons list_uses_Cons fun_eq_iff)
  next
    case False
    with Cons ref_persistence_names [of get_name nm pl] show ?thesis
      by (auto simp: q list_ok_Cons list_uses_Cons fun_eq_iff case_prod_beta)
  qed
qed

lemma deref_persistence_names:
  "list_names get_name (snd (deref_persistence get_name nm pl)) \<subseteq> list_names get_name pl"
  by (induction pl) (auto simp: Let_def split: prod.splits if_splits)

lemma deref_persistence_uses:
  assumes "list_ok get_name pl"
  shows "list_uses get_name (snd (deref_persistence get_name nm pl)) =
      (list_uses get_name pl)(nm := list_uses get_name pl nm - 1)
    \<and> list_ok get_name (snd (deref_persistence get_name nm pl))"
  using assms
proof (induction pl)
  case Nil
  then show ?case by (simp add: list_uses_def list_ok_def fun_eq_iff)
next
  case (Cons q pl)
  obtain p n where q: "q = (p, n)" by (cases q)
  show ?case
  proof (cases "get_name p = nm")
    case True
    have n: "0 < n" "n < 2 ^ 32" "list_ok get_name pl" "nm \<notin> list_names get_name pl"
      using Cons.prems True by (auto simp: q list_ok_Cons)
    have "n + (2 ^ 32 - 1) = (n - 1) + 2 ^ 32" using n by simp
    then have "(n + (2 ^ 32 - 1)) mod 2 ^ 32 = (n - 1) mod 2 ^ 32" by (metis mod_add_self2)
    then have "(n + (2 ^ 32 - 1)) mod 2 ^ 32 = n - 1" using n by (metis mod_less less_imp_diff_less)
    with True n list_uses_zero [OF n(3), of nm] show ?thesis
      by (auto simp: q list_ok_Cons list_uses_Cons fun_eq_iff Let_def)
  next
    case False
    with Cons deref_persistence_names [of get_name nm pl] show ?thesis
      by (auto simp: q list_ok_Cons list_uses_Cons fun_eq_iff case_prod_beta)
  qed
qed

lemma find_persistence_uses:
  "list_ok get_name pl \<Longrightarrow> find_persistence get_name nm pl \<noteq> None \<longleftrightarrow> 0 < list_uses get_name pl nm"
  by (induction pl) (auto simp: list_ok_Cons list_uses_Cons)

lemma persistence_counted:
  "counted_list (add_persistence g) (ref_persistence g) (deref_persistence g) (find_persistence g) g
    (list_uses g) (list_ok g)"
proof
  fix s p nm
  assume ok: "list_ok g s"
  show "list_uses g s (g p) = 0 \<Longrightarrow>
      list_uses g (snd (add_persistence g p s)) = (list_uses g s)(g p := 1) \<and> list_ok g (snd (add_persistence g p s))"
    using list_uses_snoc [OF ok, of p] by (simp only: add_persistence_uses [OF ok] snd_conv)
  show "find_persistence g nm s \<noteq> None \<longleftrightarrow> 0 < list_uses g s nm" by (rule find_persistence_uses [OF ok])
qed (rule ref_persistence_uses deref_persistence_uses; assumption)+

interpretation clist: counted_list "add_persistence storage_name" "ref_persistence storage_name"
  "deref_persistence storage_name" "find_persistence storage_name" storage_name
  "list_uses storage_name" "list_ok storage_name"
  by (rule persistence_counted)

interpretation dlist: counted_list def_add_persistence def_ref_persistence def_deref_persistence
  def_find_persistence ds_name "list_uses ds_name" "list_ok ds_name"
  unfolding def_add_persistence_def def_ref_persistence_def def_deref_persistence_def def_find_persistence_def
  by (rule persistence_counted)

subsection \<open>Reports\<close>

lemma closed_map_Add_tag: "closed (map (\<lambda>x. Add_tag (t x) (d x) (a x)) xs)"
  by (induction xs) auto

lemma closed_storage_show: "closed (storage_show p)"
proof (cases p)
  case (Volatile s)
  have "closed (concat (map (\<lambda>(k, c). show_container (symbolic_name c) (f c) (container_type c)) m))"
    for f and m :: "(string, file_container) stdmap"
    by (rule closed_concat) (auto simp: show_container_def intro!: closed_Add_tag closed_Nil)
  then show ?thesis unfolding Volatile storage_show.simps v_show_containers_def by (rule closed_Add_tag)
next
  case (File s)
  show ?thesis unfolding File storage_show.simps f_show_containers_def
    by (rule closed_concat) (auto simp: show_container_def intro!: closed_Add_tag closed_Nil)
qed

lemma closed_show_containers: "closed (show_containers pl)"
  unfolding show_containers_def
  by (rule closed_concat) (auto intro: closed_tagged closed_storage_show simp del: append_Cons)

lemma closed_store_definitions: "closed (show_store_definitions s)"
  unfolding show_store_definitions_def
proof (rule closed_concat)
  fix x assume "x \<in> set (def_list s)"
  obtain nm d where x: "x = (nm, d)" by (cases x)
  have "closed (map (\<lambda>c. Add_tag ''container'' (real_name c) (Some (container_props c))) (d_containers d) @
      (if agg_handler d \<noteq> [] then [Add_tag ''aggregation'' (agg_cmd d) (Some (map_put ''handler'' (agg_handler d) []))]
       else []))"
    by (rule closed_append [OF closed_map_Add_tag]) auto
  from closed_tagged [OF this] show "closed (case x of (nm, d) \<Rightarrow>
       Begin_tag ''definition'' (Some (map_put ''name'' nm [])) #
       (map (\<lambda>c. Add_tag ''container'' (real_name c) (Some (container_props c))) (d_containers d) @
        (if agg_handler d \<noteq> [] then
           [Add_tag ''aggregation'' (agg_cmd d) (Some (map_put ''handler'' (agg_handler d) []))] else [])) @
       [End_tag ''definition''])"
    unfolding x prod.case .
qed

lemma closed_show_definitions: "closed (show_definitions pl)"
proof -
  have "closed (show_def_stores b pl)" for b
  proof (induction b pl rule: show_def_stores.induct)
    case (2 b p n pl)
    have "closed (if \<not> b then [Add_break 1] else [])" by (auto intro: closed_leaf)
    with 2 closed_tagged [OF closed_store_definitions] show ?case by (simp only: show_def_stores.simps closed_append)
  qed auto
  then show ?thesis by (simp add: show_definitions_def)
qed

lemma closed_list_context: "closed (list_context m)"
  unfolding list_context_def case_prod_beta by (rule closed_map_Add_tag)

subsection \<open>Properties of the stores\<close>

text \<open>
  C27: The list of container stores counts its users: after any sequence of fewer than
  \<open>2 ^ 32\<close> module loads (reference the store by name, or add it) and unloads (dereference
  it), starting from the empty list, a store of that name is found if and only if more
  modules have acquired it than released it since the count was last zero.
\<close>

theorem container_list_counts:
  assumes "length es < 2 ^ 32"
  shows "find_persistence storage_name nm
      (fold (module_step (add_persistence storage_name) (ref_persistence storage_name)
              (deref_persistence storage_name) storage_name) es []) \<noteq> None
    \<longleftrightarrow> 0 < fold (use_count storage_name) es (\<lambda>_. 0) nm"
  using assms by (intro clist.found_iff_held) simp_all

theorem container_list_counts_witness:
  "find_persistence storage_name ''v''
      (fold (module_step (add_persistence storage_name) (ref_persistence storage_name)
              (deref_persistence storage_name) storage_name)
        [Acquire (Volatile \<lparr>v_name = ''v'', root_dir = ''/d'', follow_sym_links = False, container_list = []\<rparr>),
         Acquire (Volatile \<lparr>v_name = ''v'', root_dir = ''/e'', follow_sym_links = False, container_list = []\<rparr>),
         Release ''v''] []) \<noteq> None"
proof -
  let ?es = "[Acquire (Volatile \<lparr>v_name = ''v'', root_dir = ''/d'', follow_sym_links = False, container_list = []\<rparr>),
         Acquire (Volatile \<lparr>v_name = ''v'', root_dir = ''/e'', follow_sym_links = False, container_list = []\<rparr>),
         Release ''v'']"
  have "length ?es < 2 ^ 32" by simp
  from iffD2 [OF container_list_counts [OF this, of "''v''"]] show ?thesis by simp
qed

text \<open>
  The list of definition stores counts its users in the same way.
\<close>

theorem definition_list_counts:
  assumes "length es < 2 ^ 32"
  shows "def_find_persistence nm
      (fold (module_step def_add_persistence def_ref_persistence def_deref_persistence ds_name) es []) \<noteq> None
    \<longleftrightarrow> 0 < fold (use_count ds_name) es (\<lambda>_. 0) nm"
  using assms by (intro dlist.found_iff_held) simp_all

theorem definition_list_counts_witness:
  "def_find_persistence ''x''
      (fold (module_step def_add_persistence def_ref_persistence def_deref_persistence ds_name)
        [Acquire \<lparr>ds_name = ''x'', def_list = []\<rparr>, Release ''x''] []) = None"
  using definition_list_counts [of "[Acquire \<lparr>ds_name = ''x'', def_list = []\<rparr>, Release ''x'']" "''x''"] by simp

text \<open>
  C29: The catalog list does not: a new catalog starts with no reference, so when one module
  adds a catalog and a second one references it, the first module to dereference it deletes
  the catalog while the other still uses it.
\<close>

theorem catalog_dropped_in_use:
  assumes "find_catalog nm l = None"
  shows "(let acquire = module_step (\<lambda>c. add_catalog (Some c)) ref_catalog deref_catalog catalog_name (Acquire (new_catalog nm));
              l2 = acquire (acquire l)
          in find_catalog nm l2 \<noteq> None \<and> find_catalog nm (snd (deref_catalog nm l2)) = None)"
  using assms
  by (simp add: find_catalog_def ref_catalog_def add_catalog_def deref_catalog_def new_catalog_def
      map_insert_def reference_catalog_def dereference_catalog_def Let_def)

theorem catalog_dropped_in_use_witness:
  "find_catalog ''c'' (snd (deref_catalog ''c''
     (module_step (\<lambda>c. add_catalog (Some c)) ref_catalog deref_catalog catalog_name (Acquire (new_catalog ''c''))
       (module_step (\<lambda>c. add_catalog (Some c)) ref_catalog deref_catalog catalog_name (Acquire (new_catalog ''c''))
         \<lparr>default_catalog_name = ''d'', catalogs = []\<rparr>)))) = None"
  using catalog_dropped_in_use [of "''c''" "\<lparr>default_catalog_name = ''d'', catalogs = []\<rparr>"]
  by (simp only: Let_def find_catalog_def) simp

text \<open>
  A container that was added to the volatile store is found under its symbolic name with
  the path below the data root as its real name, which contains no \<^verbatim>\<open>..\<close>, with the path as
  given as its relative name, and with its type, which is not empty; the name was not in the
  store, every other name is looked up as before, and \<^verbatim>\<open>check_path\<close> accepted the path (it
  accepts the empty path without any test of access).
\<close>

theorem v_add_container_found:
  assumes "v_add_container fs nm path typ s = Inr s'"
  shows "(\<exists>c. v_look_for nm s' = Some c \<and> symbolic_name c = nm \<and> container_type c = typ \<and> typ \<noteq> []
            \<and> relative_name c = path \<and> real_name c = assemblePath (root_dir s) path False False
            \<and> \<not> sublist ''..'' (real_name c))
       \<and> v_look_for nm s = None
       \<and> (\<forall>other. other \<noteq> nm \<longrightarrow> v_look_for other s' = v_look_for other s)
       \<and> check_path fs path (root_dir s) (follow_sym_links s) = Inr ()"
proof -
  from assms obtain c where c: "check_path fs path (root_dir s) (follow_sym_links s) = Inr ()" "typ \<noteq> []"
      "map_find (container_list s) nm = None"
      "new_file_container nm (assemblePath (root_dir s) path False False) typ = Inr c"
      "s' = s\<lparr>container_list := map_put nm (c\<lparr>relative_name := path\<rparr>) (container_list s)\<rparr>"
    by (auto simp: v_add_container_def res_bind_Inr_iff split: if_splits)
  have n: "\<not> sublist ''..'' (assemblePath (root_dir s) path False False)"
    "c = \<lparr>symbolic_name = nm, real_name = assemblePath (root_dir s) path False False, relative_name = [],
       container_type = typ, constraint = [], dap4_constraint = [], dap4_function = [], attributes = [],
       cached = False, target = []\<rparr>"
    using c(4) by (auto simp: new_file_container_def str_find_None_iff split: if_splits)
  show ?thesis using c n by (simp add: v_look_for_def ptr_duplicate_def)
qed

theorem v_add_container_found_witness:
  "\<exists>s'. v_add_container sample_fs ''c1'' ''/c/d'' ''nc''
      \<lparr>v_name = ''catalog'', root_dir = ''/data'', follow_sym_links = False, container_list = []\<rparr> = Inr s'
    \<and> (\<exists>c. v_look_for ''c1'' s' = Some c \<and> real_name c = assemblePath ''/data'' ''/c/d'' False False)"
proof -
  have "check_path sample_fs ''/c/d'' ''/data'' False = Inr ()" by code_simp
  moreover have "str_find (assemblePath ''/data'' ''/c/d'' False False) ''..'' 0 = None" by code_simp
  ultimately obtain s' where "v_add_container sample_fs ''c1'' ''/c/d'' ''nc''
      \<lparr>v_name = ''catalog'', root_dir = ''/data'', follow_sym_links = False, container_list = []\<rparr> = Inr s'"
    by (simp add: v_add_container_def new_file_container_def)
  with v_add_container_found [OF this] show ?thesis by auto
qed

lemma look_for_deleted: "look_for_first nm (delete_container nm pl) = Inr None"
proof -
  have "storage_look_for nm (storage_del_container nm p) = Inr None" for p
    by (cases p) (auto simp: v_del_container_def v_look_for_def f_del_container_def f_look_for_def split: option.splits)
  then show ?thesis by (induction pl) (auto simp: delete_container_def)
qed

text \<open>
  After \<^verbatim>\<open>delete_container\<close> no store finds the name any more, and a lookup of it fails
  with a syntax error, unless the configuration is \<^verbatim>\<open>nice\<close>, where it finds nothing.
\<close>

theorem delete_container_gone:
  "look_for ks nm (delete_container nm pl) =
     (case isnice ks of
        Inl e \<Rightarrow> Inl e
      | Inr nice \<Rightarrow> if nice then Inr None else Inl (BESSyntaxUserError (''Could not find the symbolic name '' @ nm)))"
  by (cases "isnice ks") (simp_all add: look_for_def look_for_deleted)

lemma getline_n_shorter:
  "getline_n n s = (l, r, Good) \<Longrightarrow> length r < length s"
  by (induction n s arbitrary: l r rule: getline_n.induct) (fastforce simp: Let_def split: if_splits prod.splits)+

lemma persistence_line_blank: "\<exists>e. persistence_line file [] = Inl e"
  by (simp add: persistence_line_def next_word_def)

lemma persistence_failed: "\<exists>r. persistence_loop (Suc fuel) file (s, FailBit) m = Some r"
  using persistence_line_blank [of "file"] by auto

text \<open>
  C28: Reading a container persistence file always ends, with at most one iteration more than
  the file has characters, and one more for the end of the file.
\<close>

theorem persistence_loop_returns:
  assumes "length s + 2 \<le> fuel"
  shows "\<exists>r. persistence_loop fuel file (s, Good) m = Some r"
  using assms
proof (induction fuel arbitrary: s m)
  case 0
  then show ?case by simp
next
  case (Suc fuel)
  obtain l r st where g: "getline_n 80 s = (l, r, st)" by (cases "getline_n 80 s") auto
  show ?case
  proof (cases "st = EofBit")
    case True
    with g show ?thesis by simp
  next
    case False
    have next_ok: "\<exists>q. persistence_loop fuel file (r, st) m' = Some q" for m'
    proof (cases st)
      case Good
      with g getline_n_shorter [of 80 s l r] Suc show ?thesis by simp
    next
      case FailBit
      obtain f where "fuel = Suc f" using Suc.prems by (cases fuel) auto
      with FailBit persistence_failed show ?thesis by simp
    qed (use False in simp)
    show ?thesis
    proof (cases "persistence_line file (takeWhile (\<lambda>c. c \<noteq> CHR 0x00) l)")
      case (Inl e)
      with g False show ?thesis by simp
    next
      case (Inr p)
      with g False next_ok show ?thesis by (cases p) simp
    qed
  qed
qed

theorem persistence_loop_returns_witness:
  "\<exists>r. persistence_loop 8 ''f'' (''a b c'' @ [CHR 0x0A], Good) [] = Some r"
  by (rule persistence_loop_returns) simp

end
