(* ===== verification/Bes_Handlers.thy ===== *)
theory Bes_Handlers
  imports Bes_Storage
begin

text \<open>
  The dispatch tables of \<^verbatim>\<open>dispatch/\<close> (\<^verbatim>\<open>BESRequestHandler\<close>, \<^verbatim>\<open>BESRequestHandlerList\<close>,
  \<^verbatim>\<open>BESResponseHandlerList\<close>, \<^verbatim>\<open>BESReporterList\<close>, \<^verbatim>\<open>BESInfoList\<close>, \<^verbatim>\<open>BESReturnManager\<close>),
  the part of \<^verbatim>\<open>BESDataHandlerInterface\<close> that walks over the containers of a request,
  and \<^verbatim>\<open>BESTokenizer\<close>.

  Handler objects and function pointers are values of a type parameter; they are not null.
  A handler's method is a function on the data handler interface, as in the source.
  The tables are \<open>keyed_store\<close>s and their operations are the ones of that interface.
\<close>

subsection \<open>Tables of handlers\<close>

definition find_handler :: "string \<Rightarrow> (string, 'h) stdmap \<Rightarrow> 'h option" where
  "find_handler nm m = map_find m nm"

definition add_handler :: "string \<Rightarrow> 'h \<Rightarrow> (string, 'h) stdmap \<Rightarrow> bool \<times> (string, 'h) stdmap" where
  "add_handler nm h m = (if find_handler nm m = None then (True, map_put nm h m) else (False, m))"

definition remove_handler :: "string \<Rightarrow> (string, 'h) stdmap \<Rightarrow> 'h option \<times> (string, 'h) stdmap" where
  "remove_handler nm m =
     (case map_find m nm of Some h \<Rightarrow> (Some h, map_erase nm m) | None \<Rightarrow> (None, m))"

fun comma_names :: "bool \<Rightarrow> (string \<times> 'h) list \<Rightarrow> string" where
  "comma_names first_name [] = []"
| "comma_names first_name ((k, h) # m) = (if \<not> first_name then '', '' else []) @ k @ comma_names False m"

definition get_handler_names :: "(string, 'h) stdmap \<Rightarrow> string" where
  "get_handler_names m = comma_names True m"

text \<open>\<^verbatim>\<open>BESRequestHandler\<close>\<close>

definition find_method :: "string \<Rightarrow> (string, 'm) stdmap \<Rightarrow> 'm option" where
  "find_method nm m = map_find m nm"

definition add_method :: "string \<Rightarrow> 'm \<Rightarrow> (string, 'm) stdmap \<Rightarrow> bool \<times> (string, 'm) stdmap" where
  "add_method nm p m = (if find_method nm m = None then (True, map_put nm p m) else (False, m))"

definition remove_method :: "string \<Rightarrow> (string, 'm) stdmap \<Rightarrow> bool \<times> (string, 'm) stdmap" where
  "remove_method nm m = (case map_find m nm of Some _ \<Rightarrow> (True, map_erase nm m) | None \<Rightarrow> (False, m))"

definition get_method_names :: "(string, 'm) stdmap \<Rightarrow> string" where
  "get_method_names m = comma_names True m"

text \<open>\<^verbatim>\<open>BESResponseHandlerList\<close>: a table of constructors, called with the name.\<close>

definition resp_add_handler ::
  "string \<Rightarrow> (string \<Rightarrow> 'r) \<Rightarrow> (string, string \<Rightarrow> 'r) stdmap \<Rightarrow> bool \<times> (string, string \<Rightarrow> 'r) stdmap" where
  "resp_add_handler nm p m = (case map_find m nm of None \<Rightarrow> (True, map_put nm p m) | Some _ \<Rightarrow> (False, m))"

definition resp_remove_handler ::
  "string \<Rightarrow> (string, string \<Rightarrow> 'r) stdmap \<Rightarrow> bool \<times> (string, string \<Rightarrow> 'r) stdmap" where
  "resp_remove_handler nm m = (case map_find m nm of Some _ \<Rightarrow> (True, map_erase nm m) | None \<Rightarrow> (False, m))"

definition resp_find_handler :: "string \<Rightarrow> (string, string \<Rightarrow> 'r) stdmap \<Rightarrow> 'r option" where
  "resp_find_handler nm m = (case map_find m nm of Some p \<Rightarrow> Some (p nm) | None \<Rightarrow> None)"

definition resp_handler_names :: "(string, string \<Rightarrow> 'r) stdmap \<Rightarrow> string" where
  "resp_handler_names m = comma_names True m"

text \<open>\<^verbatim>\<open>BESReporterList\<close>\<close>

definition find_reporter :: "string \<Rightarrow> (string, 'h) stdmap \<Rightarrow> 'h option" where
  "find_reporter nm m = map_find m nm"

definition add_reporter :: "string \<Rightarrow> 'h \<Rightarrow> (string, 'h) stdmap \<Rightarrow> bool \<times> (string, 'h) stdmap" where
  "add_reporter nm h m = (if find_reporter nm m = None then (True, map_put nm h m) else (False, m))"

definition remove_reporter :: "string \<Rightarrow> (string, 'h) stdmap \<Rightarrow> 'h option \<times> (string, 'h) stdmap" where
  "remove_reporter nm m =
     (case map_find m nm of Some h \<Rightarrow> (Some h, map_erase nm m) | None \<Rightarrow> (None, m))"

definition report :: "(string, 'd \<Rightarrow> 'd result) stdmap \<Rightarrow> 'd \<Rightarrow> 'd result" where
  "report m d = fold_res (\<lambda>(k, r) d. r d) m d"

text \<open>\<^verbatim>\<open>BESInfoList\<close>\<close>

definition BES_DEFAULT_INFO_TYPE :: string where
  "BES_DEFAULT_INFO_TYPE = ''txt''"

definition add_info_builder ::
  "string \<Rightarrow> (string \<Rightarrow> 'i) \<Rightarrow> (string, string \<Rightarrow> 'i) stdmap \<Rightarrow> bool \<times> (string, string \<Rightarrow> 'i) stdmap" where
  "add_info_builder ty p m = (case map_find m ty of None \<Rightarrow> (True, map_put ty p m) | Some _ \<Rightarrow> (False, m))"

definition rem_info_builder ::
  "string \<Rightarrow> (string, string \<Rightarrow> 'i) stdmap \<Rightarrow> bool \<times> (string, string \<Rightarrow> 'i) stdmap" where
  "rem_info_builder ty m = (case map_find m ty of Some _ \<Rightarrow> (True, map_erase ty m) | None \<Rightarrow> (False, m))"

definition build_info :: "keystore \<Rightarrow> (string, string \<Rightarrow> 'i) stdmap \<Rightarrow> 'i option result" where
  "build_info ks m =
     res_bind (get_value ''BES.Info.Type'' ks) (\<lambda>r.
       let ty = (case r of None \<Rightarrow> BES_DEFAULT_INFO_TYPE
                 | Some v \<Rightarrow> if v = [] then BES_DEFAULT_INFO_TYPE else v)
       in Inr (case map_find m ty of Some p \<Rightarrow> Some (p ty) | None \<Rightarrow> None))"

text \<open>\<^verbatim>\<open>BESReturnManager\<close>\<close>

definition find_transmitter :: "string \<Rightarrow> (string, 't) stdmap \<Rightarrow> 't option" where
  "find_transmitter nm m = map_find m nm"

definition add_transmitter :: "string \<Rightarrow> 't \<Rightarrow> (string, 't) stdmap \<Rightarrow> bool \<times> (string, 't) stdmap" where
  "add_transmitter nm t m = (if find_transmitter nm m = None then (True, map_put nm t m) else (False, m))"

definition del_transmitter :: "string \<Rightarrow> (string, 't) stdmap \<Rightarrow> bool \<times> (string, 't) stdmap" where
  "del_transmitter nm m = (case map_find m nm of Some _ \<Rightarrow> (True, map_erase nm m) | None \<Rightarrow> (False, m))"

text \<open>The tables offer the operations of a keyed store.\<close>

lemma table_operations:
  "add_handler nm h m = smap.try_add nm h m" "remove_handler nm m = smap.try_remove nm m"
  "add_method nm h m = smap.try_add nm h m"
  "add_reporter nm h m = smap.try_add nm h m" "remove_reporter nm m = smap.try_remove nm m"
  "add_transmitter nm h m = smap.try_add nm h m"
  "resp_add_handler nm p m' = smap.try_add nm p m'" "add_info_builder nm q n = smap.try_add nm q n"
  by (simp_all add: add_handler_def find_handler_def smap.try_add_def remove_handler_def smap.try_remove_def
      add_method_def find_method_def add_reporter_def find_reporter_def remove_reporter_def
      add_transmitter_def find_transmitter_def resp_add_handler_def add_info_builder_def split: option.splits)

subsection \<open>Walking over the containers of a request\<close>

record 'x dhi =
  action :: string
  containers :: "file_container list"
  containers_iterator :: nat
  current :: "nat option"
  data :: 'x

definition first_container :: "'x dhi \<Rightarrow> 'x dhi" where
  "first_container d =
     d\<lparr>containers_iterator := 0, current := (if 0 < length (containers d) then Some 0 else None)\<rparr>"

definition next_container :: "'x dhi \<Rightarrow> 'x dhi" where
  "next_container d =
     (let i = containers_iterator d + 1
      in d\<lparr>containers_iterator := i, current := (if i < length (containers d) then Some i else None)\<rparr>)"

type_synonym 'x request_method = "'x dhi \<Rightarrow> 'x dhi result"

type_synonym 'x handler_list = "(string, (string, 'x request_method) stdmap) stdmap"

text \<open>\<open>access\<close> is the virtual \<^verbatim>\<open>BESContainer::access\<close>, which may uncompress the file or throw.\<close>

definition execute_current ::
  "(file_container \<Rightarrow> file_container result) \<Rightarrow> 'x handler_list \<Rightarrow> 'x dhi \<Rightarrow> 'x dhi result" where
  "execute_current access hl d =
     (case current d of
        None \<Rightarrow> Inr d
      | Some i \<Rightarrow>
          res_bind (access (containers d ! i)) (\<lambda>c.
            let d = d\<lparr>containers := (containers d)[i := c]\<rparr>
            in case find_handler (container_type c) hl of
                 None \<Rightarrow>
                   Inl (BESInternalError (''The data handler '' @ [CHR 0x27] @ container_type c @ [CHR 0x27]
                          @ '' does not exist''))
               | Some rh \<Rightarrow>
                   (case find_method (action d) rh of
                      None \<Rightarrow>
                        Inl (BESInternalError (''Request handler for '' @ [CHR 0x27] @ container_type c @ [CHR 0x27]
                               @ '' does not handle the response type '' @ [CHR 0x27] @ action d @ [CHR 0x27]))
                    | Some p \<Rightarrow> p d)))"

text \<open>A method can change the interface it is given, so the number of iterations is bounded
  by \<open>fuel\<close>.\<close>

fun execute_loop ::
  "nat \<Rightarrow> (file_container \<Rightarrow> file_container result) \<Rightarrow> 'x handler_list \<Rightarrow> 'x dhi \<Rightarrow> 'x dhi result option" where
  "execute_loop 0 access hl d = None"
| "execute_loop (Suc fuel) access hl d =
     (if current d = None then Some (Inr d)
      else
        (case execute_current access hl d of
           Inl e \<Rightarrow> Some (Inl e)
         | Inr d' \<Rightarrow> execute_loop fuel access hl (next_container d')))"

definition execute_each ::
  "nat \<Rightarrow> (file_container \<Rightarrow> file_container result) \<Rightarrow> 'x handler_list \<Rightarrow> 'x dhi \<Rightarrow> 'x dhi result option" where
  "execute_each fuel access hl d = execute_loop fuel access hl (first_container d)"

definition execute_all :: "'x handler_list \<Rightarrow> 'x dhi \<Rightarrow> 'x dhi result" where
  "execute_all hl d =
     fold_res (\<lambda>(nm, rh) d. case find_method (action d) rh of Some p \<Rightarrow> p d | None \<Rightarrow> Inr d) hl d"

subsection \<open>The tokenizer\<close>

record tokenizer =
  tokens :: "string list"
  counter :: int

definition parse_error :: "string \<Rightarrow> tokenizer \<Rightarrow> bes_error" where
  "parse_error s t =
     BESSyntaxUserError (''Parse error.''
       @ (if counter t \<ge> 0 then
            [CHR 0x0A] @ concat (map (\<lambda>w. w @ '' '') (take (nat (counter t + 1)) (tokens t)))
            @ ''<----HERE IS THE ERROR''
          else [])
       @ (if s \<noteq> [] then [CHR 0x0A] @ s else []))"

text \<open>\<^verbatim>\<open>tokens[0]\<close> without a token is undefined: \<^const>\<open>None\<close>.\<close>

definition get_first_token :: "tokenizer \<Rightarrow> (string \<times> tokenizer) option" where
  "get_first_token t = (if tokens t = [] then None else Some (hd (tokens t), t\<lparr>counter := 0\<rparr>))"

definition get_current_token :: "tokenizer \<Rightarrow> string result" where
  "get_current_token t =
     (if counter t < 0 \<or> counter t > int (length (tokens t)) - 1 then
        Inl (parse_error ''incomplete expression!'' t)
      else Inr (tokens t ! nat (counter t)))"

definition get_next_token :: "tokenizer \<Rightarrow> (string \<times> tokenizer) result" where
  "get_next_token t =
     (if counter t = - 1 then Inl (parse_error ''incomplete expression!'' t)
      else if counter t \<ge> int (length (tokens t)) - 1 then Inl (parse_error ''incomplete expression!'' t)
      else Inr (tokens t ! nat (counter t + 1), t\<lparr>counter := counter t + 1\<rparr>))"

record token_state =
  ts_s :: string
  passing_raw :: bool
  escaped :: bool
  ts_tokens :: "string list"

definition quote_char :: char where
  "quote_char = CHR 0x22"

definition flush :: "token_state \<Rightarrow> token_state" where
  "flush st = (if ts_s st \<noteq> [] then st\<lparr>ts_tokens := ts_tokens st @ [ts_s st], ts_s := []\<rparr> else st)"

definition token_char :: "char \<Rightarrow> token_state \<Rightarrow> token_state" where
  "token_char c st =
     (if \<not> escaped st \<and> c = quote_char then
        (let st' = (if ts_s st \<noteq> [] then
                      if passing_raw st then st\<lparr>ts_tokens := ts_tokens st @ [ts_s st @ [quote_char]], ts_s := []\<rparr>
                      else st\<lparr>ts_tokens := ts_tokens st @ [ts_s st], ts_s := [quote_char]\<rparr>
                    else st\<lparr>ts_s := [quote_char]\<rparr>)
         in st'\<lparr>passing_raw := \<not> passing_raw st\<rparr>)
      else if passing_raw st then
        if \<not> escaped st \<and> c = CHR 0x5C then st\<lparr>escaped := True\<rparr>
        else st\<lparr>ts_s := ts_s st @ [c], escaped := False\<rparr>
      else if c = CHR '' '' \<or> c = CHR 0x0A \<or> c = CHR 0x0D then flush st
      else if c = CHR '','' \<or> c = CHR '';'' then
        (let st' = flush st in st'\<lparr>ts_tokens := ts_tokens st' @ [[c]]\<rparr>)
      else st\<lparr>ts_s := ts_s st @ [c]\<rparr>)"

definition tokenize_request :: "string \<Rightarrow> tokenizer \<Rightarrow> tokenizer result" where
  "tokenize_request p t =
     (let st = fold token_char p \<lparr>ts_s = [], passing_raw = False, escaped = False, ts_tokens = tokens t\<rparr>;
          st = flush st;
          t = t\<lparr>tokens := ts_tokens st\<rparr>
      in if passing_raw st then Inl (parse_error (''Unclose quote found.('' @ [quote_char] @ '')'') t)
         else if tokens t = [] then
           Inl (parse_error (''Unknown command: '' @ [CHR 0x27] @ p @ [CHR 0x27]) t)
         else if last (tokens t) \<noteq> '';'' then
           Inl (parse_error ''The request must be terminated by a semicolon (;)'' t)
         else Inr t)"

text \<open>\<^verbatim>\<open>s.rfind(pat, s.size())\<close>\<close>

fun rfind_from :: "string \<Rightarrow> string \<Rightarrow> nat \<Rightarrow> nat option" where
  "rfind_from s pat 0 = (if prefix pat s then Some 0 else None)"
| "rfind_from s pat (Suc n) = (if prefix pat (drop (Suc n) s) then Some (Suc n) else rfind_from s pat n)"

definition parse_container_name :: "string \<Rightarrow> tokenizer \<Rightarrow> (string \<times> nat) result" where
  "parse_container_name s t =
     (let found = (case rfind_from s ''.constraint='' (length s) of
                     Some w \<Rightarrow> Some (w, 1)
                   | None \<Rightarrow> (case rfind_from s ''.attributes='' (length s) of Some w \<Rightarrow> Some (w, 2) | None \<Rightarrow> None))
      in case found of
           None \<Rightarrow> Inl (parse_error ''Expected property declaration.'' t)
         | Some (w, ty) \<Rightarrow>
             (let valid = drop w s
              in if valid \<noteq> ''.constraint='' \<and> valid \<noteq> ''.attributes='' then
                   Inl (parse_error (''Invalid container property '' @ valid @ '' for container '' @ take w s
                          @ ''. constraint expressions and attribute lists must be wrapped in quotes'') t)
                 else Inr (take w s, ty)))"

definition remove_quotes :: "string \<Rightarrow> tokenizer \<Rightarrow> string result" where
  "remove_quotes s t =
     (if s = [] \<or> hd s \<noteq> quote_char \<or> last s \<noteq> quote_char then
        Inl (parse_error (''item '' @ s @ '' must be enclosed by quotes'') t)
      else Inr (substr s 1 (length s - 2)))"

subsection \<open>Reading back a request\<close>

text \<open>The tokens of a request and how they are written: words, the two punctuation characters,
  and quoted text with quotes and backslashes escaped.\<close>

datatype request_token = Word string | Punct char | Quoted string

definition escape_raw :: "string \<Rightarrow> string" where
  "escape_raw s = concat (map (\<lambda>c. if c = quote_char \<or> c = CHR 0x5C then [CHR 0x5C, c] else [c]) s)"

fun token_source :: "request_token \<Rightarrow> string" where
  "token_source (Word w) = w"
| "token_source (Punct c) = [c]"
| "token_source (Quoted s) = quote_char # escape_raw s @ [quote_char]"

fun token_value :: "request_token \<Rightarrow> string" where
  "token_value (Word w) = w"
| "token_value (Punct c) = [c]"
| "token_value (Quoted s) = quote_char # s @ [quote_char]"

definition word_char :: "char \<Rightarrow> bool" where
  "word_char c \<longleftrightarrow> c \<notin> set [quote_char, CHR '' '', CHR 0x0A, CHR 0x0D, CHR '','', CHR '';'']"

fun token_ok :: "request_token \<Rightarrow> bool" where
  "token_ok (Word w) \<longleftrightarrow> w \<noteq> [] \<and> (\<forall>c \<in> set w. word_char c)"
| "token_ok (Punct c) \<longleftrightarrow> c = CHR '','' \<or> c = CHR '';''"
| "token_ok (Quoted s) \<longleftrightarrow> True"

definition idle :: "string list \<Rightarrow> token_state" where
  "idle ts = \<lparr>ts_s = [], passing_raw = False, escaped = False, ts_tokens = ts\<rparr>"

lemma quote_char_neq: "quote_char \<noteq> CHR 0x5C" "quote_char \<noteq> CHR '' ''"
  by (simp_all add: quote_char_def)

lemma token_char_word: "word_char c \<Longrightarrow> token_char c \<lparr>ts_s = s, passing_raw = False, escaped = False, ts_tokens = ts\<rparr> =
    \<lparr>ts_s = s @ [c], passing_raw = False, escaped = False, ts_tokens = ts\<rparr>"
  by (simp add: token_char_def word_char_def)

lemma fold_token_word:
  "\<forall>c \<in> set w. word_char c \<Longrightarrow>
    fold token_char w \<lparr>ts_s = s, passing_raw = False, escaped = False, ts_tokens = ts\<rparr> =
    \<lparr>ts_s = s @ w, passing_raw = False, escaped = False, ts_tokens = ts\<rparr>"
  by (induction w arbitrary: s) (simp_all add: token_char_word)

lemma fold_token_raw:
  "fold token_char (escape_raw w) \<lparr>ts_s = s, passing_raw = True, escaped = False, ts_tokens = ts\<rparr> =
    \<lparr>ts_s = s @ w, passing_raw = True, escaped = False, ts_tokens = ts\<rparr>"
proof (induction w arbitrary: s)
  case Nil
  then show ?case by (simp add: escape_raw_def)
next
  case (Cons c w)
  have "fold token_char (if c = quote_char \<or> c = CHR 0x5C then [CHR 0x5C, c] else [c])
      \<lparr>ts_s = s, passing_raw = True, escaped = False, ts_tokens = ts\<rparr> =
      \<lparr>ts_s = s @ [c], passing_raw = True, escaped = False, ts_tokens = ts\<rparr>"
    using quote_char_neq(1) by (auto simp: token_char_def)
  moreover have "escape_raw (c # w) = (if c = quote_char \<or> c = CHR 0x5C then [CHR 0x5C, c] else [c]) @ escape_raw w"
    by (simp add: escape_raw_def)
  ultimately show ?case using Cons.IH [of "s @ [c]"] by (simp only: fold_append comp_apply append_assoc append.simps)
qed

lemma token_blank: "token_char (CHR '' '') \<lparr>ts_s = s, passing_raw = False, escaped = False, ts_tokens = ts\<rparr> =
    (if s = [] then idle ts else idle (ts @ [s]))"
  by (simp add: token_char_def quote_char_def flush_def idle_def)

lemma fold_token_source:
  assumes "token_ok t"
  shows "fold token_char (token_source t @ '' '') (idle ts) = idle (ts @ [token_value t])"
proof (cases t)
  case (Word w)
  with assms fold_token_word [of w "[]" ts] show ?thesis by (simp add: token_blank) (simp add: idle_def token_blank)
next
  case (Punct c)
  with assms have "token_char c (idle ts) = idle (ts @ [[c]])"
    by (auto simp: token_char_def quote_char_def idle_def flush_def Let_def)
  with Punct show ?thesis by (simp add: token_blank) (simp add: idle_def token_blank)
next
  case (Quoted s)
  have q1: "token_char quote_char (idle ts) = \<lparr>ts_s = [quote_char], passing_raw = True, escaped = False, ts_tokens = ts\<rparr>"
    by (simp add: token_char_def idle_def)
  have q2: "token_char quote_char \<lparr>ts_s = quote_char # s, passing_raw = True, escaped = False, ts_tokens = ts\<rparr> =
      idle (ts @ [quote_char # s @ [quote_char]])"
    by (simp add: token_char_def idle_def)
  have "token_char (CHR '' '') (idle us) = idle us" for us by (simp add: idle_def token_blank)
  with Quoted q1 q2 fold_token_raw [of s "[quote_char]" ts] show ?thesis by simp
qed

lemma fold_token_sources:
  "\<forall>t \<in> set ts. token_ok t \<Longrightarrow>
    fold token_char (concat (map (\<lambda>t. token_source t @ '' '') ts)) (idle us) = idle (us @ map token_value ts)"
proof (induction ts arbitrary: us)
  case (Cons t ts)
  have "fold token_char (concat (map (\<lambda>t. token_source t @ '' '') (t # ts))) (idle us) =
      fold token_char (concat (map (\<lambda>t. token_source t @ '' '') ts)) (fold token_char (token_source t @ '' '') (idle us))"
    by simp
  also have "\<dots> = idle (us @ map token_value (t # ts))"
    using Cons fold_token_source [of t us] by simp
  finally show ?case .
qed simp

subsection \<open>Each container once\<close>

text \<open>Methods that leave the list of containers and the position in it alone.\<close>

definition keeps_position :: "'x request_method \<Rightarrow> bool" where
  "keeps_position p \<longleftrightarrow> (\<forall>d d'. p d = Inr d' \<longrightarrow>
     length (containers d') = length (containers d) \<and> containers_iterator d' = containers_iterator d
     \<and> current d' = current d)"

definition goto :: "nat \<Rightarrow> 'x dhi \<Rightarrow> 'x dhi" where
  "goto i d = d\<lparr>containers_iterator := i, current := Some i\<rparr>"

definition at_container :: "nat \<Rightarrow> 'x dhi \<Rightarrow> bool" where
  "at_container i d \<longleftrightarrow> containers_iterator d = i \<and> current d = (if i < length (containers d) then Some i else None)"

lemma execute_current_keeps:
  assumes "\<forall>nm rh ac p. map_find hl nm = Some rh \<longrightarrow> map_find rh ac = Some p \<longrightarrow> keeps_position p"
    and "execute_current access hl d = Inr d'"
  shows "length (containers d') = length (containers d) \<and> containers_iterator d' = containers_iterator d
    \<and> current d' = current d"
proof (cases "current d")
  case None
  with assms(2) show ?thesis by (simp add: execute_current_def)
next
  case (Some i)
  with assms(2) obtain c rh p where p: "map_find hl (container_type c) = Some rh"
      "map_find rh (action d) = Some p" "p (d\<lparr>containers := (containers d)[i := c]\<rparr>) = Inr d'"
    by (auto simp: execute_current_def res_bind_Inr_iff find_handler_def find_method_def Let_def
        split: option.splits)
  from assms(1) p(1,2) have "keeps_position p" by blast
  with p(3) show ?thesis unfolding keeps_position_def by fastforce
qed

lemma execute_loop_all:
  assumes "\<forall>nm rh ac p. map_find hl nm = Some rh \<longrightarrow> map_find rh ac = Some p \<longrightarrow> keeps_position p"
    and "at_container i d" and "i \<le> length (containers d)" and "length (containers d) - i < fuel"
  shows "execute_loop fuel access hl d = Some (res_bind
    (fold_res (\<lambda>j d. execute_current access hl (goto j d)) [i..<length (containers d)] d)
    (\<lambda>d'. Inr (d'\<lparr>containers_iterator := length (containers d), current := None\<rparr>)))"
  using assms(2-4)
proof (induction fuel arbitrary: i d)
  case 0
  then show ?case by simp
next
  case (Suc fuel)
  show ?case
  proof (cases "i < length (containers d)")
    case False
    with Suc.prems have "current d = None" "i = length (containers d)" "containers_iterator d = i"
      by (auto simp: at_container_def)
    then show ?thesis by simp
  next
    case True
    then have cur: "current d = Some i" "containers_iterator d = i" using Suc.prems by (auto simp: at_container_def)
    then have g: "goto i d = d" by (simp add: goto_def)
    have range: "[i..<length (containers d)] = i # [Suc i..<length (containers d)]" using True by (simp add: upt_conv_Cons)
    show ?thesis
    proof (cases "execute_current access hl d")
      case (Inl e)
      with cur g range show ?thesis by simp
    next
      case (Inr d')
      note k = execute_current_keeps [OF assms(1) Inr]
      have at: "at_container (Suc i) (next_container d')"
        using k cur by (simp add: at_container_def next_container_def Let_def)
      have len: "length (containers (next_container d')) = length (containers d)"
        using k by (simp add: next_container_def Let_def)
      have same: "fold_res (\<lambda>j d. execute_current access hl (goto j d)) js (next_container d') =
          fold_res (\<lambda>j d. execute_current access hl (goto j d)) js d'" if "js \<noteq> []" for js
        using that by (cases js) (simp_all add: goto_def next_container_def Let_def)
      have "execute_loop fuel access hl (next_container d') = Some (res_bind
          (fold_res (\<lambda>j d. execute_current access hl (goto j d)) [Suc i..<length (containers d)] (next_container d'))
          (\<lambda>d'. Inr (d'\<lparr>containers_iterator := length (containers d), current := None\<rparr>)))"
        using Suc.IH [OF at] len True Suc.prems(3) by simp
      then have "execute_loop fuel access hl (next_container d') = Some (res_bind
          (fold_res (\<lambda>j d. execute_current access hl (goto j d)) [Suc i..<length (containers d)] d')
          (\<lambda>d'. Inr (d'\<lparr>containers_iterator := length (containers d), current := None\<rparr>)))"
      proof (cases "Suc i < length (containers d)")
        case True
        then have "[Suc i..<length (containers d)] \<noteq> []" by (cases "containers d") auto
        from same [OF this] show "execute_loop fuel access hl (next_container d') = Some (res_bind
            (fold_res (\<lambda>j d. execute_current access hl (goto j d)) [Suc i..<length (containers d)] (next_container d'))
            (\<lambda>d'. Inr (d'\<lparr>containers_iterator := length (containers d), current := None\<rparr>))) \<Longrightarrow> ?thesis"
          by simp
      next
        case False
        assume *: "execute_loop fuel access hl (next_container d') = Some (res_bind
          (fold_res (\<lambda>j d. execute_current access hl (goto j d)) [Suc i..<length (containers d)] (next_container d'))
          (\<lambda>d'. Inr (d'\<lparr>containers_iterator := length (containers d), current := None\<rparr>)))"
        have "[Suc i..<length (containers d)] = []" using False by (simp only: upt_eq_Nil_conv) simp
        with * show ?thesis unfolding \<open>[Suc i..<length (containers d)] = []\<close> fold_res.simps res_bind.simps
          by (simp add: next_container_def Let_def)
      qed
      with cur g range Inr show ?thesis by simp
    qed
  qed
qed

subsection \<open>Properties of the dispatch tables\<close>

text \<open>
  A table of request handlers keeps names unique: adding a handler succeeds only under a
  free name and changes no other entry, and removing it returns that handler and restores
  the table.
\<close>

theorem handler_table:
  assumes "map_ok m" and "find_handler nm m = None"
  shows "fst (add_handler nm h m) \<and> find_handler nm (snd (add_handler nm h m)) = Some h
    \<and> (\<forall>k h'. k \<noteq> nm \<longrightarrow> find_handler k (snd (add_handler nm h m)) = find_handler k m)
    \<and> add_handler nm h' (snd (add_handler nm h m)) = (False, snd (add_handler nm h m))
    \<and> remove_handler nm (snd (add_handler nm h m)) = (Some h, m)"
proof -
  have none: "map_find m nm = None" using assms(2) by (simp add: find_handler_def)
  have "snd (smap.try_remove nm (snd (smap.try_add nm h m))) = m"
    using assms(1) none smap.try_add_remove(2) [OF assms(1) none, of h]
    by (intro map_ok_ext) (auto intro: smap.try_remove_invar smap.try_add_invar)
  with smap.try_add_remove(1) [OF assms(1) none, of h] have r: "remove_handler nm (snd (add_handler nm h m)) = (Some h, m)"
    unfolding table_operations by (metis prod.collapse)
  show ?thesis
    using r none by (simp add: add_handler_def find_handler_def)
qed

theorem handler_table_witness:
  "remove_handler ''nc'' (snd (add_handler ''nc'' (1::nat) [(''csv'', 2)])) = (Some 1, [(''csv'', 2)])"
  using handler_table [of "[(''csv'', 2::nat)]" "''nc''" 1 3] by (simp add: find_handler_def map_ok_Cons)

text \<open>
  C30: \<^verbatim>\<open>execute_each\<close> calls the handler of each container of the request exactly once, in
  the order of the list, and stops at the first error; it ends after as many iterations as
  there are containers.  The handlers' methods must leave the list of containers in place.
\<close>

theorem execute_each_in_order:
  assumes "\<forall>nm rh ac p. map_find hl nm = Some rh \<longrightarrow> map_find rh ac = Some p \<longrightarrow> keeps_position p"
    and "length (containers d) < fuel"
  shows "execute_each fuel access hl d = Some (res_bind
    (fold_res (\<lambda>i d. execute_current access hl (goto i d)) [0..<length (containers d)] (first_container d))
    (\<lambda>d'. Inr (d'\<lparr>containers_iterator := length (containers d), current := None\<rparr>)))"
proof -
  have "at_container 0 (first_container d)" "length (containers (first_container d)) = length (containers d)"
    by (simp_all add: at_container_def first_container_def)
  with execute_loop_all [OF assms(1), of 0 "first_container d" fuel access] assms(2) show ?thesis
    by (simp add: execute_each_def)
qed

theorem execute_each_in_order_witness:
  "execute_each 2 Inr [(''nc'', [(''das'', \<lambda>d. Inr (d\<lparr>data := Suc (data d)\<rparr>))])]
     \<lparr>action = ''das'', containers = [ptr_duplicate undefined\<lparr>container_type := ''nc''\<rparr>], containers_iterator = 7,
      current = None, data = 0\<rparr> =
   Some (Inr \<lparr>action = ''das'', containers = [ptr_duplicate undefined\<lparr>container_type := ''nc''\<rparr>],
      containers_iterator = 1, current = None, data = 1\<rparr>)"
proof -
  let ?hl = "[(''nc'', [(''das'', \<lambda>d. Inr (d\<lparr>data := Suc (data d)\<rparr>))])] :: nat handler_list"
  have k: "\<forall>nm rh ac p. map_find ?hl nm = Some rh \<longrightarrow> map_find rh ac = Some p \<longrightarrow> keeps_position p"
    by (auto simp: keeps_position_def split: if_splits)
  show ?thesis
    by (subst execute_each_in_order [OF k])
      (simp_all add: first_container_def goto_def execute_current_def find_handler_def find_method_def ptr_duplicate_def)
qed

text \<open>
  The tokenizer reads back every request that is written as its tokens separated by
  blanks and ends in a semicolon: words, commas and semicolons as they are, and quoted text
  with quotes and backslashes escaped, whatever characters it has.
\<close>

theorem tokenize_request_tokens:
  assumes "\<forall>t \<in> set ts. token_ok t" and "ts \<noteq> []" and "last ts = Punct (CHR '';'')"
  shows "tokenize_request (concat (map (\<lambda>t. token_source t @ '' '') ts)) \<lparr>tokens = [], counter = k\<rparr> =
    Inr \<lparr>tokens = map token_value ts, counter = k\<rparr>"
proof -
  have "fold token_char (concat (map (\<lambda>t. token_source t @ '' '') ts))
      \<lparr>ts_s = [], passing_raw = False, escaped = False, ts_tokens = []\<rparr> = idle (map token_value ts)"
    using fold_token_sources [OF assms(1), of "[]"] by (simp add: idle_def)
  moreover have "last (map token_value ts) = '';''" using assms(2,3) by (simp add: last_map)
  ultimately show ?thesis using assms(2)
    by (simp add: tokenize_request_def Let_def) (simp add: idle_def flush_def)
qed

theorem tokenize_request_tokens_witness:
  "tokenize_request (concat (map (\<lambda>t. token_source t @ '' '') [Word ''get'', Quoted [CHR 0x5C, quote_char], Punct (CHR '';'')]))
     \<lparr>tokens = [], counter = - 1\<rparr> =
   Inr \<lparr>tokens = [''get'', [quote_char, CHR 0x5C, quote_char, quote_char], '';''], counter = - 1\<rparr>"
  using tokenize_request_tokens [of "[Word ''get'', Quoted [CHR 0x5C, quote_char], Punct (CHR '';'')]" "- 1"]
  by (simp add: word_char_def quote_char_def)

end
