(* ===== verification/Obj_Mem_Cache.thy ===== *)
theory Obj_Mem_Cache
  imports Std_Map
begin

text \<open>
  \<^verbatim>\<open>dap/ObjMemCache\<close>, the in-memory cache of response objects: a map from ages to entries
  and an index from keys to ages.  Every access gives the entry a new age, and purging
  removes the entries with the smallest ages.

  The specification is a list of keys and objects, least recently used first (\<open>lru_get\<close>,
  \<open>lru_add\<close>, \<open>lru_remove\<close>).  The cache refines it: \<open>cache_abs\<close> maps a cache to that list and
  every operation commutes with it, as long as the two maps agree (\<open>cache_ok\<close>), which every
  operation keeps.  Ages are 64 bit but the map's keys are \<^verbatim>\<open>unsigned int\<close>, so all of this holds
  for the first \<open>2 ^ 32\<close> accesses.

  The fraction to purge is a \<^verbatim>\<open>float\<close>; the number of entries it stands for, given the
  size of the cache, is the parameter \<open>frac\<close>.
\<close>

datatype cache_error = AssertionFailed

record 'o entry =
  d_obj :: 'o
  d_name :: string

record 'o obj_cache =
  d_age :: nat
  d_entries_threshold :: nat
  cache :: "(nat, 'o entry) stdmap"
  index :: "(string, nat) stdmap"

definition new_cache :: "nat \<Rightarrow> 'o obj_cache" where
  "new_cache entries_threshold =
     \<lparr>d_age = 0, d_entries_threshold = entries_threshold, cache = [], index = []\<rparr>"

text \<open>\<^verbatim>\<open>++d_age\<close>, and its conversion to the key of the map.\<close>

definition next_age :: "'o obj_cache \<Rightarrow> nat" where
  "next_age c = (d_age c + 1) mod 2 ^ 64"

definition age_key :: "nat \<Rightarrow> nat" where
  "age_key a = a mod 2 ^ 32"

fun purge_loop :: "nat \<Rightarrow> 'o obj_cache \<Rightarrow> cache_error + 'o obj_cache" where
  "purge_loop 0 c = Inr c"
| "purge_loop (Suc n) c =
     (case cache c of
        [] \<Rightarrow> Inr c
      | (a, e) # rest \<Rightarrow>
          (case map_find (index c) (d_name e) of
             None \<Rightarrow> Inl AssertionFailed
           | Some _ \<Rightarrow> purge_loop n (c\<lparr>index := map_erase (d_name e) (index c), cache := rest\<rparr>)))"

definition purge :: "(nat \<Rightarrow> nat) \<Rightarrow> 'o obj_cache \<Rightarrow> cache_error + 'o obj_cache" where
  "purge frac c = purge_loop (frac (length (cache c))) c"

definition add :: "(nat \<Rightarrow> nat) \<Rightarrow> 'o \<Rightarrow> string \<Rightarrow> 'o obj_cache \<Rightarrow> cache_error + 'o obj_cache" where
  "add frac obj key c =
     (let c = c\<lparr>d_age := next_age c\<rparr>
      in case (if d_entries_threshold c \<noteq> 0 \<and> length (cache c) > d_entries_threshold c then purge frac c
               else Inr c) of
           Inl e \<Rightarrow> Inl e
         | Inr c \<Rightarrow>
             Inr (c\<lparr>index := map_insert key (age_key (d_age c)) (index c),
                    cache := map_insert (age_key (d_age c)) \<lparr>d_obj = obj, d_name = key\<rparr> (cache c)\<rparr>))"

definition remove :: "string \<Rightarrow> 'o obj_cache \<Rightarrow> cache_error + 'o obj_cache" where
  "remove key c =
     (case map_find (index c) key of
        None \<Rightarrow> Inr c
      | Some count \<Rightarrow>
          (case map_find (cache c) count of
             None \<Rightarrow> Inl AssertionFailed
           | Some _ \<Rightarrow> Inr (c\<lparr>index := map_erase key (index c), cache := map_erase count (cache c)\<rparr>)))"

text \<open>
  The assertion on the entry precedes the test that throws \<^verbatim>\<open>InternalErr\<close>, so a missing entry is an
  assertion failure here as well.
\<close>

definition get :: "string \<Rightarrow> 'o obj_cache \<Rightarrow> cache_error + ('o option \<times> 'o obj_cache)" where
  "get key c =
     (case map_find (index c) key of
        None \<Rightarrow> Inr (None, c)
      | Some a \<Rightarrow>
          (case map_find (cache c) a of
             None \<Rightarrow> Inl AssertionFailed
           | Some e \<Rightarrow>
               (let age = next_age c
                in Inr (Some (d_obj e),
                        c\<lparr>d_age := age,
                          index := map_insert key (age_key age) (map_erase key (index c)),
                          cache := map_insert (age_key age) e (map_erase a (cache c))\<rparr>))))"

subsection \<open>The specification\<close>

type_synonym 'o lru = "(string \<times> 'o) list"

definition lru_remove :: "string \<Rightarrow> 'o lru \<Rightarrow> 'o lru" where
  "lru_remove key xs = filter (\<lambda>p. fst p \<noteq> key) xs"

definition lru_get :: "string \<Rightarrow> 'o lru \<Rightarrow> 'o option \<times> 'o lru" where
  "lru_get key xs =
     (case map_of xs key of None \<Rightarrow> (None, xs) | Some obj \<Rightarrow> (Some obj, lru_remove key xs @ [(key, obj)]))"

definition lru_add :: "(nat \<Rightarrow> nat) \<Rightarrow> nat \<Rightarrow> 'o \<Rightarrow> string \<Rightarrow> 'o lru \<Rightarrow> 'o lru" where
  "lru_add frac threshold obj key xs =
     (if threshold \<noteq> 0 \<and> length xs > threshold then drop (frac (length xs)) xs else xs) @ [(key, obj)]"

definition cache_abs :: "'o obj_cache \<Rightarrow> 'o lru" where
  "cache_abs c = map (\<lambda>(a, e). (d_name e, d_obj e)) (cache c)"

definition cache_ok :: "'o obj_cache \<Rightarrow> bool" where
  "cache_ok c \<longleftrightarrow> map_ok (cache c) \<and> map_ok (index c) \<and> d_age c < 2 ^ 32
     \<and> (\<forall>(a, e) \<in> set (cache c). a \<le> d_age c)
     \<and> (\<forall>k a. map_find (index c) k = Some a \<longleftrightarrow> (\<exists>e. map_find (cache c) a = Some e \<and> d_name e = k))"

lemma cache_okD:
  assumes "cache_ok c"
  shows "map_ok (cache c)" "map_ok (index c)" "d_age c < 2 ^ 32"
    and "(a, e) \<in> set (cache c) \<Longrightarrow> a \<le> d_age c"
    and "map_find (index c) k = Some a \<longleftrightarrow> (\<exists>e. (a, e) \<in> set (cache c) \<and> d_name e = k)"
proof -
  show ok: "map_ok (cache c)" "map_ok (index c)" "d_age c < 2 ^ 32" using assms by (auto simp: cache_ok_def)
  show "(a, e) \<in> set (cache c) \<Longrightarrow> a \<le> d_age c" using assms by (auto simp: cache_ok_def)
  have "map_find (index c) k = Some a \<longleftrightarrow> (\<exists>e. map_find (cache c) a = Some e \<and> d_name e = k)"
    using assms unfolding cache_ok_def by blast
  then show "map_find (index c) k = Some a \<longleftrightarrow> (\<exists>e. (a, e) \<in> set (cache c) \<and> d_name e = k)"
    by (simp only: map_ok_find_iff [OF ok(1)])
qed

lemma cache_okI:
  assumes "map_ok (cache c)" and "map_ok (index c)" and "d_age c < 2 ^ 32"
    and "\<And>a e. (a, e) \<in> set (cache c) \<Longrightarrow> a \<le> d_age c"
    and "\<And>k a. map_find (index c) k = Some a \<longleftrightarrow> (\<exists>e. (a, e) \<in> set (cache c) \<and> d_name e = k)"
  shows "cache_ok c"
  unfolding cache_ok_def using assms by (auto simp: map_ok_find_iff [OF assms(1)])

text \<open>Names are unique, so a key's entry is the one the index points to.\<close>

lemma cache_names:
  assumes "cache_ok c" and "(a, e) \<in> set (cache c)" and "(b, f) \<in> set (cache c)" and "d_name e = d_name f"
  shows "a = b \<and> e = f"
proof -
  have "map_find (index c) (d_name e) = Some a" "map_find (index c) (d_name e) = Some b"
    using cache_okD(5) [OF assms(1)] assms(2-4) by auto
  then have ab: "a = b" by simp
  with assms(2,3) map_ok_find_iff [OF cache_okD(1) [OF assms(1)]] show ?thesis by (metis option.inject)
qed

lemma abs_lookup:
  assumes "cache_ok c"
  shows "map_of (cache_abs c) key =
    (case map_find (index c) key of None \<Rightarrow> None | Some a \<Rightarrow> map_option d_obj (map_find (cache c) a))"
proof (cases "map_find (index c) key")
  case None
  have "key \<notin> fst ` set (cache_abs c)"
  proof
    assume "key \<in> fst ` set (cache_abs c)"
    then obtain a e where "(a, e) \<in> set (cache c)" "d_name e = key" by (auto simp: cache_abs_def)
    then have "map_find (index c) key = Some a" using cache_okD(5) [OF assms] by blast
    with None show False by simp
  qed
  then have "map_of (cache_abs c) key = None" by (simp only: map_of_eq_None_iff not_False_eq_True)
  with None show ?thesis by (simp only: option.case)
next
  case (Some a)
  then obtain e where e: "(a, e) \<in> set (cache c)" "d_name e = key" using cache_okD(5) [OF assms] by blast
  have "distinct (map fst (cache_abs c))"
    using map_ok_distinct [OF cache_okD(1) [OF assms]] cache_names [OF assms]
    by (auto simp: cache_abs_def distinct_map inj_on_def comp_def case_prod_beta)
  moreover have "(key, d_obj e) \<in> set (cache_abs c)" using e by (force simp: cache_abs_def)
  ultimately have "map_of (cache_abs c) key = Some (d_obj e)" by simp
  moreover have "map_find (cache c) a = Some e" using e(1) map_ok_find_iff [OF cache_okD(1) [OF assms]] by blast
  ultimately show ?thesis using Some by simp
qed

lemma fresh_iff: "cache_ok c \<Longrightarrow> map_find (index c) key = None \<longleftrightarrow> key \<notin> fst ` set (cache_abs c)"
  using abs_lookup [of c key] cache_okD(5) [of c key] map_ok_find_iff [OF cache_okD(1)]
  by (metis (no_types, lifting) map_of_eq_None_iff option.case_eq_if option.exhaust_sel option.map_disc_iff option.simps(3))

subsection \<open>Every operation refines its specification\<close>

lemma erase_ok:
  assumes "cache_ok c" and "(a, e) \<in> set (cache c)"
  shows "cache_ok (c\<lparr>index := map_erase (d_name e) (index c), cache := map_erase a (cache c)\<rparr>)
    \<and> cache_abs (c\<lparr>index := map_erase (d_name e) (index c), cache := map_erase a (cache c)\<rparr>)
      = lru_remove (d_name e) (cache_abs c)"
proof
  let ?c = "c\<lparr>index := map_erase (d_name e) (index c), cache := map_erase a (cache c)\<rparr>"
  have in_erase: "(b, f) \<in> set (map_erase a (cache c)) \<longleftrightarrow> (b, f) \<in> set (cache c) \<and> d_name f \<noteq> d_name e" for b f
  proof -
    have "f = e" if "(a, f) \<in> set (cache c)"
      using that assms(2) unfolding map_ok_find_iff [OF cache_okD(1) [OF assms(1)], symmetric] by simp
    then show ?thesis using cache_names [OF assms(1), of b f a e] assms(2) by (auto simp: map_erase_def)
  qed
  show "cache_ok ?c"
  proof (rule cache_okI)
    fix k b
    have "map_find (index ?c) k = Some b \<longleftrightarrow> k \<noteq> d_name e \<and> map_find (index c) k = Some b" by simp
    also have "\<dots> \<longleftrightarrow> (\<exists>f. (b, f) \<in> set (cache ?c) \<and> d_name f = k)"
      unfolding cache_okD(5) [OF assms(1)] using in_erase by auto
    finally show "map_find (index ?c) k = Some b \<longleftrightarrow> (\<exists>f. (b, f) \<in> set (cache ?c) \<and> d_name f = k)" .
  next
    fix b f assume "(b, f) \<in> set (cache ?c)"
    then have "(b, f) \<in> set (cache c)" using in_erase by simp
    then show "b \<le> d_age ?c" using cache_okD(4) [OF assms(1)] by simp
  qed (use cache_okD [OF assms(1)] in auto)
  have "filter (\<lambda>p. fst p \<noteq> a) (cache c) = filter (\<lambda>p. d_name (snd p) \<noteq> d_name e) (cache c)"
  proof (rule filter_cong [OF refl])
    fix p assume "p \<in> set (cache c)"
    then show "(fst p \<noteq> a) = (d_name (snd p) \<noteq> d_name e)"
      using in_erase [of "fst p" "snd p"] by (simp add: map_erase_def)
  qed
  then show "cache_abs ?c = lru_remove (d_name e) (cache_abs c)"
    by (simp add: cache_abs_def lru_remove_def map_erase_def filter_map comp_def case_prod_beta)
qed

lemma insert_ok:
  assumes "cache_ok c" and "map_find (index c) key = None"
    and lt: "\<forall>q \<in> set (cache c). fst q < d_age c"
  shows "cache_ok (c\<lparr>index := map_insert key (age_key (d_age c)) (index c),
            cache := map_insert (age_key (d_age c)) \<lparr>d_obj = obj, d_name = key\<rparr> (cache c)\<rparr>)
    \<and> cache_abs (c\<lparr>index := map_insert key (age_key (d_age c)) (index c),
            cache := map_insert (age_key (d_age c)) \<lparr>d_obj = obj, d_name = key\<rparr> (cache c)\<rparr>)
      = cache_abs c @ [(key, obj)]"
proof -
  let ?e = "\<lparr>d_obj = obj, d_name = key\<rparr>"
  have age: "age_key (d_age c) = d_age c" using cache_okD(3) [OF assms(1)] by (simp add: age_key_def)
  from lt have new: "map_find (cache c) (d_age c) = None" by (force simp: map_of_eq_None_iff)
  have c: "map_insert (d_age c) ?e (cache c) = cache c @ [(d_age c, ?e)]"
    using new map_put_append [OF lt] by (simp add: map_insert_def)
  have i: "map_insert key (d_age c) (index c) = map_put key (d_age c) (index c)"
    using assms(2) by (simp add: map_insert_def)
  have "cache_ok (c\<lparr>index := map_put key (d_age c) (index c), cache := cache c @ [(d_age c, ?e)]\<rparr>)" (is "cache_ok ?c")
  proof (rule cache_okI)
    show "map_ok (cache ?c)" using map_ok_put [OF cache_okD(1) [OF assms(1)], of "d_age c" ?e] map_put_append [OF lt, of ?e] by simp
    fix k a
    show "map_find (index ?c) k = Some a \<longleftrightarrow> (\<exists>f. (a, f) \<in> set (cache ?c) \<and> d_name f = k)"
    proof (cases "k = key")
      case True
      have "\<nexists>f. (a, f) \<in> set (cache c) \<and> d_name f = key" using cache_okD(5) [OF assms(1), of key a] assms(2) by simp
      with True show ?thesis by auto
    next
      case False
      then show ?thesis using cache_okD(5) [OF assms(1), of k a] by auto
    qed
  qed (use cache_okD [OF assms(1)] lt in \<open>fastforce+\<close>)
  then show ?thesis unfolding age c i by (simp add: cache_abs_def)
qed

lemma purge_loop_ok:
  assumes "cache_ok c"
  shows "\<exists>c'. purge_loop n c = Inr c' \<and> cache_ok c' \<and> cache_abs c' = drop n (cache_abs c)
    \<and> d_age c' = d_age c \<and> d_entries_threshold c' = d_entries_threshold c \<and> set (cache c') \<subseteq> set (cache c)"
  using assms
proof (induction n arbitrary: c)
  case 0
  then show ?case by simp
next
  case (Suc n)
  show ?case
  proof (cases "cache c")
    case Nil
    with Suc.prems show ?thesis by (simp add: cache_abs_def)
  next
    case (Cons p rest)
    obtain a e where p: "p = (a, e)" by (cases p)
    have idx: "map_find (index c) (d_name e) = Some a" using cache_okD(5) [OF Suc.prems] Cons p by auto
    have rest: "map_erase a (cache c) = rest"
      using cache_okD(1) [OF Suc.prems] Cons p by (auto simp: map_erase_def map_ok_Cons filter_id_conv)
    let ?c = "c\<lparr>index := map_erase (d_name e) (index c), cache := rest\<rparr>"
    have "cache_ok ?c" using erase_ok [OF Suc.prems, of a e] Cons p unfolding rest by simp
    from Suc.IH [OF this] obtain c' where "purge_loop n ?c = Inr c'" "cache_ok c'"
        "cache_abs c' = drop n (cache_abs ?c)" "d_age c' = d_age c"
        "d_entries_threshold c' = d_entries_threshold c" "set (cache c') \<subseteq> set rest" by auto
    then show ?thesis using Cons p idx by (auto simp: cache_abs_def)
  qed
qed

definition room :: "'o obj_cache \<Rightarrow> bool" where
  "room c \<longleftrightarrow> d_age c + 1 < 2 ^ 32"

lemma age_update_ok:
  assumes "cache_ok c" and "room c"
  shows "next_age c = d_age c + 1" and "cache_ok (c\<lparr>d_age := d_age c + 1\<rparr>)"
    and "(a, e) \<in> set (cache c) \<Longrightarrow> a < d_age c + 1"
proof -
  show "next_age c = d_age c + 1" using assms(2) by (simp add: next_age_def room_def)
  show "cache_ok (c\<lparr>d_age := d_age c + 1\<rparr>)"
    by (rule cache_okI) (use cache_okD [OF assms(1)] assms(2) in \<open>auto simp: room_def intro: le_SucI\<close>)
  show "(a, e) \<in> set (cache c) \<Longrightarrow> a < d_age c + 1" using cache_okD(4) [OF assms(1), of a e] by simp
qed

lemma add_refines:
  assumes "cache_ok c" and "room c" and "key \<notin> fst ` set (cache_abs c)"
  shows "\<exists>c'. add frac obj key c = Inr c' \<and> cache_ok c' \<and> d_age c' = d_age c + 1
    \<and> d_entries_threshold c' = d_entries_threshold c
    \<and> cache_abs c' = lru_add frac (d_entries_threshold c) obj key (cache_abs c)"
proof -
  let ?c = "c\<lparr>d_age := d_age c + 1\<rparr>"
  note upd = age_update_ok [OF assms(1,2)]
  have len: "length (cache ?c) = length (cache_abs c)" by (simp add: cache_abs_def)
  have abs: "cache_abs ?c = cache_abs c" by (simp add: cache_abs_def)
  obtain c1 where c1: "(if d_entries_threshold ?c \<noteq> 0 \<and> length (cache ?c) > d_entries_threshold ?c then purge frac ?c
        else Inr ?c) = Inr c1" "cache_ok c1" "d_age c1 = d_age c + 1" "d_entries_threshold c1 = d_entries_threshold c"
      "set (cache c1) \<subseteq> set (cache c)"
      "cache_abs c1 = (if d_entries_threshold c \<noteq> 0 \<and> length (cache_abs c) > d_entries_threshold c
        then drop (frac (length (cache_abs c))) (cache_abs c) else cache_abs c)"
  proof (cases "d_entries_threshold c \<noteq> 0 \<and> length (cache_abs c) > d_entries_threshold c")
    case True
    obtain c' where "purge frac ?c = Inr c'" "cache_ok c'" "cache_abs c' = drop (frac (length (cache ?c))) (cache_abs ?c)"
        "d_age c' = d_age ?c" "d_entries_threshold c' = d_entries_threshold ?c" "set (cache c') \<subseteq> set (cache ?c)"
      using purge_loop_ok [OF upd(2), of "frac (length (cache ?c))"] unfolding purge_def by blast
    with True len abs show ?thesis by (intro that [of c']) auto
  next
    case False
    with upd(2) len abs show ?thesis by (intro that [of ?c]) auto
  qed
  have "set (cache_abs c1) \<subseteq> set (cache_abs c)" using c1(5) by (auto simp: cache_abs_def)
  then have "key \<notin> fst ` set (cache_abs c1)" using assms(3) by blast
  then have "map_find (index c1) key = None" using fresh_iff [OF c1(2)] by blast
  moreover have "\<forall>q \<in> set (cache c1). fst q < d_age c1" using upd(3) c1(3,5) by auto
  ultimately have ins: "cache_ok (c1\<lparr>index := map_insert key (age_key (d_age c1)) (index c1),
            cache := map_insert (age_key (d_age c1)) \<lparr>d_obj = obj, d_name = key\<rparr> (cache c1)\<rparr>)"
    "cache_abs (c1\<lparr>index := map_insert key (age_key (d_age c1)) (index c1),
            cache := map_insert (age_key (d_age c1)) \<lparr>d_obj = obj, d_name = key\<rparr> (cache c1)\<rparr>) = cache_abs c1 @ [(key, obj)]"
    using insert_ok [OF c1(2), where obj = obj] by blast+
  show ?thesis unfolding add_def Let_def upd(1) c1(1) using ins c1 by (simp add: lru_add_def)
qed

lemma remove_refines:
  assumes "cache_ok c"
  shows "\<exists>c'. remove key c = Inr c' \<and> cache_ok c' \<and> d_age c' = d_age c
    \<and> d_entries_threshold c' = d_entries_threshold c \<and> cache_abs c' = lru_remove key (cache_abs c)"
proof (cases "map_find (index c) key")
  case None
  then have "key \<notin> fst ` set (cache_abs c)" using fresh_iff [OF assms] by blast
  then have "lru_remove key (cache_abs c) = cache_abs c" by (force simp: lru_remove_def filter_id_conv)
  with None assms show ?thesis by (simp add: remove_def)
next
  case (Some a)
  then obtain e where e: "(a, e) \<in> set (cache c)" "d_name e = key" using cache_okD(5) [OF assms] by blast
  then have "map_find (cache c) a = Some e" using map_ok_find_iff [OF cache_okD(1) [OF assms]] by blast
  with Some e(2) erase_ok [OF assms e(1)] show ?thesis by (simp add: remove_def)
qed

lemma get_refines:
  assumes "cache_ok c" and "room c"
  shows "\<exists>r c'. get key c = Inr (r, c') \<and> cache_ok c' \<and> d_age c' \<le> d_age c + 1
    \<and> d_entries_threshold c' = d_entries_threshold c \<and> (r, cache_abs c') = lru_get key (cache_abs c)"
proof (cases "map_find (index c) key")
  case None
  with abs_lookup [OF assms(1), of key] assms(1) show ?thesis by (simp add: get_def lru_get_def)
next
  case (Some a)
  then obtain e where e: "(a, e) \<in> set (cache c)" "d_name e = key" using cache_okD(5) [OF assms(1)] by blast
  then have f: "map_find (cache c) a = Some e" using map_ok_find_iff [OF cache_okD(1) [OF assms(1)]] by blast
  let ?c = "c\<lparr>index := map_erase key (index c), cache := map_erase a (cache c)\<rparr>"
  let ?d = "?c\<lparr>d_age := d_age c + 1\<rparr>"
  have er: "cache_ok ?c" "cache_abs ?c = lru_remove key (cache_abs c)"
    using erase_ok [OF assms(1) e(1)] e(2) by simp_all
  have rm: "room ?c" using assms(2) by (simp add: room_def)
  note upd = age_update_ok [OF er(1) rm]
  have d: "cache_ok ?d" using upd(2) by simp
  have idx: "map_find (index ?d) key = None" by simp
  have lt: "\<forall>q \<in> set (cache ?d). fst q < d_age ?d" using upd(3) by auto
  have ee: "\<lparr>d_obj = d_obj e, d_name = key\<rparr> = e" using e(2) by simp
  note ins = insert_ok [where obj = "d_obj e", OF d idx lt, unfolded ee]
  have "lru_get key (cache_abs c) = (Some (d_obj e), lru_remove key (cache_abs c) @ [(key, d_obj e)])"
    using abs_lookup [OF assms(1), of key] Some f by (simp add: lru_get_def)
  moreover have "next_age c = d_age c + 1" using age_update_ok(1) [OF assms] .
  moreover have "cache_abs ?d = lru_remove key (cache_abs c)" using er(2) by (simp add: cache_abs_def)
  ultimately show ?thesis using Some f ins by (simp add: get_def Let_def)
qed

subsection \<open>Runs of the cache\<close>

text \<open>
  How the handlers use the cache: look the key up and add the object when it is absent; remove
  a key; purge.
\<close>

datatype 'o cache_op = Fetch string 'o | Remove string | Purge

definition fetch :: "(nat \<Rightarrow> nat) \<Rightarrow> string \<Rightarrow> 'o \<Rightarrow> 'o obj_cache \<Rightarrow> cache_error + ('o option \<times> 'o obj_cache)" where
  "fetch frac key obj c =
     (case get key c of
        Inl e \<Rightarrow> Inl e
      | Inr (Some found, c) \<Rightarrow> Inr (Some found, c)
      | Inr (None, c) \<Rightarrow> map_sum id (Pair None) (add frac obj key c))"

fun cache_step :: "(nat \<Rightarrow> nat) \<Rightarrow> 'o cache_op \<Rightarrow> 'o obj_cache \<Rightarrow> cache_error + ('o option \<times> 'o obj_cache)" where
  "cache_step frac (Fetch key obj) c = fetch frac key obj c"
| "cache_step frac (Remove key) c = map_sum id (Pair None) (remove key c)"
| "cache_step frac Purge c = map_sum id (Pair None) (purge frac c)"

fun cache_run :: "(nat \<Rightarrow> nat) \<Rightarrow> 'o cache_op list \<Rightarrow> 'o obj_cache \<Rightarrow> cache_error + ('o option list \<times> 'o obj_cache)" where
  "cache_run frac [] c = Inr ([], c)"
| "cache_run frac (x # xs) c =
     (case cache_step frac x c of
        Inl e \<Rightarrow> Inl e
      | Inr (r, c) \<Rightarrow> map_sum id (apfst ((#) r)) (cache_run frac xs c))"

fun lru_step :: "(nat \<Rightarrow> nat) \<Rightarrow> nat \<Rightarrow> 'o cache_op \<Rightarrow> 'o lru \<Rightarrow> 'o option \<times> 'o lru" where
  "lru_step frac t (Fetch key obj) xs =
     (case lru_get key xs of (Some found, ys) \<Rightarrow> (Some found, ys) | (None, ys) \<Rightarrow> (None, lru_add frac t obj key ys))"
| "lru_step frac t (Remove key) xs = (None, lru_remove key xs)"
| "lru_step frac t Purge xs = (None, drop (frac (length xs)) xs)"

fun lru_run :: "(nat \<Rightarrow> nat) \<Rightarrow> nat \<Rightarrow> 'o cache_op list \<Rightarrow> 'o lru \<Rightarrow> 'o option list \<times> 'o lru" where
  "lru_run frac t [] xs = ([], xs)"
| "lru_run frac t (x # ops) xs =
     (case lru_step frac t x xs of (r, ys) \<Rightarrow> apfst ((#) r) (lru_run frac t ops ys))"

lemma lru_get_None: "lru_get key xs = (None, ys) \<Longrightarrow> ys = xs \<and> key \<notin> fst ` set xs"
  by (auto simp: lru_get_def map_of_eq_None_iff split: option.splits)

lemma fetch_refines:
  assumes "cache_ok c" and "room c"
  shows "\<exists>r c'. fetch frac key obj c = Inr (r, c') \<and> cache_ok c' \<and> d_age c' \<le> d_age c + 1
    \<and> d_entries_threshold c' = d_entries_threshold c
    \<and> (r, cache_abs c') = lru_step frac (d_entries_threshold c) (Fetch key obj) (cache_abs c)"
proof (cases "map_find (index c) key")
  case None
  then have miss: "get key c = Inr (None, c)" by (simp add: get_def)
  have "key \<notin> fst ` set (cache_abs c)" using fresh_iff [OF assms(1)] None by blast
  moreover from this have "lru_get key (cache_abs c) = (None, cache_abs c)"
    using abs_lookup [OF assms(1), of key] None by (simp add: lru_get_def)
  ultimately show ?thesis using add_refines [OF assms, of key frac obj] miss by (auto simp: fetch_def)
next
  case (Some a)
  obtain r c' where g: "get key c = Inr (r, c')" "cache_ok c'" "d_age c' \<le> d_age c + 1"
      "d_entries_threshold c' = d_entries_threshold c" "(r, cache_abs c') = lru_get key (cache_abs c)"
    using get_refines [OF assms] by blast
  have "r \<noteq> None" using g(1) Some by (auto simp: get_def Let_def split: option.splits)
  then show ?thesis using g by (auto simp: fetch_def split: prod.splits option.splits)
qed

lemma cache_step_refines:
  assumes "cache_ok c" and "room c"
  shows "\<exists>r c'. cache_step frac x c = Inr (r, c') \<and> cache_ok c' \<and> d_age c' \<le> d_age c + 1
    \<and> d_entries_threshold c' = d_entries_threshold c
    \<and> (r, cache_abs c') = lru_step frac (d_entries_threshold c) x (cache_abs c)"
proof (cases x)
  case (Fetch key obj)
  then show ?thesis using fetch_refines [OF assms] by simp
next
  case (Remove key)
  then show ?thesis using remove_refines [OF assms(1), of key] by auto
next
  case Purge
  have "length (cache c) = length (cache_abs c)" by (simp add: cache_abs_def)
  then show ?thesis using purge_loop_ok [OF assms(1), of "frac (length (cache c))"] Purge by (auto simp: purge_def)
qed

lemma cache_run_refines:
  assumes "cache_ok c" and "d_age c + length ops < 2 ^ 32"
  shows "\<exists>rs c'. cache_run frac ops c = Inr (rs, c') \<and> cache_ok c'
    \<and> (rs, cache_abs c') = lru_run frac (d_entries_threshold c) ops (cache_abs c)"
  using assms
proof (induction ops arbitrary: c)
  case Nil
  then show ?case by simp
next
  case (Cons x ops)
  have "room c" using Cons.prems(2) by (simp add: room_def)
  from cache_step_refines [OF Cons.prems(1) this, of frac x] obtain r c1 where
    c1: "cache_step frac x c = Inr (r, c1)" "cache_ok c1" "d_age c1 \<le> d_age c + 1"
      "d_entries_threshold c1 = d_entries_threshold c"
      "lru_step frac (d_entries_threshold c) x (cache_abs c) = (r, cache_abs c1)" by metis
  have "d_age c1 + length ops < 2 ^ 32" using c1(3) Cons.prems(2) by simp
  from Cons.IH [OF c1(2) this] obtain rs c' where
    "cache_run frac ops c1 = Inr (rs, c')" "cache_ok c'"
    "lru_run frac (d_entries_threshold c) ops (cache_abs c1) = (rs, cache_abs c')" unfolding c1(4) by metis
  then show ?case using c1(1,5) by simp
qed

lemma new_cache_ok [simp]: "cache_ok (new_cache t)" "cache_abs (new_cache t) = []"
    "d_age (new_cache t) = 0" "d_entries_threshold (new_cache t) = t"
  by (simp_all add: new_cache_def cache_ok_def cache_abs_def)

lemma lru_step_size:
  assumes "t \<noteq> 0" and "\<And>n. t < n \<Longrightarrow> 0 < frac n" and "length xs \<le> t + 1"
  shows "length (snd (lru_step frac t x xs)) \<le> t + 1"
proof (cases x)
  case (Fetch key obj)
  show ?thesis
  proof (cases "map_of xs key")
    case None
    then show ?thesis using Fetch assms(1,3) assms(2) [of "length xs"]
      by (auto simp: lru_get_def lru_add_def)
  next
    case (Some o')
    then have "key \<in> fst ` set xs" by (metis map_of_eq_None_iff option.distinct(1))
    then have "length (lru_remove key xs) < length xs" by (auto simp: lru_remove_def intro: length_filter_less)
    then show ?thesis using Fetch Some assms(3) by (simp add: lru_get_def)
  qed
next
  case (Remove key)
  have "length (lru_remove key xs) \<le> length xs" by (simp add: lru_remove_def)
  then show ?thesis using Remove assms(3) by simp
next
  case Purge
  then show ?thesis using assms(3) by simp
qed

lemma lru_run_size:
  assumes "t \<noteq> 0" and "\<And>n. t < n \<Longrightarrow> 0 < frac n" and "length xs \<le> t + 1"
  shows "length (snd (lru_run frac t ops xs)) \<le> t + 1"
  using assms(3)
proof (induction ops arbitrary: xs)
  case Nil
  then show ?case by simp
next
  case (Cons x ops)
  then show ?case using lru_step_size [of t frac xs x] assms(1,2) by (simp add: case_prod_beta)
qed

text \<open>
  C14: Starting from an empty cache, any sequence of fewer than 2^32 fetches (get, then add when the
  key is absent), removals and purges runs without an assertion failure, returns for every fetch exactly
  what a least-recently-used list returns, and leaves the contents of that list; the index and the age
  map agree at the end.
\<close>

theorem cache_run_lru:
  assumes "length ops < 2 ^ 32"
  shows "\<exists>rs c. cache_run frac ops (new_cache t) = Inr (rs, c) \<and> cache_ok c
    \<and> (rs, cache_abs c) = lru_run frac t ops []"
  using cache_run_refines [of "new_cache t" ops frac] assms by simp

theorem cache_run_lru_witness:
  "\<exists>rs c. cache_run (\<lambda>n. n div 2) [Fetch ''a'' (1::int), Fetch ''b'' 2, Fetch ''a'' 3, Fetch ''c'' 4, Purge, Fetch ''b'' 5] (new_cache 0)
     = Inr (rs, c) \<and> cache_ok c \<and> rs = [None, None, Some 1, None, None, None]
     \<and> cache_abs c = [(''a'', 1), (''c'', 4), (''b'', 5)]"
proof -
  let ?ops = "[Fetch ''a'' (1::int), Fetch ''b'' 2, Fetch ''a'' 3, Fetch ''c'' 4, Purge, Fetch ''b'' 5]"
  have "lru_run (\<lambda>n. n div 2) 0 ?ops [] = ([None, None, Some 1, None, None, None], [(''a'', 1), (''c'', 4), (''b'', 5)])"
    by (simp add: lru_get_def lru_add_def lru_remove_def)
  with cache_run_lru [of ?ops "\<lambda>n. n div 2" 0] show ?thesis by auto
qed

text \<open>
  C15: With a nonzero threshold, and a purge fraction that removes at least one entry of a cache above the
  threshold, the cache never holds more than one entry over the threshold, since the size is
  tested before the new entry is inserted.
\<close>

theorem cache_run_size:
  assumes "length ops < 2 ^ 32" and "t \<noteq> 0" and "\<And>n. t < n \<Longrightarrow> 0 < frac n"
    and "cache_run frac ops (new_cache t) = Inr (rs, c)"
  shows "length (cache c) \<le> t + 1"
proof -
  have "(rs, cache_abs c) = lru_run frac t ops []"
    using cache_run_refines [of "new_cache t" ops frac] assms(1,4) by simp
  then have "length (cache_abs c) \<le> t + 1" using lru_run_size [of t frac "[]" ops] assms(2,3) by (metis list.size(3) snd_conv zero_le)
  then show ?thesis by (simp add: cache_abs_def)
qed

theorem cache_run_size_witness:
  "length (cache (snd (projr (cache_run (\<lambda>n. n)
     [Fetch ''a'' (1::int), Fetch ''b'' 2, Fetch ''c'' 3] (new_cache 1))))) \<le> 1 + 1"
proof -
  let ?ops = "[Fetch ''a'' (1::int), Fetch ''b'' 2, Fetch ''c'' 3]"
  have run: "cache_run (\<lambda>n. n) ?ops (new_cache 1)
      = Inr ([None, None, None], \<lparr>d_age = 3, d_entries_threshold = 1, cache = [(3, \<lparr>d_obj = 3, d_name = ''c''\<rparr>)], index = [(''c'', 3)]\<rparr>)"
    by (simp add: fetch_def get_def add_def purge_def new_cache_def next_age_def age_key_def
      map_insert_def map_erase_def)
  show ?thesis using cache_run_size [OF _ _ _ run] unfolding run by simp
qed

text \<open>
  Adding a key that is present leaves the index on the older entry (\<^verbatim>\<open>insert\<close> does not overwrite), so
  purging both entries runs into the assertion on the index.
\<close>

lemma add_twice_purge_fails:
  "(case add (\<lambda>n. n) x ''k'' (new_cache 0) of
      Inr c \<Rightarrow> (case add (\<lambda>n. n) y ''k'' c of Inr c \<Rightarrow> purge (\<lambda>n. n) c | Inl e \<Rightarrow> Inl e)
    | Inl e \<Rightarrow> Inl e) = Inl AssertionFailed"
  by (simp add: add_def purge_def new_cache_def next_age_def age_key_def map_insert_def map_erase_def eval_nat_numeral(3) [of "num.One"])

end
