(* ===== verification/Bes_Act.thy ===== *)
theory Bes_Act
  imports Bes_Prelude
begin

text \<open>
  Code that changes a state and may throw: an action maps a state to an exception or a value, and the
  state at that point, so that what was done before a \<^verbatim>\<open>throw\<close> stays done.  \<open>keeps P m\<close> says that an
  action keeps \<open>P\<close> on every path, thrown or not.
\<close>

type_synonym ('e, 's, 'a) eact = "'s \<Rightarrow> ('e + 'a) \<times> 's"

definition act_return :: "'a \<Rightarrow> ('e, 's, 'a) eact" where
  "act_return a s = (Inr a, s)"

definition act_throw :: "'e \<Rightarrow> ('e, 's, 'a) eact" where
  "act_throw e s = (Inl e, s)"

definition act_bind :: "('e, 's, 'a) eact \<Rightarrow> ('a \<Rightarrow> ('e, 's, 'b) eact) \<Rightarrow> ('e, 's, 'b) eact" where
  "act_bind m f s = (case m s of (Inl e, s') \<Rightarrow> (Inl e, s') | (Inr a, s') \<Rightarrow> f a s')"

definition act_then :: "('e, 's, unit) eact \<Rightarrow> ('e, 's, 'b) eact \<Rightarrow> ('e, 's, 'b) eact" where
  "act_then m f = act_bind m (\<lambda>_. f)"

definition act_modify :: "('s \<Rightarrow> 's) \<Rightarrow> ('e, 's, unit) eact" where
  "act_modify f s = (Inr (), f s)"

definition act_gets :: "('s \<Rightarrow> 'a) \<Rightarrow> ('e, 's, 'a) eact" where
  "act_gets f s = (Inr (f s), s)"

fun act_each :: "('x \<Rightarrow> ('e, 's, unit) eact) \<Rightarrow> 'x list \<Rightarrow> ('e, 's, unit) eact" where
  "act_each f [] = act_return ()"
| "act_each f (x # xs) = act_then (f x) (act_each f xs)"

named_theorems act_simps \<open>unfolding actions\<close>

lemmas [act_simps] = act_return_def act_throw_def act_bind_def act_then_def act_modify_def act_gets_def

lemma act_bind_Inr:
  "act_bind m f s = (Inr b, s'') \<longleftrightarrow> (\<exists>a s'. m s = (Inr a, s') \<and> f a s' = (Inr b, s''))"
  by (auto simp: act_bind_def split: prod.splits sum.splits)

lemma act_then_Inr:
  "act_then m f s = (Inr b, s'') \<longleftrightarrow> (\<exists>s'. m s = (Inr (), s') \<and> f s' = (Inr b, s''))"
  by (auto simp: act_then_def act_bind_Inr)

lemma act_then_run: "m s = (Inr (), s') \<Longrightarrow> act_then m f s = f s'"
  by (simp add: act_then_def act_bind_def)

definition keeps :: "('s \<Rightarrow> bool) \<Rightarrow> ('e, 's, 'a) eact \<Rightarrow> bool" where
  "keeps P m \<longleftrightarrow> (\<forall>s. P s \<longrightarrow> P (snd (m s)))"

lemma keepsD: "keeps P m \<Longrightarrow> P s \<Longrightarrow> m s = (r, s') \<Longrightarrow> P s'"
  unfolding keeps_def by (metis snd_conv)

lemma keepsI: "(\<And>s. P s \<Longrightarrow> P (snd (m s))) \<Longrightarrow> keeps P m"
  by (simp add: keeps_def)

lemma keeps_bind:
  assumes "keeps P m" and "\<And>a. keeps P (f a)"
  shows "keeps P (act_bind m f)"
proof (rule keepsI)
  fix s assume "P s"
  obtain r s1 where m: "m s = (r, s1)" by (cases "m s")
  then have "P s1" using keepsD [OF assms(1)] \<open>P s\<close> by blast
  then show "P (snd (act_bind m f s))"
    using m assms(2) by (cases r) (simp_all add: act_bind_def keeps_def)
qed

lemma keeps_then: "keeps P m \<Longrightarrow> keeps P f \<Longrightarrow> keeps P (act_then m f)"
  by (simp add: act_then_def keeps_bind)

lemma keeps_each: "(\<And>x. x \<in> set xs \<Longrightarrow> keeps P (f x)) \<Longrightarrow> keeps P (act_each f xs)"
proof (induction xs)
  case Nil
  then show ?case by (simp add: keeps_def act_return_def)
next
  case (Cons x xs)
  then show ?case by (simp add: keeps_then)
qed

lemma keeps_modify: "(\<And>s. P s \<Longrightarrow> P (f s)) \<Longrightarrow> keeps P (act_modify f)"
  by (simp add: keeps_def act_modify_def)

lemma keeps_return [intro]: "keeps P (act_return a)" "keeps P (act_throw e)" "keeps P (act_gets f)"
  by (simp_all add: keeps_def act_return_def act_throw_def act_gets_def)

lemma act_then_post:
  assumes "\<forall>s. P s \<longrightarrow> Q s" and "keeps P m" and "P s" and "\<And>s. P s \<Longrightarrow> Q (snd (f s))"
  shows "Q (snd (act_then m f s))"
proof -
  obtain r s1 where m: "m s = (r, s1)" by (cases "m s")
  have "P s1" using keepsD [OF assms(2,3) m] .
  with m assms(1,4) show ?thesis by (cases r) (simp_all add: act_then_def act_bind_def)
qed

end
