(* ===== verification/Bes_Services.thy ===== *)
theory Bes_Services
  imports Bes_Keys
begin

text \<open>
  Two small services that every request uses: \<^verbatim>\<open>dispatch/ServerAdministrator.cc\<close>, the contact
  named in error responses, and \<^verbatim>\<open>dispatch/RequestServiceTimer.cc\<close>, the request timeout.
\<close>

subsection \<open>The server administrator\<close>

record server_administrator =
  d_admin_info :: "(string, string) stdmap"
  d_organization :: string
  d_street :: string
  d_city :: string
  d_region :: string
  d_postal_code :: string
  d_country :: string
  d_telephone :: string
  d_email :: string
  d_website :: string

definition SERVER_ADMINISTRATOR_KEY :: string where
  "SERVER_ADMINISTRATOR_KEY = ''BES.ServerAdministrator''"

definition admin_get :: "string \<Rightarrow> (string, string) stdmap \<Rightarrow> string" where
  "admin_get key m = (case map_find m (lowercase key) of None \<Rightarrow> [] | Some v \<Rightarrow> v)"

definition mk_default :: "server_administrator \<Rightarrow> server_administrator" where
  "mk_default a = a\<lparr>d_admin_info :=
     fold (\<lambda>(k, v). map_insert k v)
       [(''email'', ''support@opendap.org''), (''organization'', ''OPeNDAP Inc.''),
        (''street'', ''165 NW Dean Knauss Dr.''), (''city'', ''Narragansett''), (''region'', ''RI''),
        (''postalCode'', ''02882''), (''country'', ''US''), (''telephone'', ''+1.401.575.4835''),
        (''website'', ''http://www.opendap.org'')] []\<rparr>"

definition new_server_administrator :: "keystore \<Rightarrow> server_administrator" where
  "new_server_administrator ks =
     (let m = fst (get_values_map SERVER_ADMINISTRATOR_KEY [] True ks);
          region = admin_get ''region'' m;
          a = \<lparr>d_admin_info = m, d_organization = admin_get ''organization'' m, d_street = admin_get ''street'' m,
               d_city = admin_get ''city'' m,
               d_region = (if region = [] then admin_get ''state'' m else region),
               d_postal_code = admin_get ''postalCode'' m, d_country = admin_get ''country'' m,
               d_telephone = admin_get ''telephone'' m, d_email = admin_get ''email'' m,
               d_website = admin_get ''website'' m\<rparr>;
          bad_flag = (d_organization a = [] \<or> d_street a = [] \<or> d_city a = [] \<or> d_region a = []
            \<or> d_postal_code a = [] \<or> d_country a = [] \<or> d_telephone a = [] \<or> d_email a = [] \<or> d_website a = [])
      in if bad_flag then mk_default a else a)"

definition xdump :: "server_administrator \<Rightarrow> string" where
  "xdump a =
     ''<ServerAdministrator '' @
     concat (map (\<lambda>(i, k, v). (if i \<noteq> 0 then '' '' else []) @ k @ ''='' @ [CHR 0x22] @ v @ [CHR 0x22])
               (zip [0..<length (d_admin_info a)] (d_admin_info a)))
     @ ''/>''"

subsection \<open>The request timer\<close>

text \<open>
  The steady clock counts nanoseconds and never runs backwards; the current reading is the argument
  \<open>now\<close>.  Durations are milliseconds.
\<close>

record service_timer =
  d_bes_timeout :: int
  start_time :: int
  timeout_enabled :: bool

definition new_timer :: "int \<Rightarrow> service_timer" where
  "new_timer now = \<lparr>d_bes_timeout = 0, start_time = now, timeout_enabled = False\<rparr>"

definition timer_start :: "int \<Rightarrow> int \<Rightarrow> service_timer \<Rightarrow> service_timer" where
  "timer_start timeout_ms now t =
     (if timeout_ms > 0 then \<lparr>d_bes_timeout = timeout_ms, start_time = now, timeout_enabled = True\<rparr>
      else \<lparr>d_bes_timeout = 0, start_time = now, timeout_enabled = False\<rparr>)"

definition elapsed :: "int \<Rightarrow> service_timer \<Rightarrow> int" where
  "elapsed now t = (now - start_time t) div 1000000"

definition remaining :: "int \<Rightarrow> service_timer \<Rightarrow> int" where
  "remaining now t = (if timeout_enabled t then d_bes_timeout t - elapsed now t else 0)"

definition is_expired :: "int \<Rightarrow> service_timer \<Rightarrow> bool" where
  "is_expired now t \<longleftrightarrow> timeout_enabled t \<and> remaining now t \<le> 0"

definition disable_timeout :: "service_timer \<Rightarrow> service_timer" where
  "disable_timeout t = t\<lparr>timeout_enabled := False\<rparr>"

definition throw_if_timeout_expired :: "string \<Rightarrow> int \<Rightarrow> service_timer \<Rightarrow> unit result" where
  "throw_if_timeout_expired message now t =
     (if is_expired now t then Inl (BESInternalFatalError message) else Inr ())"

subsection \<open>Properties\<close>

text \<open>
  C33: The timer throws exactly when a positive timeout was set by the last \<^verbatim>\<open>start\<close>, has not been
  disabled, and at least that many milliseconds have passed since: never earlier, and at every later
  check.
\<close>

theorem timeout_exact:
  assumes "t0 \<le> now"
  shows "(throw_if_timeout_expired msg now (timer_start ms t0 t) = Inl (BESInternalFatalError msg)
      \<longleftrightarrow> 0 < ms \<and> t0 + ms * 1000000 \<le> now)
    \<and> throw_if_timeout_expired msg now (disable_timeout (timer_start ms t0 t)) = Inr ()"
proof -
  have "ms - (now - t0) div 1000000 \<le> 0 \<longleftrightarrow> t0 + ms * 1000000 \<le> now" by linarith
  then show ?thesis
    by (simp add: throw_if_timeout_expired_def is_expired_def remaining_def elapsed_def timer_start_def
        disable_timeout_def)
qed

theorem timeout_exact_witness:
  "throw_if_timeout_expired ''late'' 3000000 (timer_start 2 1000000 (new_timer 0)) = Inl (BESInternalFatalError ''late'')
   \<and> throw_if_timeout_expired ''late'' 3000000 (disable_timeout (timer_start 2 1000000 (new_timer 0))) = Inr ()"
  using timeout_exact [of 1000000 3000000 "''late''" 2 "new_timer 0"] by simp

text \<open>
  The defaults that \<^verbatim>\<open>mk_default\<close> installs when a contact entry is missing are not what the
  accessors return: the e-mail address stays the configured one, empty when that is the missing
  entry, although the map holds the default; and the default postal code cannot be
  read back through \<^verbatim>\<open>get\<close>, which looks for the key in lower case.
\<close>

theorem admin_default_not_returned:
  assumes "admin_get ''email'' (fst (get_values_map SERVER_ADMINISTRATOR_KEY [] True ks)) = []"
  shows "d_email (new_server_administrator ks) = []
    \<and> admin_get ''email'' (d_admin_info (new_server_administrator ks)) = ''support@opendap.org''
    \<and> admin_get ''postalCode'' (d_admin_info (new_server_administrator ks)) = []"
proof -
  have info: "d_admin_info (mk_default a) = [(''city'', ''Narragansett''), (''country'', ''US''),
      (''email'', ''support@opendap.org''), (''organization'', ''OPeNDAP Inc.''), (''postalCode'', ''02882''),
      (''region'', ''RI''), (''street'', ''165 NW Dean Knauss Dr.''), (''telephone'', ''+1.401.575.4835''),
      (''website'', ''http://www.opendap.org'')]" for a
    unfolding mk_default_def by simp code_simp
  obtain a where a: "new_server_administrator ks = mk_default a" "d_email a = []"
    using assms unfolding new_server_administrator_def Let_def by simp
  have "lowercase ''email'' = ''email''" "lowercase ''postalCode'' = ''postalcode''" by code_simp+
  with a show ?thesis by (simp add: info admin_get_def) (simp add: mk_default_def)
qed

theorem admin_default_not_returned_witness:
  "d_email (new_server_administrator []) = []
   \<and> admin_get ''email'' (d_admin_info (new_server_administrator [])) = ''support@opendap.org''"
proof -
  have "admin_get ''email'' (fst (get_values_map SERVER_ADMINISTRATOR_KEY [] True [])) = []"
    by (simp add: get_values_map_def get_values_def admin_get_def)
  from admin_default_not_returned [OF this] show ?thesis by simp
qed

end
