(* ===== verification/Bes_Xml.thy ===== *)
theory Bes_Xml
  imports Bes_Util Std_Map
begin

text \<open>
  \<^verbatim>\<open>xmlcommand/BESXMLUtils.cc\<close>, through which every command reads its element of the request
  document, and the table of commands of \<^verbatim>\<open>xmlcommand/BESXMLCommand.cc\<close>.

  A node of libxml2's tree is an element (its name, its attributes in order, each with the
  content of its first child if it has one, and its children), a text node with its content, or
  some other node.  A pointer to a node among its siblings is the list of siblings that
  starts there, so the null pointer is the empty list.
\<close>

datatype xml_node =
    Element string "(string \<times> string option) list" "xml_node list"
  | Text_node "string option"
  | Other_node

fun is_element :: "xml_node \<Rightarrow> bool" where
  "is_element (Element _ _ _) = True"
| "is_element _ = False"

fun node_name :: "xml_node \<Rightarrow> string" where
  "node_name (Element nm _ _) = nm"
| "node_name _ = []"

fun node_children :: "xml_node \<Rightarrow> xml_node list" where
  "node_children (Element _ _ cs) = cs"
| "node_children _ = []"

fun node_properties :: "xml_node \<Rightarrow> (string \<times> string option) list" where
  "node_properties (Element _ ps _) = ps"
| "node_properties _ = []"

type_synonym xml_props = "(string, string) stdmap"

definition prop_value :: "string option \<Rightarrow> string" where
  "prop_value content =
     (case content of None \<Rightarrow> [] | Some c \<Rightarrow> removeLeadingAndTrailingBlanks (xml2id c))"

definition GetProps :: "xml_node \<Rightarrow> xml_props \<Rightarrow> xml_props" where
  "GetProps node props =
     fold (\<lambda>(nm, content). map_put (removeLeadingAndTrailingBlanks nm) (prop_value content))
       (node_properties node) props"

text \<open>The loop over the children: the first text node decides the value.\<close>

fun text_value :: "string \<Rightarrow> xml_node list \<Rightarrow> string" where
  "text_value val [] = val"
| "text_value val (Text_node content # rest) = prop_value content"
| "text_value val (node # rest) = text_value val rest"

definition GetNodeInfo :: "xml_node \<Rightarrow> string \<Rightarrow> xml_props \<Rightarrow> string \<times> string \<times> xml_props" where
  "GetNodeInfo node val props =
     (removeLeadingAndTrailingBlanks (node_name node), text_value val (node_children node), GetProps node props)"

text \<open>
  The searches return the pointer, and the name, value and properties they leave in their
  parameters (\<open>info\<close>).
\<close>

type_synonym node_info = "string \<times> string \<times> xml_props"

fun find_element :: "xml_node list \<Rightarrow> node_info \<Rightarrow> xml_node list \<times> node_info" where
  "find_element [] info = ([], info)"
| "find_element (node # rest) info =
     (if is_element node then
        (node # rest, case info of (nm, val, props) \<Rightarrow> GetNodeInfo node val props)
      else find_element rest info)"

definition GetFirstChild :: "xml_node option \<Rightarrow> node_info \<Rightarrow> xml_node list \<times> node_info" where
  "GetFirstChild node info =
     (case node of None \<Rightarrow> ([], info) | Some n \<Rightarrow> find_element (node_children n) info)"

definition GetNextChild :: "xml_node list \<Rightarrow> node_info \<Rightarrow> xml_node list \<times> node_info" where
  "GetNextChild child_node info =
     (case child_node of [] \<Rightarrow> ([], info) | _ # siblings \<Rightarrow> find_element siblings info)"

fun find_named :: "string \<Rightarrow> xml_node list \<Rightarrow> string \<times> xml_props \<Rightarrow> xml_node list \<times> string \<times> xml_props" where
  "find_named child_name [] info = ([], info)"
| "find_named child_name (node # rest) info =
     (if is_element node \<and> removeLeadingAndTrailingBlanks (node_name node) = child_name then
        (node # rest, case info of (val, props) \<Rightarrow> snd (GetNodeInfo node val props))
      else find_named child_name rest info)"

definition GetChild :: "xml_node option \<Rightarrow> string \<Rightarrow> string \<times> xml_props \<Rightarrow> xml_node list \<times> string \<times> xml_props" where
  "GetChild node child_name info =
     (case node of None \<Rightarrow> ([], info) | Some n \<Rightarrow> find_named child_name (node_children n) info)"

subsection \<open>The table of commands\<close>

text \<open>\<^verbatim>\<open>factory[cmd_str]\<close> inserts a null builder when the name is absent.\<close>

type_synonym 'b factory = "(string, 'b option) stdmap"

definition add_command :: "string \<Rightarrow> 'b \<Rightarrow> 'b factory \<Rightarrow> 'b factory" where
  "add_command cmd_str cmd f = map_put cmd_str (Some cmd) f"

definition del_command :: "string \<Rightarrow> 'b factory \<Rightarrow> 'b factory" where
  "del_command cmd_str f = (case map_find f cmd_str of None \<Rightarrow> f | Some _ \<Rightarrow> map_erase cmd_str f)"

definition find_command :: "string \<Rightarrow> 'b factory \<Rightarrow> 'b option \<times> 'b factory" where
  "find_command cmd_str f =
     (case map_find f cmd_str of Some b \<Rightarrow> (b, f) | None \<Rightarrow> (None, map_put cmd_str None f))"

text \<open>The command a name stands for; a null builder counts as none.\<close>

definition command_of :: "'b factory \<Rightarrow> string \<Rightarrow> 'b option" where
  "command_of f nm = (case map_find f nm of Some b \<Rightarrow> b | None \<Rightarrow> None)"

datatype 'b factory_op = Add_command string 'b | Del_command string | Find_command string

fun factory_step :: "'b factory_op \<Rightarrow> 'b factory \<Rightarrow> 'b factory" where
  "factory_step (Add_command nm b) f = add_command nm b f"
| "factory_step (Del_command nm) f = del_command nm f"
| "factory_step (Find_command nm) f = snd (find_command nm f)"

fun factory_spec :: "'b factory_op \<Rightarrow> (string \<Rightarrow> 'b option) \<Rightarrow> string \<Rightarrow> 'b option" where
  "factory_spec (Add_command nm b) m = m(nm := Some b)"
| "factory_spec (Del_command nm) m = m(nm := None)"
| "factory_spec (Find_command nm) m = m"

lemma command_of_step: "command_of (factory_step x f) = factory_spec x (command_of f)"
  by (cases x) (auto simp: fun_eq_iff command_of_def add_command_def del_command_def find_command_def
      split: option.splits)

lemma find_command_fst: "fst (find_command nm f) = command_of f nm"
  by (simp add: find_command_def command_of_def split: option.splits)

text \<open>Iterating with \<open>GetFirstChild\<close> and \<open>GetNextChild\<close>.\<close>

fun iterate_children :: "nat \<Rightarrow> xml_node list \<times> node_info \<Rightarrow> (xml_node \<times> node_info) list" where
  "iterate_children 0 p = []"
| "iterate_children (Suc n) (ptr, info) =
     (case ptr of [] \<Rightarrow> [] | node # _ \<Rightarrow> (node, info) # iterate_children n (GetNextChild ptr ([], [], [])))"

lemma find_element_skip:
  "find_element ns info =
     (let ds = dropWhile (\<lambda>n. \<not> is_element n) ns
      in (ds, case ds of [] \<Rightarrow> info | n # _ \<Rightarrow> (case info of (nm, val, props) \<Rightarrow> GetNodeInfo n val props)))"
  by (induction ns) (auto simp: Let_def)

lemma iterate_find_element:
  "length ns \<le> n \<Longrightarrow>
   iterate_children n (find_element ns ([], [], [])) = map (\<lambda>c. (c, GetNodeInfo c [] [])) (filter is_element ns)"
proof (induction ns arbitrary: n)
  case Nil
  then show ?case by (cases n) auto
next
  case (Cons x xs)
  show ?case
  proof (cases "is_element x")
    case True
    from Cons.prems obtain m where m: "n = Suc m" "length xs \<le> m" by (cases n) auto
    with True Cons.IH [of m] show ?thesis by (simp add: GetNextChild_def)
  next
    case False
    with Cons show ?thesis by simp
  qed
qed

text \<open>
  A loop that starts with \<^verbatim>\<open>GetFirstChild\<close> and goes on with \<^verbatim>\<open>GetNextChild\<close> visits exactly the
  element children of the node, in document order, each with its own name, value and properties,
  whatever text, comment and other nodes stand between them, and ends after the last one.
\<close>

theorem child_iteration:
  assumes "length (node_children node) \<le> n"
  shows "iterate_children n (GetFirstChild (Some node) ([], [], []))
    = map (\<lambda>c. (c, GetNodeInfo c [] [])) (filter is_element (node_children node))"
  using iterate_find_element [OF assms] by (simp add: GetFirstChild_def)

theorem child_iteration_witness:
  "iterate_children 3 (GetFirstChild (Some (Element ''define'' []
      [Text_node (Some ''x''), Element ''container'' [(''name'', Some '' c '')] [], Other_node])) ([], [], []))
   = [(Element ''container'' [(''name'', Some '' c '')] [], (''container'', [], [(''name'', ''c'')]))]"
proof -
  let ?c = "Element ''container'' [(''name'', Some '' c '')] []"
  have "GetNodeInfo ?c [] [] = (''container'', [], [(''name'', ''c'')])" by code_simp
  then show ?thesis
    using child_iteration [of "Element ''define'' [] [Text_node (Some ''x''), ?c, Other_node]" 3] by simp
qed

text \<open>
  The table of commands behaves as a partial function: after any sequence of additions,
  deletions and look-ups, the command found for a name is the one last added and not deleted since.
  The null entries that looking up an unknown name leaves behind are never visible.
\<close>

theorem command_table:
  "fst (find_command nm (fold factory_step ops [])) = fold factory_spec ops (\<lambda>_. None) nm"
proof -
  have "command_of (fold factory_step ops f) = fold factory_spec ops (command_of f)" for f :: "'a factory"
    by (induction ops arbitrary: f) (auto simp: command_of_step)
  moreover have "command_of ([] :: 'a factory) = (\<lambda>_. None)" by (simp add: command_of_def fun_eq_iff)
  ultimately show ?thesis by (simp add: find_command_fst)
qed

end
