(* ===== verification/Bes_Interface.thy ===== *)
theory Bes_Interface
  imports Bes_Act Bes_Handlers Bes_Registry Bes_Info Bes_Services Bes_Xml
begin

text \<open>
  The execution of one request: \<^verbatim>\<open>dispatch/BESInterface.cc\<close> and \<^verbatim>\<open>xmlcommand/BESXMLInterface.cc\<close>.
  A request document is parsed into a list of commands, each with its own data handler
  interface; the commands are executed and their responses transmitted in order; an exception
  is turned into an error response.

  The virtual functions of commands, response handlers and
  containers, libxml2's parser and the table of builders are fields of \<open>request_env\<close>: they may change the
  data handler interface they are given and the world, and may throw anything.  The world has what
  the interface itself uses (contexts, keys, timer, clock and the output) and a field for all the
  rest.
\<close>

subsection \<open>Exceptions\<close>

datatype thrown =
    BESErr nat string
  | Bad_alloc string
  | Std_exception string
  | Other_exception
  | Null_dereference

type_synonym ('s, 'a) act = "(thrown, 's, 'a) eact"

text \<open>The error types of \<^verbatim>\<open>BESError.h\<close>.\<close>

fun thrown_of :: "bes_error \<Rightarrow> thrown" where
  "thrown_of (BESInternalError m) = BESErr 1 m"
| "thrown_of (BESInternalFatalError m) = BESErr 2 m"
| "thrown_of (BESSyntaxUserError m) = BESErr 3 m"
| "thrown_of (BESForbiddenError m) = BESErr 4 m"
| "thrown_of (BESNotFoundError m) = BESErr 5 m"
| "thrown_of (BESTimeoutError m) = BESErr 6 m"
| "thrown_of StdOutOfRange = Std_exception ''out_of_range''"
| "thrown_of StdInvalidArgument = Std_exception ''invalid_argument''"
| "thrown_of (StdRuntimeError m) = Std_exception m"

definition act_lift :: "'a result \<Rightarrow> ('s, 'a) act" where
  "act_lift r = (case r of Inl e \<Rightarrow> act_throw (thrown_of e) | Inr a \<Rightarrow> act_return a)"

subsection \<open>The state of a request\<close>

datatype any_info = Text_info text_info | Html_info html_info | Xml_info xml_info

record 'h request_part =
  action_name :: string
  executed :: bool
  data_map :: "(string, string) stdmap"
  response_handler :: "'h option"
  error_info :: "any_info option"
  output_stream :: bool

type_synonym 'h rdhi = "'h request_part dhi"

text \<open>What is written to the output stream: bytes, and flushes of the stream.\<close>

datatype out_event = Put char | Flush

record 'u world =
  w_contexts :: contexts
  w_keys :: keystore
  w_timer :: service_timer
  w_clock :: int
  w_out :: "out_event list"
  w_other :: 'u

record ('k, 'h, 't, 'u) interface =
  d_xml_document :: string
  d_xml_interface_dhi :: "'h rdhi"
  d_xml_cmd_list :: "('k \<times> 'h rdhi) list"
  d_dhi_ptr :: "nat option"
  d_transmitter :: "'t option"
  request_timeout :: int
  the_world :: "'u world"

record info_env =
  text_mime :: string
  html_mime :: string
  xml_rc :: "xml_call list \<Rightarrow> int"
  xml_content :: "xml_call list \<Rightarrow> string option"

record ('k, 'h, 't, 'u) request_env =
  xmlReadMemory :: "string \<Rightarrow> string list + xml_node option"
  factory :: "'k factory"
  build_command :: "'k \<Rightarrow> 'h rdhi \<Rightarrow> 'h rdhi option"
  has_response :: "'k \<Rightarrow> bool"
  parse_request :: "'k \<Rightarrow> xml_node \<Rightarrow> ('h rdhi \<times> 'u world, unit) act"
  prep_request :: "'k \<Rightarrow> ('h rdhi \<times> 'u world, unit) act"
  handler_execute :: "'h \<Rightarrow> ('h rdhi \<times> 'u world, unit) act"
  handler_transmit :: "'h \<Rightarrow> 't \<Rightarrow> ('h rdhi \<times> 'u world, unit) act"
  info_transmit :: "any_info \<Rightarrow> 't \<Rightarrow> ('h rdhi \<times> 'u world, unit) act"
  container_release :: "file_container \<Rightarrow> ('u world, unit) act"
  transmitters :: "(string, 't) stdmap"
  info_builders :: "(string, string \<Rightarrow> any_info) stdmap"
  infos :: info_env
  error_where :: "thrown \<Rightarrow> string \<times> nat"
  verbose_log :: bool
  process_id :: nat

definition new_dhi :: "'h rdhi" where
  "new_dhi = \<lparr>action = [], containers = [], containers_iterator = 0, current = None,
     data = \<lparr>action_name = [], executed = False, data_map = [], response_handler = None, error_info = None,
             output_stream = False\<rparr>\<rparr>"

definition new_interface :: "string \<Rightarrow> 'u world \<Rightarrow> ('k, 'h, 't, 'u) interface" where
  "new_interface xml_doc w =
     \<lparr>d_xml_document = xml_doc, d_xml_interface_dhi = new_dhi, d_xml_cmd_list = [], d_dhi_ptr = None,
      d_transmitter = None, request_timeout = 0, the_world = w\<rparr>"

text \<open>\<^verbatim>\<open>*d_dhi_ptr\<close>: the interface's own data handler interface, or that of a command.\<close>

definition the_dhi :: "('k, 'h, 't, 'u) interface \<Rightarrow> 'h rdhi" where
  "the_dhi s = (case d_dhi_ptr s of None \<Rightarrow> d_xml_interface_dhi s | Some i \<Rightarrow> snd (d_xml_cmd_list s ! i))"

definition set_dhi :: "'h rdhi \<Rightarrow> ('k, 'h, 't, 'u) interface \<Rightarrow> ('k, 'h, 't, 'u) interface" where
  "set_dhi d s =
     (case d_dhi_ptr s of
        None \<Rightarrow> s\<lparr>d_xml_interface_dhi := d\<rparr>
      | Some i \<Rightarrow> s\<lparr>d_xml_cmd_list := (d_xml_cmd_list s)[i := (fst (d_xml_cmd_list s ! i), d)]\<rparr>)"

definition put_data :: "string \<Rightarrow> string \<Rightarrow> 'h rdhi \<Rightarrow> 'h rdhi" where
  "put_data key val d = d\<lparr>data := (data d)\<lparr>data_map := map_put key val (data_map (data d))\<rparr>\<rparr>"

definition get_data :: "string \<Rightarrow> 'h rdhi \<Rightarrow> string" where
  "get_data key d = (case map_find (data_map (data d)) key of None \<Rightarrow> [] | Some v \<Rightarrow> v)"

text \<open>Run a virtual function on the data handler interface of command \<open>i\<close>.\<close>

definition on_command :: "nat \<Rightarrow> ('h rdhi \<times> 'u world, unit) act \<Rightarrow> (('k, 'h, 't, 'u) interface, unit) act" where
  "on_command i m s =
     (case m (snd (d_xml_cmd_list s ! i), the_world s) of
        (r, d, w) \<Rightarrow>
          (r, s\<lparr>d_xml_cmd_list := (d_xml_cmd_list s)[i := (fst (d_xml_cmd_list s ! i), d)], the_world := w\<rparr>))"

subsection \<open>Building the plan\<close>

fun parse_errors :: "bool \<Rightarrow> string list \<Rightarrow> string" where
  "parse_errors isfirst [] = []"
| "parse_errors isfirst (e # es) =
     (if \<not> isfirst \<and> take 6 e = ''Entity'' then [CHR 0x0A] else []) @ e @ parse_errors False es"

text \<open>\<^verbatim>\<open>setContext\<close> is executed at once and not added to the list.\<close>

definition set_context_command ::
  "('k, 'h, 't, 'u) request_env \<Rightarrow> 'k \<Rightarrow> xml_node \<Rightarrow> 'h rdhi \<Rightarrow> (('k, 'h, 't, 'u) interface, unit) act" where
  "set_context_command env bldr node d s =
     (case parse_request env bldr node (d, the_world s) of
        (Inl e, d, w) \<Rightarrow> (Inl e, s\<lparr>the_world := w\<rparr>)
      | (Inr _, d, w) \<Rightarrow>
          (case response_handler (data d) of
             None \<Rightarrow> (Inl Null_dereference, s\<lparr>the_world := w\<rparr>)
           | Some h \<Rightarrow> (case handler_execute env h (d, w) of (r, d, w) \<Rightarrow> (r, s\<lparr>the_world := w\<rparr>))))"

text \<open>The check that a transmitter for the response exists.\<close>

definition check_transmitter ::
  "('k, 'h, 't, 'u) request_env \<Rightarrow> nat \<Rightarrow> (('k, 'h, 't, 'u) interface, unit) act" where
  "check_transmitter env i s =
     (let return_as = get_data ''return_command'' (snd (d_xml_cmd_list s ! i))
      in if return_as \<noteq> [] \<and> find_transmitter return_as (transmitters env) = None then
           (Inl (BESErr 3 (''Unable to find transmitter '' @ return_as)), s)
         else (Inr (), s))"

definition push_command ::
  "('k, 'h, 't, 'u) request_env \<Rightarrow> 'k \<Rightarrow> xml_node \<Rightarrow> 'h rdhi \<Rightarrow> bool \<Rightarrow> (('k, 'h, 't, 'u) interface, unit) act" where
  "push_command env bldr node d has_resp s =
     (let i = length (d_xml_cmd_list s);
          s = s\<lparr>d_xml_cmd_list := d_xml_cmd_list s @ [(bldr, d)]\<rparr>
      in if has_resp \<and> has_response env bldr then
           (Inl (BESErr 3 ''Commands with multiple responses not supported.''), s)
         else act_then (on_command i (parse_request env bldr node)) (check_transmitter env i) s)"

text \<open>
  One child of the request element, with the new value of \<^verbatim>\<open>has_response\<close>.
  \<^verbatim>\<open>load_dynamic_config\<close>, called for \<^verbatim>\<open>setContainer\<close>, has an empty body in this configuration
  (\<^verbatim>\<open>DYNAMIC_CONFIG_ENABLED\<close> is 0).
\<close>

definition build_node ::
  "('k, 'h, 't, 'u) request_env \<Rightarrow> xml_node \<Rightarrow> bool \<Rightarrow> (('k, 'h, 't, 'u) interface, bool) act" where
  "build_node env node has_resp =
     (if \<not> is_element node then act_return has_resp
      else
        (case fst (find_command (node_name node) (factory env)) of
           None \<Rightarrow> act_throw (BESErr 3 (''Unable to find command for '' @ node_name node))
         | Some bldr \<Rightarrow>
             act_bind (act_gets d_xml_interface_dhi) (\<lambda>base.
             case build_command env bldr base of
               None \<Rightarrow> act_throw (BESErr 1 (''Failed to build command object for '' @ node_name node))
             | Some d \<Rightarrow>
                 if node_name node = ''setContext'' then
                   act_then (set_context_command env bldr node d) (act_return has_resp)
                 else act_then (push_command env bldr node d has_resp) (act_return (has_response env bldr)))))"

fun build_nodes ::
  "('k, 'h, 't, 'u) request_env \<Rightarrow> xml_node list \<Rightarrow> bool \<Rightarrow> (('k, 'h, 't, 'u) interface, unit) act" where
  "build_nodes env [] has_resp = act_return ()"
| "build_nodes env (node # rest) has_resp = act_bind (build_node env node has_resp) (build_nodes env rest)"

definition build_data_request_plan ::
  "('k, 'h, 't, 'u) request_env \<Rightarrow> (('k, 'h, 't, 'u) interface, unit) act" where
  "build_data_request_plan env s =
     (case xmlReadMemory env (d_xml_document s) of
        Inl errs \<Rightarrow>
          (Inl (BESErr 3 (''Problem parsing the request xml document:'' @ [CHR 0x0A] @ parse_errors True errs)), s)
      | Inr None \<Rightarrow> (Inl (BESErr 3 ''There is no root element in the xml document''), s)
      | Inr (Some root) \<Rightarrow>
          (case GetNodeInfo root [] [] of
             (root_name, root_val, props) \<Rightarrow>
               if root_name \<noteq> ''request'' then
                 (Inl (BESErr 3 (''The root element should be a request element, name is '' @ node_name root)), s)
               else if root_val \<noteq> [] then
                 (Inl (BESErr 3 (''The request element must not contain a value, '' @ root_val)), s)
               else
                 (let reqId = (case map_find props REQUEST_ID of None \<Rightarrow> [] | Some v \<Rightarrow> v)
                  in if reqId = [] then (Inl (BESErr 3 ''The request id value empty''), s)
                     else build_nodes env (node_children root) False (set_dhi (put_data REQUEST_ID reqId (the_dhi s)) s))))"

subsection \<open>Executing the plan\<close>

definition transmit_data :: "('k, 'h, 't, 'u) request_env \<Rightarrow> nat \<Rightarrow> (('k, 'h, 't, 'u) interface, unit) act" where
  "transmit_data env i s =
     (let d = snd (d_xml_cmd_list s ! i)
      in case error_info (data d) of
           Some info \<Rightarrow>
             (case d_transmitter s of
                None \<Rightarrow> (Inl Null_dereference, s)
              | Some t \<Rightarrow> on_command i (info_transmit env info t) s)
         | None \<Rightarrow>
             (case response_handler (data d) of
                None \<Rightarrow> (Inr (), s)
              | Some h \<Rightarrow>
                  (let return_as = get_data ''return_command'' d;
                       s = (if return_as \<noteq> [] then s\<lparr>d_transmitter := find_transmitter return_as (transmitters env)\<rparr>
                            else s)
                   in case d_transmitter s of
                        None \<Rightarrow>
                          if return_as \<noteq> [] then (Inl (BESErr 3 (''Unable to find transmitter '' @ return_as)), s)
                          else (Inl Null_dereference, s)
                      | Some t \<Rightarrow> on_command i (handler_transmit env h t) s)))"

text \<open>
  \<^verbatim>\<open>log_the_command\<close>: the text of the log entry is left out, but for a \<^verbatim>\<open>get\<close> command the code
  dereferences the first container without asking whether there is one.
\<close>

definition log_the_command :: "(('k, 'h, 't, 'u) interface, unit) act" where
  "log_the_command s =
     (if str_find (action (the_dhi s)) ''get.'' 0 \<noteq> None \<and> containers (the_dhi s) = []
      then (Inl Null_dereference, s) else (Inr (), s))"

text \<open>The body of the loop.\<close>

definition execute_command :: "('k, 'h, 't, 'u) request_env \<Rightarrow> nat \<Rightarrow> (('k, 'h, 't, 'u) interface, unit) act" where
  "execute_command env i =
     act_then (\<lambda>s. on_command i (prep_request env (fst (d_xml_cmd_list s ! i))) s)
       (act_then (act_modify (\<lambda>s. s\<lparr>d_dhi_ptr := Some i\<rparr>))
         (act_then log_the_command
         (act_then
           (\<lambda>s. let d = snd (d_xml_cmd_list s ! i)
                in case response_handler (data d) of
                     None \<Rightarrow>
                       (Inl (BESErr 1 (''The response handler '' @ [CHR 0x27] @ action d @ [CHR 0x27] @ '' does not exist'')), s)
                   | Some h \<Rightarrow> on_command i (handler_execute env h) s)
           (transmit_data env i))))"

definition execute_data_request_plan ::
  "('k, 'h, 't, 'u) request_env \<Rightarrow> (('k, 'h, 't, 'u) interface, unit) act" where
  "execute_data_request_plan env s = act_each (execute_command env) [0..<length (d_xml_cmd_list s)] s"

subsection \<open>The timeout\<close>

definition set_bes_timeout :: "(('k, 'h, 't, 'u) interface, unit) act" where
  "set_bes_timeout s =
     (case get_context ''bes_timeout'' (w_contexts (the_world s)) of
        (context, found) \<Rightarrow>
          if found then (Inr (), s\<lparr>request_timeout := int_of_long (fst (strtol context))\<rparr>)
          else act_bind (act_lift (read_int_key ''BES.TimeOutInSeconds'' 0 (w_keys (the_world s))))
                 (\<lambda>n. act_modify (\<lambda>s. s\<lparr>request_timeout := n\<rparr>)) s)"

definition start_timer :: "('k, 'h, 't, 'u) interface \<Rightarrow> ('k, 'h, 't, 'u) interface" where
  "start_timer s =
     (let w = the_world s
      in s\<lparr>the_world := w\<lparr>w_timer := timer_start (request_timeout s * 1000) (w_clock w) (w_timer w)\<rparr>\<rparr>)"

definition clear_bes_timeout :: "('k, 'h, 't, 'u) interface \<Rightarrow> ('k, 'h, 't, 'u) interface" where
  "clear_bes_timeout s =
     (let w = the_world s
      in s\<lparr>request_timeout := 0, the_world := w\<lparr>w_timer := disable_timeout (w_timer w)\<rparr>\<rparr>)"

subsection \<open>Error responses\<close>

fun any_begin_response :: "info_env \<Rightarrow> string \<Rightarrow> string \<Rightarrow> any_info \<Rightarrow> any_info result" where
  "any_begin_response env nm reqid (Text_info i) = Inr (Text_info (info_begin_response nm i))"
| "any_begin_response env nm reqid (Html_info i) = Inr (Html_info (html_begin_response (html_mime env) nm i))"
| "any_begin_response env nm reqid (Xml_info i) = map_sum id Xml_info (xml_begin_response (xml_rc env) nm [] reqid i)"

fun any_calls :: "info_env \<Rightarrow> info_call list \<Rightarrow> any_info \<Rightarrow> any_info result" where
  "any_calls env cs (Text_info i) = map_sum id Text_info (fold_res (text_call (text_mime env)) cs i)"
| "any_calls env cs (Html_info i) = map_sum id Html_info (fold_res (html_call (html_mime env)) cs i)"
| "any_calls env cs (Xml_info i) = map_sum id Xml_info (fold_res (xml_info_call (xml_rc env)) cs i)"

fun any_end_response :: "info_env \<Rightarrow> any_info \<Rightarrow> any_info result" where
  "any_end_response env (Text_info i) = map_sum id Text_info (info_end_response i)"
| "any_end_response env (Html_info i) = Inr (Html_info (html_end_response (html_mime env) i))"
| "any_end_response env (Xml_info i) = map_sum id Xml_info (xml_end_response (xml_rc env) (xml_content env) i)"

fun any_print :: "info_env \<Rightarrow> any_info \<Rightarrow> string result" where
  "any_print env (Text_info i) = Inr (info_print i)"
| "any_print env (Html_info i) = Inr (info_print i)"
| "any_print env (Xml_info i) = map_sum id fst (xml_print (xml_rc env) (xml_content env) i)"

text \<open>\<^verbatim>\<open>downcase\<close> of \<^verbatim>\<open>BESInterface.cc\<close>, which applies \<^verbatim>\<open>toupper\<close>.\<close>

definition toupper :: "char \<Rightarrow> char" where
  "toupper c = (if 97 \<le> (of_char c :: nat) \<and> (of_char c :: nat) \<le> 122 then char_of ((of_char c :: nat) - 32) else c)"

definition downcase :: "string \<Rightarrow> string" where
  "downcase s = map toupper s"

definition XML_ERRORS :: string where
  "XML_ERRORS = ''xml''"

definition choose_error_info ::
  "(string, string \<Rightarrow> any_info) stdmap \<Rightarrow> contexts \<Rightarrow> keystore \<Rightarrow> any_info option result" where
  "choose_error_info builders ctx ks =
     (case get_context ''errors'' ctx of
        (context, found) \<Rightarrow>
          if found \<and> downcase context = XML_ERRORS then Inr (Some (Xml_info xml_new))
          else build_info ks builders)"

definition admin_email :: "keystore \<Rightarrow> string" where
  "admin_email ks =
     (let email = d_email (new_server_administrator ks)
      in if email = [] then ''support@opendap.org'' else email)"

text \<open>The response: the info object with the exception in it.  When one of the three calls
  throws, the object is taken to be as it was before that call.\<close>

definition error_response ::
  "info_env \<Rightarrow> string \<Rightarrow> string \<Rightarrow> nat \<Rightarrow> string \<Rightarrow> string \<times> nat \<Rightarrow> string \<Rightarrow> any_info \<Rightarrow> any_info \<times> unit result" where
  "error_response env nm reqid ty msg wh admin i =
     (case any_begin_response env nm reqid i of
        Inl e \<Rightarrow> (i, Inl e)
      | Inr i1 \<Rightarrow>
          (case any_calls env (add_exception ty msg (fst wh) (snd wh) admin) i1 of
             Inl e \<Rightarrow> (i1, Inl e)
           | Inr i2 \<Rightarrow>
               (case any_end_response env i2 of
                  Inl e \<Rightarrow> (i2, Inl e)
                | Inr i3 \<Rightarrow> (i3, Inr ()))))"

text \<open>The error object is stored before the error is logged, which reads a key and may throw.\<close>

definition handleException ::
  "('k, 'h, 't, 'u) request_env \<Rightarrow> nat \<Rightarrow> string \<Rightarrow> string \<times> nat \<Rightarrow> (('k, 'h, 't, 'u) interface, nat) act" where
  "handleException env ty msg wh s =
     (let w = the_world s; d = the_dhi s;
          store = (\<lambda>i. set_dhi (d\<lparr>data := (data d)\<lparr>error_info := i\<rparr>\<rparr>) s)
      in case choose_error_info (info_builders env) (w_contexts w) (w_keys w) of
           Inl e \<Rightarrow> (Inl (thrown_of e), s)
         | Inr built \<Rightarrow>
             (case read_bool_key ''BES.DoNotLogSourceFilenames'' False (w_keys w) of
                Inl e \<Rightarrow> (Inl (thrown_of e), store built)
              | Inr _ \<Rightarrow>
                  (case built of
                     None \<Rightarrow> (Inl Null_dereference, store None)
                   | Some info \<Rightarrow>
                       (case error_response (infos env)
                               (if action_name (data d) = [] then ''BES'' else action_name (data d))
                               (get_data REQUEST_ID d) ty msg wh (admin_email (w_keys w)) info of
                          (info, Inl e) \<Rightarrow> (Inl (thrown_of e), store (Some info))
                        | (info, Inr _) \<Rightarrow> (Inr ty, store (Some info))))))"

text \<open>The four \<^verbatim>\<open>catch\<close> clauses.\<close>

definition catch_all ::
  "('k, 'h, 't, 'u) request_env \<Rightarrow> thrown \<Rightarrow> (('k, 'h, 't, 'u) interface, nat) act" where
  "catch_all env e =
     (case e of
        BESErr ty msg \<Rightarrow> handleException env ty msg (error_where env e)
      | Bad_alloc what \<Rightarrow>
          handleException env 2 (''int BESInterface::execute_request(const string&) - BES out of memory. msg: '' @ what @ [CHR 0x0A])
            (error_where env e)
      | Std_exception what \<Rightarrow>
          handleException env 1 (''int BESInterface::execute_request(const string&) - Caught C++ Exception. msg: '' @ what @ [CHR 0x0A])
            (error_where env e)
      | Other_exception \<Rightarrow>
          handleException env 1 ''int BESInterface::execute_request(const string&) - An unidentified exception has been thrown.''
            (error_where env e)
      | Null_dereference \<Rightarrow> act_throw Null_dereference)"

subsection \<open>One request\<close>

definition find_basic_transmitter :: "('k, 'h, 't, 'u) request_env \<Rightarrow> (('k, 'h, 't, 'u) interface, unit) act" where
  "find_basic_transmitter env s =
     (let t = find_transmitter ''basic'' (transmitters env); s = s\<lparr>d_transmitter := t\<rparr>
      in if t = None then
           (Inl (BESErr 1 (''Unable to find transmitter '' @ [CHR 0x27] @ ''basic'' @ [CHR 0x27])), s)
         else (Inr (), s))"

definition guarded_part :: "('k, 'h, 't, 'u) request_env \<Rightarrow> (('k, 'h, 't, 'u) interface, unit) act" where
  "guarded_part env =
     act_then (find_basic_transmitter env)
     (act_then (build_data_request_plan env)
     (act_then set_bes_timeout
     (act_then (act_modify start_timer)
     (act_then (execute_data_request_plan env)
     (act_then (act_modify clear_bes_timeout)
       (act_modify (\<lambda>s. set_dhi ((the_dhi s)\<lparr>data := (data (the_dhi s))\<lparr>executed := True\<rparr>\<rparr>) s)))))))"

definition execute_request ::
  "('k, 'h, 't, 'u) request_env \<Rightarrow> string \<Rightarrow> (('k, 'h, 't, 'u) interface, nat) act" where
  "execute_request env from_whom s =
     (let d = the_dhi s
      in if output_stream (data d) then (Inl (BESErr 1 ''output stream has already been set''), s)
         else
           (let d = d\<lparr>data := (data d)\<lparr>output_stream := True\<rparr>\<rparr>;
                d = put_data ''from'' from_whom d;
                s = set_dhi (put_data ''pid'' (nat_text (process_id env)) d) s
            in case guarded_part env s of
                 (Inr _, s) \<Rightarrow> (Inr 0, s)
               | (Inl e, s) \<Rightarrow> catch_all env e s))"

subsection \<open>Finishing\<close>

text \<open>\<^verbatim>\<open>log_status\<close> moves \<^verbatim>\<open>d_dhi_ptr\<close> through the commands when the log is verbose.\<close>

definition log_status :: "bool \<Rightarrow> ('k, 'h, 't, 'u) interface \<Rightarrow> ('k, 'h, 't, 'u) interface" where
  "log_status verbose s =
     (if verbose \<and> d_xml_cmd_list s \<noteq> [] then s\<lparr>d_dhi_ptr := Some (length (d_xml_cmd_list s) - 1)\<rparr> else s)"

fun release_loop :: "nat \<Rightarrow> ('k, 'h, 't, 'u) request_env \<Rightarrow> (('k, 'h, 't, 'u) interface, unit) act" where
  "release_loop 0 env s = (Inr (), s)"
| "release_loop (Suc n) env s =
     (case current (the_dhi s) of
        None \<Rightarrow> (Inr (), s)
      | Some i \<Rightarrow>
          (case container_release env (containers (the_dhi s) ! i) (the_world s) of
             (Inl e, w) \<Rightarrow> (Inl e, s\<lparr>the_world := w\<rparr>)
           | (Inr _, w) \<Rightarrow>
               (let s = s\<lparr>the_world := w\<rparr> in release_loop n env (set_dhi (next_container (the_dhi s)) s))))"

definition end_request :: "('k, 'h, 't, 'u) request_env \<Rightarrow> (('k, 'h, 't, 'u) interface, unit) act" where
  "end_request env s =
     release_loop (Suc (length (containers (the_dhi s)))) env (set_dhi (first_container (the_dhi s)) s)"

definition write_out :: "string \<Rightarrow> ('k, 'h, 't, 'u) interface \<Rightarrow> ('k, 'h, 't, 'u) interface" where
  "write_out t s = s\<lparr>the_world := (the_world s)\<lparr>w_out := w_out (the_world s) @ map Put t\<rparr>\<rparr>"

definition finish :: "('k, 'h, 't, 'u) request_env \<Rightarrow> nat \<Rightarrow> (('k, 'h, 't, 'u) interface, nat) act" where
  "finish env status =
     act_then (\<lambda>s. let d = the_dhi s
                   in case error_info (data d) of
                        None \<Rightarrow> (Inr (), s)
                      | Some info \<Rightarrow>
                          (case any_print (infos env) info of
                             Inl e \<Rightarrow> (Inl (thrown_of e), s)
                           | Inr t \<Rightarrow> (Inr (), write_out t (set_dhi (d\<lparr>data := (data d)\<lparr>error_info := None\<rparr>\<rparr>) s))))
       (\<lambda>s. case end_request env (log_status (verbose_log env) s) of
              (Inl Null_dereference, s) \<Rightarrow> (Inl Null_dereference, s)
            | (_, s) \<Rightarrow> (Inr status, s))"

subsection \<open>Facts on the parts\<close>

definition ptr_ok :: "('k, 'h, 't, 'u) interface \<Rightarrow> bool" where
  "ptr_ok s \<longleftrightarrow> (case d_dhi_ptr s of None \<Rightarrow> True | Some i \<Rightarrow> i < length (d_xml_cmd_list s))"

lemma the_dhi_set_dhi [simp]: "ptr_ok s \<Longrightarrow> the_dhi (set_dhi d s) = d"
  by (auto simp: ptr_ok_def the_dhi_def set_dhi_def split: option.splits)

lemma ptr_ok_set_dhi [simp]: "ptr_ok (set_dhi d s) = ptr_ok s"
  by (auto simp: ptr_ok_def set_dhi_def split: option.splits)

lemma set_dhi_world [simp]: "the_world (set_dhi d s) = the_world s"
  by (auto simp: set_dhi_def split: option.splits)

lemma world_update_simps [simp]:
  "the_dhi (s\<lparr>the_world := w\<rparr>) = the_dhi s" "ptr_ok (s\<lparr>the_world := w\<rparr>) = ptr_ok s"
  by (simp_all add: the_dhi_def ptr_ok_def split: option.splits)

lemma on_command_frame:
  assumes "on_command i m s = (r, s')"
  shows "map fst (d_xml_cmd_list s') = map fst (d_xml_cmd_list s)" and "d_dhi_ptr s' = d_dhi_ptr s"
proof -
  obtain r1 d w where m: "m (snd (d_xml_cmd_list s ! i), the_world s) = (r1, d, w)" by (metis prod.exhaust)
  have s': "s' = s\<lparr>d_xml_cmd_list := (d_xml_cmd_list s)[i := (fst (d_xml_cmd_list s ! i), d)], the_world := w\<rparr>"
    using assms m by (simp add: on_command_def)
  show "map fst (d_xml_cmd_list s') = map fst (d_xml_cmd_list s)"
    unfolding s' by (cases "i < length (d_xml_cmd_list s)") (simp_all add: map_update list_update_same_conv list_update_beyond)
  show "d_dhi_ptr s' = d_dhi_ptr s" by (simp add: s')
qed

subsection \<open>Which error object is used\<close>

lemma toupper_not_x: "toupper c \<noteq> CHR ''x''"
proof
  assume x: "toupper c = CHR ''x''"
  show False
  proof (cases "97 \<le> (of_char c :: nat) \<and> (of_char c :: nat) \<le> 122")
    case True
    have "(of_char (toupper c) :: nat) = of_char c - 32" using True by (auto simp: toupper_def intro!: mod_less)
    with x True show False by auto
  next
    case False
    with x show False by (auto simp: toupper_def split: if_splits)
  qed
qed

lemma downcase_not_xml: "downcase c \<noteq> XML_ERRORS"
  using toupper_not_x by (cases c) (auto simp: downcase_def XML_ERRORS_def)

text \<open>
  The \<^verbatim>\<open>errors\<close> context has no effect: whatever a client sets it to, the error response is built
  by the configured default builder, never as XML.  The comparison with \<^verbatim>\<open>"xml"\<close> comes after a function
  named \<^verbatim>\<open>downcase\<close> that converts to upper case.
\<close>

theorem errors_context_ignored: "choose_error_info builders ctx ks = build_info ks builders"
  by (simp add: choose_error_info_def downcase_not_xml split: prod.splits)

subsection \<open>An error response can always be built\<close>

lemma closed_add_exception: "closed (add_exception ty msg f l admin)"
  unfolding add_exception_def
  using closed_tagged [of "[Add_tag ''Type'' (nat_text ty) None, Add_tag ''Message'' msg None,
        Add_tag ''Administrator'' admin None, Begin_tag ''Location'' None, Add_tag ''File'' f None,
        Add_tag ''Line'' (nat_text l) None, End_tag ''Location'']" "''BESError''" None]
    closed_tagged [of "[Add_tag ''File'' f None, Add_tag ''Line'' (nat_text l) None]" "''Location''" None]
  by auto

definition plain_info :: "any_info \<Rightarrow> bool" where
  "plain_info i = (case i of Text_info t \<Rightarrow> tags t = [] | Html_info h \<Rightarrow> tags h = [] | Xml_info x \<Rightarrow> False)"

lemma error_response_plain:
  assumes "plain_info i"
  shows "\<exists>i' t. error_response env nm reqid ty msg wh admin i = (i', Inr ()) \<and> any_print env i' = Inr t"
proof (cases i)
  case (Text_info x)
  with assms have "tags (info_begin_response nm x) = []" by (simp add: plain_info_def info_begin_response_def)
  with text_sink.closed_succeeds [OF closed_add_exception [of ty msg "fst wh" "snd wh" admin],
      of "text_mime env" "info_begin_response nm x"]
  obtain y where "fold_res (text_call (text_mime env)) (add_exception ty msg (fst wh) (snd wh) admin)
      (info_begin_response nm x) = Inr y" "tags y = []" by auto
  with Text_info show ?thesis by (simp add: error_response_def info_end_response_def)
next
  case (Html_info x)
  obtain y where "fold_res (html_call (html_mime env)) (add_exception ty msg (fst wh) (snd wh) admin)
      (html_begin_response (html_mime env) nm x) = Inr y"
    using html_sink.closed_succeeds [OF closed_add_exception [of ty msg "fst wh" "snd wh" admin],
        of "html_mime env" "html_begin_response (html_mime env) nm x"] by blast
  with Html_info show ?thesis by (simp add: error_response_def)
qed (use assms in \<open>simp add: plain_info_def\<close>)

text \<open>The configuration lets a plain error response be built.\<close>

definition reporting_ok :: "('k, 'h, 't, 'u) request_env \<Rightarrow> 'u world \<Rightarrow> bool" where
  "reporting_ok env w \<longleftrightarrow>
     (case build_info (w_keys w) (info_builders env) of
        Inr (Some i) \<Rightarrow> plain_info i
      | _ \<Rightarrow> False)
     \<and> (case read_bool_key ''BES.DoNotLogSourceFilenames'' False (w_keys w) of Inr _ \<Rightarrow> True | Inl _ \<Rightarrow> False)"

lemma handleException_reports:
  assumes "reporting_ok env (the_world s)" and "ptr_ok s"
  shows "\<exists>s' i t. handleException env ty msg wh s = (Inr ty, s') \<and> error_info (data (the_dhi s')) = Some i
    \<and> any_print (infos env) i = Inr t \<and> the_world s' = the_world s"
proof -
  obtain i b where i: "build_info (w_keys (the_world s)) (info_builders env) = Inr (Some i)" "plain_info i"
    and b: "read_bool_key ''BES.DoNotLogSourceFilenames'' False (w_keys (the_world s)) = Inr b"
    using assms(1) unfolding reporting_ok_def by (auto split: sum.splits option.splits)
  from error_response_plain [OF i(2)] obtain j t where
    "error_response (infos env) (if action_name (data (the_dhi s)) = [] then ''BES'' else action_name (data (the_dhi s)))
       (get_data REQUEST_ID (the_dhi s)) ty msg wh (admin_email (w_keys (the_world s))) i = (j, Inr ())"
    "any_print (infos env) j = Inr t" by blast
  then show ?thesis using i(1) b assms(2)
    by (simp add: handleException_def choose_error_info_def downcase_not_xml Let_def split: prod.splits)
qed

subsection \<open>What every action keeps\<close>

lemma keeps_lift: "keeps P (act_lift r)"
  by (simp add: keeps_def act_lift_def act_throw_def act_return_def split: sum.splits)

text \<open>Building the plan leaves \<^verbatim>\<open>d_dhi_ptr\<close> on the interface's own data handler interface.\<close>

lemma keeps_on_command:
  assumes "\<And>s s'. map fst (d_xml_cmd_list s') = map fst (d_xml_cmd_list s) \<Longrightarrow> d_dhi_ptr s' = d_dhi_ptr s \<Longrightarrow> P s \<Longrightarrow> P s'"
  shows "keeps P (on_command i m)"
proof (rule keepsI)
  fix s assume "P s"
  obtain r s' where r: "on_command i m s = (r, s')" by (cases "on_command i m s")
  show "P (snd (on_command i m s))" using assms [OF on_command_frame [OF r] \<open>P s\<close>] r by simp
qed

lemma keeps_check_transmitter [intro]: "keeps P (check_transmitter env i)"
  by (simp add: keeps_def check_transmitter_def Let_def)

lemma keeps_set_context:
  assumes "\<And>s w. P s \<Longrightarrow> P (s\<lparr>the_world := w\<rparr>)"
  shows "keeps P (set_context_command env bldr node d)"
  using assms by (auto simp: keeps_def set_context_command_def split: prod.splits sum.splits option.splits)

lemma keeps_push_command:
  assumes "\<And>s x. P s \<Longrightarrow> P (s\<lparr>d_xml_cmd_list := d_xml_cmd_list s @ [x]\<rparr>)" and "\<And>i m. keeps P (on_command i m)"
  shows "keeps P (push_command env bldr node d b)"
proof (rule keepsI)
  fix s assume "P s"
  moreover have "keeps P (act_then (on_command i (parse_request env bldr node)) (check_transmitter env i))" for i
    using assms(2) by (intro keeps_then keeps_check_transmitter)
  ultimately show "P (snd (push_command env bldr node d b s))"
    using assms(1) by (simp add: push_command_def Let_def keeps_def)
qed

lemma build_node_ptr: "keeps (\<lambda>s. d_dhi_ptr s = None) (build_node env node b)"
  unfolding build_node_def
  by (auto intro!: keeps_bind keeps_then keeps_set_context keeps_push_command keeps_on_command split: option.splits)

lemma build_nodes_ptr: "keeps (\<lambda>s. d_dhi_ptr s = None) (build_nodes env nodes b)"
  by (induction nodes arbitrary: b) (auto intro: keeps_bind build_node_ptr)

lemma build_plan_ptr: "keeps (\<lambda>s. d_dhi_ptr s = None) (build_data_request_plan env)"
proof -
  have "d_dhi_ptr (set_dhi d s) = d_dhi_ptr s" for d and s :: "('a, 'b, 'c, 'd) interface"
    by (auto simp: set_dhi_def split: option.splits)
  then show ?thesis using build_nodes_ptr [of env]
    unfolding keeps_def build_data_request_plan_def
    by (auto simp: Let_def split: sum.splits option.splits prod.splits)
qed

text \<open>Executing it leaves the pointer on one of the commands.\<close>

definition plan_ok :: "nat \<Rightarrow> ('k, 'h, 't, 'u) interface \<Rightarrow> bool" where
  "plan_ok n s \<longleftrightarrow> ptr_ok s \<and> length (d_xml_cmd_list s) = n"

lemma keeps_on_command_plan [intro]: "keeps (plan_ok n) (on_command i m)"
proof (rule keeps_on_command)
  fix s s' :: "('a, 'b, 'c, 'd) interface"
  assume "map fst (d_xml_cmd_list s') = map fst (d_xml_cmd_list s)" "d_dhi_ptr s' = d_dhi_ptr s" "plan_ok n s"
  moreover from this(1) have "length (d_xml_cmd_list s') = length (d_xml_cmd_list s)" by (rule map_eq_imp_length_eq)
  ultimately show "plan_ok n s'" by (simp add: plan_ok_def ptr_ok_def split: option.splits)
qed

lemma on_command_plan_ok: "plan_ok n s \<Longrightarrow> plan_ok n (snd (on_command i m s))"
  using keeps_on_command_plan by (auto simp: keeps_def)

lemma keeps_transmit_data [intro]: "keeps (plan_ok n) (transmit_data env i)"
proof (rule keepsI)
  fix s :: "('a, 'b, 'c, 'd) interface" assume "plan_ok n s"
  moreover from this have "plan_ok n (s\<lparr>d_transmitter := t\<rparr>)" for t
    by (simp add: plan_ok_def ptr_ok_def split: option.splits)
  ultimately show "plan_ok n (snd (transmit_data env i s))"
    by (auto simp: transmit_data_def Let_def on_command_plan_ok split: option.splits)
qed

lemma keeps_execute_command:
  assumes "i < n"
  shows "keeps (plan_ok n) (execute_command env i)"
  unfolding execute_command_def
proof (intro keeps_then keeps_modify keeps_transmit_data)
  show "plan_ok n (s\<lparr>d_dhi_ptr := Some i\<rparr>)" if "plan_ok n s" for s :: "('a, 'b, 'c, 'd) interface"
    using that assms by (simp add: plan_ok_def ptr_ok_def)
qed (auto simp: keeps_def on_command_plan_ok Let_def log_the_command_def split: option.splits)

lemma keeps_execute_plan: "keeps (plan_ok n) (execute_data_request_plan env)"
proof (rule keepsI)
  fix s :: "('a, 'b, 'c, 'd) interface" assume ok: "plan_ok n s"
  then have len: "length (d_xml_cmd_list s) = n" by (simp add: plan_ok_def)
  have "keeps (plan_ok n) (act_each (execute_command env) [0..<n])"
    by (rule keeps_each, rule keeps_execute_command) simp
  with ok len show "plan_ok n (snd (execute_data_request_plan env s))"
    by (simp add: execute_data_request_plan_def keeps_def)
qed

lemma guarded_part_ptr_ok:
  fixes s :: "('k, 'h, 't, 'u) interface"
  assumes "d_dhi_ptr s = None"
  shows "ptr_ok (snd (guarded_part env s))"
proof -
  let ?P = "\<lambda>s :: ('k, 'h, 't, 'u) interface. d_dhi_ptr s = None"
  let ?exec = "act_then (execute_data_request_plan env)
     (act_then (act_modify clear_bes_timeout)
       (act_modify (\<lambda>s. set_dhi ((the_dhi s)\<lparr>data := (data (the_dhi s))\<lparr>executed := True\<rparr>\<rparr>) s)))"
  have none: "\<forall>s. ?P s \<longrightarrow> ptr_ok s" by (simp add: ptr_ok_def)
  have exec: "ptr_ok (snd (?exec s))" if "?P s" for s
  proof -
    have "keeps (plan_ok n) ?exec" for n
      by (intro keeps_then keeps_execute_plan keeps_modify)
        (auto simp: plan_ok_def clear_bes_timeout_def Let_def ptr_ok_def set_dhi_def split: option.splits)
    moreover have "plan_ok (length (d_xml_cmd_list s)) s" using none that by (simp add: plan_ok_def)
    ultimately have "plan_ok (length (d_xml_cmd_list s)) (snd (?exec s))" by (simp add: keeps_def)
    then show ?thesis by (simp add: plan_ok_def)
  qed
  have timeout: "keeps ?P set_bes_timeout"
    by (auto simp: keeps_def set_bes_timeout_def act_lift_def act_simps split: prod.splits sum.splits)
  have timer: "keeps ?P (act_modify start_timer)" by (rule keeps_modify) (simp add: start_timer_def Let_def)
  have basic: "keeps ?P (find_basic_transmitter env)" by (simp add: keeps_def find_basic_transmitter_def Let_def)
  note post = act_then_post [OF none]
  show ?thesis unfolding guarded_part_def
    by (rule post [OF basic assms], rule post [OF build_plan_ptr], assumption, rule post [OF timeout], assumption,
        rule post [OF timer], assumption, rule exec)
qed

subsection \<open>The outcome of a request\<close>

definition prepared ::
  "('k, 'h, 't, 'u) request_env \<Rightarrow> string \<Rightarrow> ('k, 'h, 't, 'u) interface \<Rightarrow> ('k, 'h, 't, 'u) interface" where
  "prepared env from_whom s =
     set_dhi (put_data ''pid'' (nat_text (process_id env)) (put_data ''from'' from_whom
       ((the_dhi s)\<lparr>data := (data (the_dhi s))\<lparr>output_stream := True\<rparr>\<rparr>))) s"

lemma execute_request_new:
  "execute_request env from_whom (new_interface xml_doc w) =
     (case guarded_part env (prepared env from_whom (new_interface xml_doc w)) of
        (Inr _, s) \<Rightarrow> (Inr 0, s)
      | (Inl e, s) \<Rightarrow> catch_all env e s)"
  by (simp add: execute_request_def prepared_def new_interface_def new_dhi_def the_dhi_def Let_def)

fun error_status :: "thrown \<Rightarrow> nat" where
  "error_status (BESErr ty msg) = ty"
| "error_status (Bad_alloc what) = 2"
| "error_status _ = 1"

lemma catch_all_reports:
  assumes "reporting_ok env (the_world s)" and "ptr_ok s" and "e \<noteq> Null_dereference"
  shows "\<exists>s' i t. catch_all env e s = (Inr (error_status e), s') \<and> error_info (data (the_dhi s')) = Some i
    \<and> any_print (infos env) i = Inr t \<and> the_world s' = the_world s"
proof -
  have "\<exists>msg. catch_all env e = handleException env (error_status e) msg (error_where env e)"
    using assms(3) by (cases e) (auto simp: catch_all_def)
  then show ?thesis using handleException_reports [OF assms(1,2)] by metis
qed

lemma prepared_ptr: "d_dhi_ptr (prepared env from_whom (new_interface xml_doc w)) = None"
  by (simp add: prepared_def new_interface_def set_dhi_def)

subsection \<open>A concrete server\<close>

text \<open>
  Commands that name their response handler; those starting with \<^verbatim>\<open>show\<close> have a response, which is
  two bytes and a flush; \<^verbatim>\<open>showSecret\<close> throws.  The document is the list of its command names.
\<close>

definition sample_env :: "(string, string, unit, nat) request_env" where
  "sample_env =
     \<lparr>xmlReadMemory = (\<lambda>doc. if doc = [] then Inl [''Document is empty'']
        else Inr (Some (Element ''request'' [(REQUEST_ID, Some ''7'')]
               (if doc = ''denied'' then [Element ''showSecret'' [] []]
                else if doc = ''two'' then
                  [Element ''showStatus'' [] [], Text_node None, Element ''setContainer'' [] [], Element ''showStatus'' [] []]
                else [Element ''showStatus'' [] []])))),
      factory = [(''setContainer'', Some ''setContainer''), (''showSecret'', Some ''showSecret''),
                 (''showStatus'', Some ''showStatus'')],
      build_command = (\<lambda>k d. Some (d\<lparr>action := k, data := (data d)\<lparr>response_handler := Some k\<rparr>\<rparr>)),
      has_response = (\<lambda>k. take 4 k = ''show''),
      parse_request = (\<lambda>k node. act_return ()),
      prep_request = (\<lambda>k. act_return ()),
      handler_execute = (\<lambda>h. if h = ''showSecret'' then act_throw (BESErr 4 ''no'') else act_return ()),
      handler_transmit = (\<lambda>h t. if take 4 h = ''show''
        then act_modify (\<lambda>(d, w). (d, w\<lparr>w_out := w_out w @ [Put (CHR ''o''), Put (CHR ''k''), Flush]\<rparr>))
        else act_return ()),
      info_transmit = (\<lambda>i t. act_return ()),
      container_release = (\<lambda>c. act_modify (\<lambda>w. w\<lparr>w_other := w_other w + 1\<rparr>)),
      transmitters = [(''basic'', ())],
      info_builders = [(''txt'', \<lambda>_. Text_info (text_new False))],
      infos = \<lparr>text_mime = [], html_mime = [], xml_rc = (\<lambda>_. 0), xml_content = (\<lambda>_. Some [])\<rparr>,
      error_where = (\<lambda>_. (''f'', 1)), verbose_log = False, process_id = 5\<rparr>"

definition sample_world :: "nat world" where
  "sample_world = \<lparr>w_contexts = [], w_keys = [], w_timer = new_timer 0, w_clock = 0, w_out = [], w_other = 0\<rparr>"

subsection \<open>Properties of a request\<close>

text \<open>
  C5: Executing a request never lets an exception escape, whatever the commands and handlers throw
  (BES errors, out of memory, other C++ exceptions, anything else), as long as the keys at that point name a text
  or HTML builder for errors and hold a readable \<^verbatim>\<open>BES.DoNotLogSourceFilenames\<close>, and no null or missing object is
  dereferenced on the way.  The status is 0 when everything went through; otherwise it is the
  type of the error, out of memory counting as fatal and any other foreign exception as internal, and a
  printable error response is waiting in the data handler interface for \<^verbatim>\<open>finish\<close>.
\<close>

theorem execute_request_status:
  assumes "guarded_part env (prepared env from_whom (new_interface xml_doc w)) = (r, s1)"
    and "r \<noteq> Inl Null_dereference" and "reporting_ok env (the_world s1)"
  shows "\<exists>s'. execute_request env from_whom (new_interface xml_doc w)
        = (Inr (case r of Inr _ \<Rightarrow> 0 | Inl e \<Rightarrow> error_status e), s')
      \<and> the_world s' = the_world s1
      \<and> (\<forall>e. r = Inl e \<longrightarrow> (\<exists>i t. error_info (data (the_dhi s')) = Some i \<and> any_print (infos env) i = Inr t))"
proof (cases r)
  case (Inl e)
  have "ptr_ok s1" using guarded_part_ptr_ok [OF prepared_ptr, of env env from_whom xml_doc w] assms(1) by simp
  with catch_all_reports [OF assms(3), of e] assms(1,2) Inl show ?thesis by (auto simp: execute_request_new)
next
  case (Inr u)
  with assms(1) show ?thesis by (simp add: execute_request_new)
qed

theorem execute_request_status_witness:
  "\<exists>s'. execute_request sample_env ''me'' (new_interface ''denied'' sample_world) = (Inr 4, s')
     \<and> (\<exists>i t. error_info (data (the_dhi s')) = Some i \<and> any_print (infos sample_env) i = Inr t)"
proof -
  let ?g = "guarded_part sample_env (prepared sample_env ''me'' (new_interface ''denied'' sample_world))"
  have r: "fst ?g = Inl (BESErr 4 ''no'')" and ok: "reporting_ok sample_env (the_world (snd ?g))" by code_simp+
  then have "?g = (Inl (BESErr 4 ''no''), snd ?g)" by (simp add: prod_eq_iff)
  from execute_request_status [OF this _ ok] show ?thesis by auto
qed

text \<open>The builders of the commands that are added to the list.\<close>

definition node_commands :: "('k, 'h, 't, 'u) request_env \<Rightarrow> xml_node list \<Rightarrow> 'k list" where
  "node_commands env nodes =
     concat (map (\<lambda>n. if is_element n \<and> node_name n \<noteq> ''setContext'' then
                        (case fst (find_command (node_name n) (factory env)) of Some b \<Rightarrow> [b] | None \<Rightarrow> [])
                      else []) nodes)"

definition not_both :: "bool \<Rightarrow> bool \<Rightarrow> bool" where
  "not_both x y \<longleftrightarrow> \<not> (x \<and> y)"

lemma push_command_result:
  assumes "push_command env b node d r s = (Inr (), s')"
  shows "map fst (d_xml_cmd_list s') = map fst (d_xml_cmd_list s) @ [b] \<and> not_both r (has_response env b)"
proof -
  let ?s = "s\<lparr>d_xml_cmd_list := d_xml_cmd_list s @ [(b, d)]\<rparr>"
  have nb: "not_both r (has_response env b)" using assms by (auto simp: push_command_def Let_def not_both_def)
  with assms obtain s1 where s1: "on_command (length (d_xml_cmd_list s)) (parse_request env b node) ?s = (Inr (), s1)"
      "check_transmitter env (length (d_xml_cmd_list s)) s1 = (Inr (), s')"
    by (auto simp: push_command_def Let_def not_both_def act_then_Inr)
  have "s' = s1" using s1(2) by (auto simp: check_transmitter_def Let_def split: if_splits)
  with on_command_frame(1) [OF s1(1)] nb show ?thesis by simp
qed

lemma build_node_result:
  assumes "build_node env node r s = (Inr r', s')"
  shows "map fst (d_xml_cmd_list s') = map fst (d_xml_cmd_list s) @ node_commands env [node]
    \<and> successively not_both (r # map (has_response env) (node_commands env [node]))
    \<and> r' = last (r # map (has_response env) (node_commands env [node]))"
proof (cases "is_element node")
  case False
  with assms show ?thesis by (simp add: build_node_def act_return_def node_commands_def)
next
  case True
  with assms obtain b d where bd: "fst (find_command (node_name node) (factory env)) = Some b"
      "build_command env b (d_xml_interface_dhi s) = Some d"
    by (auto simp: build_node_def act_simps split: option.splits)
  show ?thesis
  proof (cases "node_name node = ''setContext''")
    case ctx: True
    have sc: "set_context_command env b node d s = (Inr (), s')" and r': "r' = r"
      using assms True bd ctx by (auto simp: build_node_def act_bind_Inr act_then_Inr act_gets_def act_return_def)
    have "d_xml_cmd_list s' = d_xml_cmd_list s"
      using sc by (auto simp: set_context_command_def split: prod.splits sum.splits option.splits)
    with ctx r' show ?thesis by (simp add: node_commands_def)
  next
    case False
    have pc: "push_command env b node d r s = (Inr (), s')" and r': "r' = has_response env b"
      using assms True bd False by (auto simp: build_node_def act_bind_Inr act_then_Inr act_gets_def act_return_def)
    from push_command_result [OF pc] r' True False bd(1) show ?thesis by (simp add: node_commands_def)
  qed
qed

lemma successively_join:
  "successively P (x # ys) \<Longrightarrow> successively P (last (x # ys) # zs) \<Longrightarrow> successively P (x # ys @ zs)"
  by (cases zs) (auto simp: successively_append_iff simp flip: append_Cons)

lemma build_nodes_result:
  assumes "build_nodes env nodes r s = (Inr (), s')"
  shows "map fst (d_xml_cmd_list s') = map fst (d_xml_cmd_list s) @ node_commands env nodes
    \<and> successively not_both (r # map (has_response env) (node_commands env nodes))"
  using assms
proof (induction nodes arbitrary: r s)
  case Nil
  then show ?case by (simp add: act_return_def node_commands_def)
next
  case (Cons n nodes)
  then obtain r1 s1 where 1: "build_node env n r s = (Inr r1, s1)" "build_nodes env nodes r1 s1 = (Inr (), s')"
    by (auto simp: act_bind_Inr)
  have split: "node_commands env (n # nodes) = node_commands env [n] @ node_commands env nodes"
    by (simp add: node_commands_def)
  from build_node_result [OF 1(1)] Cons.IH [OF 1(2)] show ?case
    by (auto simp: split intro: successively_join)
qed

text \<open>
  C31: When the plan of a request is built without error, the document has a root element named
  \<^verbatim>\<open>request\<close> with a request id, whose first child that is a text node, if there is one, is blank (a later
  text node may hold any text); the commands in the list are those of its child elements, in
  document order and without the \<^verbatim>\<open>setContext\<close> ones, and no two neighbouring commands both have a response.
\<close>

theorem plan_commands:
  assumes "build_data_request_plan env (prepared env from_whom (new_interface xml_doc w)) = (Inr (), s')"
  shows "\<exists>root. xmlReadMemory env xml_doc = Inr (Some root)
    \<and> removeLeadingAndTrailingBlanks (node_name root) = ''request''
    \<and> text_value [] (node_children root) = []
    \<and> map_find (GetProps root []) REQUEST_ID \<notin> {None, Some []}
    \<and> map fst (d_xml_cmd_list s') = node_commands env (node_children root)
    \<and> successively not_both (map (has_response env) (node_commands env (node_children root)))"
proof -
  let ?s = "prepared env from_whom (new_interface xml_doc w)"
  have doc: "d_xml_document ?s = xml_doc" and empty: "d_xml_cmd_list (set_dhi d ?s) = []" for d
    by (simp_all add: prepared_def new_interface_def set_dhi_def)
  obtain root where root: "xmlReadMemory env xml_doc = Inr (Some root)"
    using assms by (auto simp: build_data_request_plan_def doc split: sum.splits option.splits)
  let ?id = "case map_find (GetProps root []) REQUEST_ID of None \<Rightarrow> [] | Some v \<Rightarrow> v"
  have ok: "removeLeadingAndTrailingBlanks (node_name root) = ''request''" "text_value [] (node_children root) = []" "?id \<noteq> []"
    using assms root by (auto simp: build_data_request_plan_def doc GetNodeInfo_def Let_def split: if_splits)
  have "build_nodes env (node_children root) False (set_dhi (put_data REQUEST_ID ?id (the_dhi ?s)) ?s) = (Inr (), s')"
    using assms root ok by (simp add: build_data_request_plan_def doc GetNodeInfo_def Let_def)
  from build_nodes_result [OF this] have
    "map fst (d_xml_cmd_list s') = node_commands env (node_children root)"
    "successively not_both (False # map (has_response env) (node_commands env (node_children root)))"
    by (simp_all add: empty)
  moreover from this(2) have "successively not_both (map (has_response env) (node_commands env (node_children root)))"
    by (auto simp: successively_Cons)
  ultimately show ?thesis using root ok by (auto split: option.splits)
qed

theorem plan_commands_witness:
  "map fst (d_xml_cmd_list (snd (build_data_request_plan sample_env
      (prepared sample_env ''me'' (new_interface ''two'' sample_world))))) = [''showStatus'', ''setContainer'', ''showStatus'']"
proof -
  let ?b = "build_data_request_plan sample_env (prepared sample_env ''me'' (new_interface ''two'' sample_world))"
  have "fst ?b = Inr ()" by code_simp
  then have "?b = (Inr (), snd ?b)" by (simp add: prod_eq_iff)
  from plan_commands [OF this] obtain root where
    root: "xmlReadMemory sample_env ''two'' = Inr (Some root)"
      "map fst (d_xml_cmd_list (snd ?b)) = node_commands sample_env (node_children root)" by blast
  have "root = Element ''request'' [(REQUEST_ID, Some ''7'')]
      [Element ''showStatus'' [] [], Text_node None, Element ''setContainer'' [] [], Element ''showStatus'' [] []]"
    using root(1) by (simp add: sample_env_def)
  then show ?thesis unfolding root(2) by (simp add: node_commands_def find_command_def) (simp add: sample_env_def)
qed

text \<open>
  The test for more than one response only compares neighbours: a request with two commands that
  each have a response and one without between them is accepted, and both responses are sent.
\<close>

lemma two_responses_accepted:
  "fst (execute_request sample_env ''me'' (new_interface ''two'' sample_world)) = Inr 0
   \<and> w_out (the_world (snd (execute_request sample_env ''me'' (new_interface ''two'' sample_world))))
     = [Put (CHR ''o''), Put (CHR ''k''), Flush, Put (CHR ''o''), Put (CHR ''k''), Flush]"
  by code_simp

subsection \<open>Finishing releases the containers\<close>

definition release_all :: "('k, 'h, 't, 'u) request_env \<Rightarrow> file_container list \<Rightarrow> 'u world \<Rightarrow> 'u world" where
  "release_all env cs w = fold (\<lambda>c w. snd (container_release env c w)) cs w"

lemma release_loop_all:
  assumes "\<And>c w. fst (container_release env c w) = Inr ()" and "ptr_ok s"
    and "containers_iterator (the_dhi s) = j"
    and "current (the_dhi s) = (if j < length (containers (the_dhi s)) then Some j else None)"
    and "length (containers (the_dhi s)) < n + j"
  shows "\<exists>s'. release_loop n env s = (Inr (), s')
    \<and> the_world s' = release_all env (drop j (containers (the_dhi s))) (the_world s)
    \<and> error_info (data (the_dhi s')) = error_info (data (the_dhi s))"
  using assms(2-5)
proof (induction n arbitrary: s j)
  case 0
  then show ?case by (simp add: release_all_def)
next
  case (Suc n)
  let ?cs = "containers (the_dhi s)"
  show ?case
  proof (cases "j < length ?cs")
    case False
    with Suc.prems show ?thesis by (simp add: release_all_def)
  next
    case True
    obtain w where w: "container_release env (?cs ! j) (the_world s) = (Inr (), w)"
      using assms(1) [of "?cs ! j" "the_world s"] by (cases "container_release env (?cs ! j) (the_world s)") auto
    let ?d = "next_container (the_dhi s)"
    let ?s = "set_dhi ?d (s\<lparr>the_world := w\<rparr>)"
    have d: "the_dhi ?s = ?d" using Suc.prems(1) by simp
    have cs: "containers ?d = ?cs" "containers_iterator ?d = Suc j"
      "current ?d = (if Suc j < length ?cs then Some (Suc j) else None)" "data ?d = data (the_dhi s)"
      using Suc.prems(2) by (simp_all add: next_container_def Let_def)
    have "\<exists>s'. release_loop n env ?s = (Inr (), s') \<and> the_world s' = release_all env (drop (Suc j) (containers (the_dhi ?s))) (the_world ?s)
        \<and> error_info (data (the_dhi s')) = error_info (data (the_dhi ?s))"
      by (rule Suc.IH) (use Suc.prems True d cs in simp_all)
    then show ?thesis using True Suc.prems w
      by (simp add: d cs release_all_def Cons_nth_drop_Suc [symmetric] Let_def)
  qed
qed

text \<open>What \<^verbatim>\<open>finish\<close> prints: the pending error response, nothing without one.\<close>

definition pending_text :: "('k, 'h, 't, 'u) request_env \<Rightarrow> ('k, 'h, 't, 'u) interface \<Rightarrow> string result" where
  "pending_text env s = (case error_info (data (the_dhi s)) of None \<Rightarrow> Inr [] | Some i \<Rightarrow> any_print (infos env) i)"

text \<open>Two containers and a pending error.\<close>

definition sample_container :: "string \<Rightarrow> file_container" where
  "sample_container nm =
     \<lparr>symbolic_name = nm, real_name = nm, relative_name = [], container_type = ''nc'', constraint = [],
      dap4_constraint = [], dap4_function = [], attributes = [], cached = False, target = []\<rparr>"

definition failed_request :: "(string, string, unit, nat) interface" where
  "failed_request =
     (new_interface ''denied'' sample_world)\<lparr>d_xml_interface_dhi :=
        new_dhi\<lparr>containers := [sample_container ''c1'', sample_container ''c2''],
          data := (data new_dhi)\<lparr>error_info := Some (Text_info (text_new False))\<rparr>\<rparr>\<rparr>"

text \<open>
  C32: \<^verbatim>\<open>finish\<close> prints the error response of the data handler interface it points to, if there is one
  and it can be printed, exactly once, removes it, and then releases every container of that interface, in
  order and each exactly once; the status is passed on.  The log must not be verbose (\<^verbatim>\<open>log_status\<close> would move the
  pointer to another command) and releasing a container must not throw.
\<close>

theorem finish_releases:
  assumes "\<And>c w. fst (container_release env c w) = Inr ()" and "ptr_ok s" and "\<not> verbose_log env"
    and "pending_text env s = Inr t"
  shows "\<exists>s'. finish env status s = (Inr status, s') \<and> error_info (data (the_dhi s')) = None
    \<and> the_world s' = release_all env (containers (the_dhi s)) ((the_world s)\<lparr>w_out := w_out (the_world s) @ map Put t\<rparr>)"
proof -
  define s1 where "s1 = (case error_info (data (the_dhi s)) of None \<Rightarrow> s
    | Some i \<Rightarrow> write_out t (set_dhi ((the_dhi s)\<lparr>data := (data (the_dhi s))\<lparr>error_info := None\<rparr>\<rparr>) s))"
  have ok: "ptr_ok s1" "containers (the_dhi s1) = containers (the_dhi s)" "error_info (data (the_dhi s1)) = None"
    "the_world s1 = (the_world s)\<lparr>w_out := w_out (the_world s) @ map Put t\<rparr>"
    using assms(2,4) by (auto simp: s1_def write_out_def pending_text_def split: option.splits)
  let ?s = "set_dhi (first_container (the_dhi s1)) s1"
  have d: "the_dhi ?s = first_container (the_dhi s1)" using ok(1) by simp
  have "\<exists>s'. release_loop (Suc (length (containers (the_dhi s1)))) env ?s = (Inr (), s')
      \<and> the_world s' = release_all env (drop 0 (containers (the_dhi ?s))) (the_world ?s)
      \<and> error_info (data (the_dhi s')) = error_info (data (the_dhi ?s))"
    by (rule release_loop_all [OF assms(1)]) (use ok(1) d in \<open>simp_all add: first_container_def\<close>)
  then obtain s' where s': "end_request env s1 = (Inr (), s')" "error_info (data (the_dhi s')) = None"
      "the_world s' = release_all env (containers (the_dhi s)) ((the_world s)\<lparr>w_out := w_out (the_world s) @ map Put t\<rparr>)"
    using ok d by (auto simp: end_request_def first_container_def)
  have "finish env status s = (Inr status, s')" using assms(3,4) s'(1)
    by (auto simp: finish_def act_then_def act_bind_def Let_def log_status_def s1_def pending_text_def
        split: option.splits)
  with s'(2,3) show ?thesis by blast
qed

theorem finish_releases_witness:
  "\<exists>s'. finish sample_env 4 failed_request = (Inr 4, s') \<and> error_info (data (the_dhi s')) = None
     \<and> w_other (the_world s') = 2"
proof -
  have rel: "fst (container_release sample_env c w) = Inr ()" for c w by (simp add: sample_env_def act_modify_def)
  have ptr: "ptr_ok failed_request" and v: "\<not> verbose_log sample_env" by code_simp+
  have "(case pending_text sample_env failed_request of Inr t \<Rightarrow> True | _ \<Rightarrow> False)" by code_simp
  then obtain t where t: "pending_text sample_env failed_request = Inr t" by (auto split: sum.splits)
  have "containers (the_dhi failed_request) = [sample_container ''c1'', sample_container ''c2'']"
    and "w_other (the_world failed_request) = 0" by code_simp+
  with finish_releases [OF rel ptr v t, of 4] show ?thesis
    by (auto simp: release_all_def sample_env_def act_modify_def)
qed

end
