(* ===== verification/Bes_Server.thy ===== *)
theory Bes_Server
  imports Bes_Interface Ppt_Connection
begin

text \<open>
  The listener process: \<^verbatim>\<open>server/BESServerHandler.cc\<close>.  It receives commands from a client over
  a PPT connection, executes each one through \<^verbatim>\<open>BESXMLInterface\<close>, writes the response
  through \<^verbatim>\<open>PPTStreamBuf\<close> to the same socket, and exits when the client says so or on a fatal error.

  The stream buffer's \<open>written\<close> is everything written to the socket, so the extension chunk that announces
  an error is appended to it directly.  \<open>fuel\<close> bounds the chunks of one message and the number of
  messages; the theorems say how much is enough.
\<close>

subsection \<open>Choosing how to handle a client\<close>

datatype handler_mode = Single | Multiple

definition SERVER_EXIT_FATAL_CANNOT_START :: nat where
  "SERVER_EXIT_FATAL_CANNOT_START = 1"

definition SERVER_EXIT_ABNORMAL_TERMINATION :: nat where
  "SERVER_EXIT_ABNORMAL_TERMINATION = 2"

definition CHILD_SUBPROCESS_READY :: nat where
  "CHILD_SUBPROCESS_READY = 6"

text \<open>The constructor; \<^const>\<open>Inl\<close> is the exit status.\<close>

definition new_server_handler :: "keystore \<Rightarrow> nat + handler_mode" where
  "new_server_handler ks =
     (case get_value ''BES.ProcessManagerMethod'' ks of
        Inl e \<Rightarrow> Inl SERVER_EXIT_FATAL_CANNOT_START
      | Inr v \<Rightarrow>
          (let m = (case v of None \<Rightarrow> [] | Some m \<Rightarrow> m)
           in if m = ''multiple'' then Inr Multiple
              else if m = ''single'' then Inr Single
              else Inl SERVER_EXIT_FATAL_CANNOT_START))"

datatype handle_action = Execute_here | Return_to_listener

text \<open>\<open>pid\<close> is what \<^verbatim>\<open>fork\<close> returns.\<close>

definition handle :: "handler_mode \<Rightarrow> int \<Rightarrow> string \<Rightarrow> handle_action result" where
  "handle m pid error_text =
     (case m of
        Single \<Rightarrow> Inr Execute_here
      | Multiple \<Rightarrow>
          if pid < 0 then Inl (BESInternalError (''fork error'' @ '' '' @ error_text))
          else if pid = 0 then Inr Execute_here
          else Inr Return_to_listener)"

subsection \<open>One command\<close>

record 'u responder =
  fds :: ppt_streambuf
  server_world :: "'u world"

datatype 'r outcome = Running 'r | Exited nat 'r | Terminated thrown 'r | Starved

fun sb_event :: "out_event \<Rightarrow> ppt_streambuf \<Rightarrow> ppt_streambuf" where
  "sb_event (Put c) = sb_put c"
| "sb_event Flush = sb_sync"

text \<open>The events of an interface are what it wrote since it was handed the world.\<close>

definition emit :: "('k, 'h, 't, 'u) interface \<Rightarrow> ppt_streambuf \<Rightarrow> ppt_streambuf" where
  "emit s b = fold sb_event (w_out (the_world s)) b"

definition clear_out :: "'u world \<Rightarrow> 'u world" where
  "clear_out w = w\<lparr>w_out := []\<rparr>"

definition error_extensions :: "nat \<Rightarrow> extensions" where
  "error_extensions status =
     (let m = map_put ''status'' ''error'' [] in if status = 2 then map_put ''exit'' ''true'' m else m)"

text \<open>What follows the response to a failed command.\<close>

definition after_error :: "nat \<Rightarrow> 'u responder \<Rightarrow> 'u responder outcome" where
  "after_error status r =
     (if status = 2 then Exited SERVER_EXIT_ABNORMAL_TERMINATION r
      else if status = 1 then
        (case read_bool_key ''BES.ExitOnInternalError'' False (w_keys (server_world r)) of
           Inl e \<Rightarrow> Terminated (thrown_of e) r
         | Inr True \<Rightarrow> Exited SERVER_EXIT_ABNORMAL_TERMINATION r
         | Inr False \<Rightarrow> Running r)
      else Running r)"

definition process_command ::
  "('k, 'h, 't, 'u) request_env \<Rightarrow> string \<Rightarrow> string \<Rightarrow> 'u responder \<Rightarrow> 'u responder outcome" where
  "process_command env from_whom cmd_str r =
     (case execute_request env from_whom (new_interface cmd_str (clear_out (server_world r))) of
        (Inl e, s) \<Rightarrow> Terminated e \<lparr>fds = emit s (fds r), server_world = the_world s\<rparr>
      | (Inr status, s) \<Rightarrow>
          (let b = emit s (fds r);
               b = (if status = 0 then b else b\<lparr>written := written b @ sendExtensions (error_extensions status)\<rparr>)
           in case finish env status (s\<lparr>the_world := clear_out (the_world s)\<rparr>) of
                (Inl e, s) \<Rightarrow> Terminated e \<lparr>fds = emit s b, server_world = the_world s\<rparr>
              | (Inr _, s) \<Rightarrow>
                  (let r = \<lparr>fds = sb_finish (emit s b), server_world = the_world s\<rparr>
                   in if status = 0 then Running r else after_error status r)))"

subsection \<open>The loop\<close>

type_synonym 'u session = "sock_event list ppt_connection \<times> extensions \<times> 'u responder"

text \<open>\<^verbatim>\<open>extensions["status"]\<close> creates the entry when it is absent.\<close>

definition serve_request ::
  "nat \<Rightarrow> ('k, 'h, 't, 'u) request_env \<Rightarrow> string \<Rightarrow> 'u session \<Rightarrow> 'u session outcome" where
  "serve_request fuel env from_whom sv =
     (case sv of (c, exts, r) \<Rightarrow>
        (case receive_message fuel sock_receive c exts [] of
           None \<Rightarrow> Starved
         | Some (Inl e) \<Rightarrow> Terminated (thrown_of e) sv
         | Some (Inr (exts, cmd_str, c)) \<Rightarrow>
             (let exts = (case map_find exts ''status'' of None \<Rightarrow> map_put ''status'' [] exts | Some _ \<Rightarrow> exts)
              in if map_find exts ''status'' = Some PPT_EXIT_NOW then Exited CHILD_SUBPROCESS_READY (c, exts, r)
                 else map_outcome (\<lambda>r. (c, exts, r)) (process_command env from_whom cmd_str r))))"

fun serve :: "nat \<Rightarrow> nat \<Rightarrow> ('k, 'h, 't, 'u) request_env \<Rightarrow> string \<Rightarrow> 'u session \<Rightarrow> 'u session outcome" where
  "serve 0 fuel env from_whom sv = Starved"
| "serve (Suc n) fuel env from_whom sv =
     (case serve_request fuel env from_whom sv of Running sv \<Rightarrow> serve n fuel env from_whom sv | out \<Rightarrow> out)"

subsection \<open>The bytes of a response\<close>

fun event_byte :: "out_event \<Rightarrow> string" where
  "event_byte (Put c) = [c]"
| "event_byte Flush = []"

definition out_bytes :: "out_event list \<Rightarrow> string" where
  "out_bytes evs = concat (map event_byte evs)"

lemma out_bytes_append [simp]: "out_bytes (xs @ ys) = out_bytes xs @ out_bytes ys"
  by (simp add: out_bytes_def)

lemma out_bytes_Put [simp]: "out_bytes (map Put t) = t"
  by (induction t) (auto simp: out_bytes_def)

lemma sb_inv_event:
  assumes "sb_inv p bytes ds b"
  shows "\<exists>ds'. sb_inv p (bytes @ event_byte e) ds' (sb_event e b)"
  using sb_inv_put [OF assms] sb_inv_sync [OF assms] by (cases e) auto

lemma sb_inv_events:
  "sb_inv p pre ds b \<Longrightarrow> \<exists>ds'. sb_inv p (pre @ out_bytes evs) ds' (fold sb_event evs b)"
proof (induction evs arbitrary: pre ds b)
  case (Cons e evs)
  then obtain ds' where "sb_inv p (pre @ event_byte e) ds' (sb_event e b)" using sb_inv_event by blast
  from Cons.IH [OF this] show ?case by (simp add: out_bytes_def)
qed (auto simp: out_bytes_def)

lemma sb_bufsize_events [simp]: "d_bufsize (fold sb_event evs b) = d_bufsize b"
proof (induction evs arbitrary: b)
  case (Cons e evs)
  then show ?case by (cases e) simp_all
qed simp

lemma sb_inv_idle: "d_buffer b = [] \<Longrightarrow> 0 < d_bufsize b \<Longrightarrow> sb_inv (written b) [] [] b"
  by (simp add: sb_inv_def)

text \<open>The chunks of a response with an extension chunk in the middle.\<close>

lemma response_chunks:
  assumes "d_buffer b = []" and "0 < d_bufsize b"
    and "b1 = fold sb_event out1 b" and "b2 = sb_finish (fold sb_event out2 (b1\<lparr>written := written b1 @ x\<rparr>))"
  obtains ds1 ds2 where "written b2 = written b @ concat (map chunk_text ds1) @ x @ concat (map chunk_text ds2) @ hex7 0 @ ''d''"
    and "concat ds1 @ concat ds2 = out_bytes out1 @ out_bytes out2"
    and "\<forall>d \<in> set (ds1 @ ds2). d \<noteq> [] \<and> length d \<le> d_bufsize b"
    and "d_buffer b2 = []" and "d_bufsize b2 = d_bufsize b"
proof -
  obtain ds1 where ds1: "sb_inv (written b) (out_bytes out1) ds1 b1"
    using sb_inv_events [OF sb_inv_idle [OF assms(1,2)], of out1] assms(3) by auto
  let ?b = "b1\<lparr>written := written b1 @ x\<rparr>"
  have "sb_inv (written ?b) (d_buffer b1) [] ?b" using ds1 by (simp add: sb_inv_def)
  from sb_inv_events [OF this, of out2] obtain ds where
    "sb_inv (written ?b) (d_buffer b1 @ out_bytes out2) ds (fold sb_event out2 ?b)" by blast
  from sb_inv_sync [OF this] obtain ds2 where
    ds2: "sb_inv (written ?b) (d_buffer b1 @ out_bytes out2) ds2 (sb_sync (fold sb_event out2 ?b))"
      "d_buffer (sb_sync (fold sb_event out2 ?b)) = []" by blast
  have eod: "eod_marker = hex7 0 @ ''d''" by code_simp
  have size: "d_bufsize b1 = d_bufsize b" by (simp add: assms(3))
  show thesis
    by (rule that [of ds1 ds2]) (use ds1 ds2 size in \<open>auto simp: sb_inv_def assms(4) sb_finish_def Let_def eod\<close>)
qed

lemma receive_message_mono:
  "receive_message n recv c exts ss = Some r \<Longrightarrow> n \<le> m \<Longrightarrow> receive_message m recv c exts ss = Some r"
proof (induction n arbitrary: m c exts ss)
  case (Suc n)
  then obtain k where m: "m = Suc k" "n \<le> k" by (cases m) auto
  with Suc show ?case by (auto split: sum.splits prod.splits if_splits)
qed simp

lemma chunk_text_abs: "(\<lambda>d. hex7 (length d) @ CHR ''d'' # d) = chunk_text"
  by (simp add: fun_eq_iff chunk_text_def)

context socket_source
begin

lemma receive_message_data:
  assumes "ready c (concat (map chunk_text ds) @ rest)" and "\<forall>d \<in> set ds. d \<noteq> [] \<and> length d < 16 ^ 7"
  shows "\<exists>c'. ready c' rest \<and>
    receive_message (length ds + fuel) recv c exts ss = receive_message fuel recv c' exts (ss @ concat ds)"
  using assms
proof (induction ds arbitrary: c ss)
  case Nil
  then show ?case by auto
next
  case (Cons d ds)
  from Cons.prems have "ready c (hex7 (length d) @ CHR ''d'' # d @ (concat (map chunk_text ds) @ rest))"
    by (simp add: chunk_text_def [of d])
  from receive_message_chunk [OF this, of "length ds + fuel" exts ss] Cons.prems(2) obtain c1 where
    c1: "ready c1 (concat (map chunk_text ds) @ rest)"
      "receive_message (Suc (length ds + fuel)) recv c exts ss = receive_message (length ds + fuel) recv c1 exts (ss @ d)"
    by auto
  from Cons.IH [OF c1(1), of "ss @ d"] Cons.prems(2) c1(2) show ?case by simp
qed

lemma receive_response_extended:
  assumes "ready c (concat (map chunk_text ds1) @ sendExtensions m @ concat (map chunk_text ds2) @ hex7 0 @ CHR ''d'' # rest)"
    and "\<forall>d \<in> set (ds1 @ ds2). d \<noteq> [] \<and> length d < 16 ^ 7"
    and "\<forall>p \<in> set m. extension_ok p" and "length (extension_text m) < 16 ^ 7"
  shows "\<exists>c'. ready c' rest \<and> receive_message (length ds1 + length ds2 + 2) recv c exts []
    = Some (Inr (fold (\<lambda>(k, v). map_put k v) m exts, concat ds1 @ concat ds2, c'))"
proof -
  let ?rest = "concat (map chunk_text ds2) @ hex7 0 @ CHR ''d'' # rest"
  let ?exts = "fold (\<lambda>(k, v). map_put k v) m exts"
  obtain c1 where c1: "ready c1 (sendExtensions m @ ?rest)"
      "receive_message (length ds1 + Suc (Suc (length ds2))) recv c exts []
        = receive_message (Suc (Suc (length ds2))) recv c1 exts (concat ds1)"
    using receive_message_data [of c ds1 "sendExtensions m @ ?rest" "Suc (Suc (length ds2))" exts "[]"] assms(1,2) by auto
  have tail: "\<exists>c'. ready c' rest \<and> receive_message (Suc (length ds2)) recv c2 e ss = Some (Inr (e, ss @ concat ds2, c'))"
    if "ready c2 ?rest" for c2 e ss
    using assms(2) by (intro receive_message_chunks [unfolded chunk_text_abs] that) auto
  show ?thesis
  proof (cases "m = []")
    case True
    with c1(1) have "ready c1 ?rest" by (simp add: sendExtensions_def)
    from tail [OF this, of exts "concat ds1"] obtain c' where c': "ready c' rest"
      "receive_message (Suc (length ds2)) recv c1 exts (concat ds1) = Some (Inr (exts, concat ds1 @ concat ds2, c'))" by blast
    from receive_message_mono [OF c'(2), of "Suc (Suc (length ds2))"] c'(1) c1(2) True show ?thesis by auto
  next
    case False
    from receive_message_extensions [OF c1(1) False assms(3,4), of "Suc (length ds2)" exts "concat ds1"]
    obtain c2 where "ready c2 ?rest" "receive_message (Suc (Suc (length ds2))) recv c1 exts (concat ds1)
        = receive_message (Suc (length ds2)) recv c2 ?exts (concat ds1)" by blast
    with tail [of c2 ?exts "concat ds1"] c1(2) show ?thesis by auto
  qed
qed

end

subsection \<open>Properties of the server\<close>

lemma error_extensions_ok:
  "\<forall>p \<in> set (error_extensions st). extension_ok p" "length (extension_text (error_extensions st)) < 16 ^ 7"
  "fold (\<lambda>(k, v). map_put k v) (error_extensions st) [] = error_extensions st"
proof -
  have e: "error_extensions st = (if st = 2 then [(''exit'', ''true''), (''status'', ''error'')] else [(''status'', ''error'')])"
    by (simp add: error_extensions_def Let_def)
  show "\<forall>p \<in> set (error_extensions st). extension_ok p" unfolding e by (simp add: extension_ok_def)
  show "length (extension_text (error_extensions st)) < 16 ^ 7" unfolding e by (simp add: extension_text_def)
  show "fold (\<lambda>(k, v). map_put k v) (error_extensions st) [] = error_extensions st"
    unfolding e by simp
qed

definition reply_extensions :: "nat \<Rightarrow> extensions" where
  "reply_extensions st = (if st = 0 then [] else error_extensions st)"

lemma process_command_bytes:
  assumes "execute_request env from_whom (new_interface cmd (clear_out (server_world r))) = (Inr st, s1)"
    and "finish env st (s1\<lparr>the_world := clear_out (the_world s1)\<rparr>) = (Inr st', s2)"
  shows "process_command env from_whom cmd r =
    (let r = \<lparr>fds = sb_finish (fold sb_event (w_out (the_world s2)) (let b = fold sb_event (w_out (the_world s1)) (fds r)
                in b\<lparr>written := written b @ sendExtensions (reply_extensions st)\<rparr>)),
             server_world = the_world s2\<rparr>
     in if st = 0 then Running r else after_error st r)"
  using assms by (simp add: process_command_def Let_def emit_def reply_extensions_def sendExtensions_def [of "[]"])

text \<open>The responder has nothing pending and chunks that fit a header.\<close>

definition idle_responder :: "'u responder \<Rightarrow> bool" where
  "idle_responder r \<longleftrightarrow> d_buffer (fds r) = [] \<and> 0 < d_bufsize (fds r) \<and> d_bufsize (fds r) < 16 ^ 7"

fun outcome_state :: "'r outcome \<Rightarrow> 'r option" where
  "outcome_state (Running r) = Some r"
| "outcome_state (Exited n r) = Some r"
| "outcome_state (Terminated e r) = Some r"
| "outcome_state Starved = None"

lemma after_error_state: "outcome_state (after_error st r) = Some r"
  by (simp add: after_error_def split: sum.splits bool.splits)

text \<open>
  C1: A command whose execution and finish return is answered by exactly one message: a client that then reads
  from the socket, however the bytes are cut into segments, receives precisely the bytes
  that the command's response, its error report and the clean-up wrote, in order, whatever flushes lie between
  them.  The extensions are empty on success; on failure they say \<^verbatim>\<open>status=error\<close>, with \<^verbatim>\<open>exit=true\<close> if and only if the error
  is fatal.  The bytes after the message are left for the next one, and the server is ready for the next command.  Its stream buffer is empty to begin with and so small that the
  size of a chunk fits the seven digits of a header.
\<close>

theorem client_receives_response:
  assumes "execute_request env from_whom (new_interface cmd (clear_out (server_world r))) = (Inr st, s1)"
    and "finish env st (s1\<lparr>the_world := clear_out (the_world s1)\<rparr>) = (Inr st', s2)"
    and "idle_responder r" and "outcome_state (process_command env from_whom cmd r) = Some r'"
    and "sock_live (mySock c)" and "inBuff c \<noteq> Some 0" and "written (fds r) @ sock_bytes (mySock c) = written (fds r') @ rest"
  shows "idle_responder r' \<and> (\<exists>n c'. \<forall>fuel \<ge> n.
      receive_message fuel sock_receive c [] []
        = Some (Inr (if st = 0 then [] else error_extensions st,
                     out_bytes (w_out (the_world s1)) @ out_bytes (w_out (the_world s2)), c'))
      \<and> sock_bytes (mySock c') = rest)"
proof -
  let ?b1 = "fold sb_event (w_out (the_world s1)) (fds r)"
  let ?x = "sendExtensions (reply_extensions st)"
  let ?b2 = "sb_finish (fold sb_event (w_out (the_world s2)) (?b1\<lparr>written := written ?b1 @ ?x\<rparr>))"
  have r': "fds r' = ?b2"
    using assms(4) unfolding process_command_bytes [OF assms(1,2)] Let_def
    by (auto simp: after_error_state split: if_splits)
  obtain ds1 ds2 where ds: "written ?b2 = written (fds r) @ concat (map chunk_text ds1) @ ?x
        @ concat (map chunk_text ds2) @ hex7 0 @ ''d''"
      "concat ds1 @ concat ds2 = out_bytes (w_out (the_world s1)) @ out_bytes (w_out (the_world s2))"
      "\<forall>d \<in> set (ds1 @ ds2). d \<noteq> [] \<and> length d \<le> d_bufsize (fds r)" "d_buffer ?b2 = []" "d_bufsize ?b2 = d_bufsize (fds r)"
    using response_chunks [OF _ _ refl refl, of "fds r"] assms(3) unfolding idle_responder_def by blast
  have "sock_bytes (mySock c) = concat (map chunk_text ds1) @ ?x @ concat (map chunk_text ds2) @ hex7 0 @ CHR ''d'' # rest"
    using assms(7) by (simp add: r' ds(1))
  with assms(5,6) have ready: "seg.ready c (concat (map chunk_text ds1) @ ?x @ concat (map chunk_text ds2) @ hex7 0 @ CHR ''d'' # rest)"
    by (simp add: seg.ready_def)
  have small: "\<forall>d \<in> set (ds1 @ ds2). d \<noteq> [] \<and> length d < 16 ^ 7"
    using ds(3) assms(3) unfolding idle_responder_def by fastforce
  have ext: "\<forall>p \<in> set (reply_extensions st). extension_ok p" "length (extension_text (reply_extensions st)) < 16 ^ 7"
    "fold (\<lambda>(k, v). map_put k v) (reply_extensions st) [] = reply_extensions st"
    using error_extensions_ok [of st] by (simp_all add: reply_extensions_def)
  obtain c' where c': "seg.ready c' rest" "receive_message (length ds1 + length ds2 + 2) sock_receive c [] []
      = Some (Inr (reply_extensions st, concat ds1 @ concat ds2, c'))"
    using seg.receive_response_extended [OF ready small ext(1,2), of "[]"] ext(3) by auto
  have "receive_message fuel sock_receive c [] [] = Some (Inr (reply_extensions st, concat ds1 @ concat ds2, c'))"
    if "length ds1 + length ds2 + 2 \<le> fuel" for fuel using receive_message_mono [OF c'(2) that] .
  moreover have "sock_bytes (mySock c') = rest" using c'(1) by (simp add: seg.ready_def)
  moreover have "idle_responder r'" using assms(3) ds(4,5) by (simp add: idle_responder_def r')
  ultimately show ?thesis unfolding ds(2) reply_extensions_def by blast
qed

theorem client_receives_response_witness:
  "\<exists>n c'. receive_message (n + 1) sock_receive
      \<lparr>mySock = [Segment ''0000002dok000'', Interrupted, Segment ''0000dnext''], recvBufferSize = 7, inBuff = None\<rparr> [] []
    = Some (Inr ([], ''ok'', c')) \<and> sock_bytes (mySock c') = ''next''"
proof -
  let ?r = "\<lparr>fds = sb_open 9, server_world = sample_world\<rparr>"
  let ?c = "\<lparr>mySock = [Segment ''0000002dok000'', Interrupted, Segment ''0000dnext''], recvBufferSize = 7, inBuff = None\<rparr>"
  let ?e = "execute_request sample_env ''me'' (new_interface ''one'' (clear_out (server_world ?r)))"
  let ?f = "finish sample_env 0 ((snd ?e)\<lparr>the_world := clear_out (the_world (snd ?e))\<rparr>)"
  let ?p = "process_command sample_env ''me'' ''one'' ?r"
  have e: "fst ?e = Inr 0" "w_out (the_world (snd ?e)) = [Put (CHR ''o''), Put (CHR ''k''), Flush]" by code_simp+
  have f: "fst ?f = Inr 0" "w_out (the_world (snd ?f)) = []" by code_simp+
  have p: "(case outcome_state ?p of Some r' \<Rightarrow> written (fds r') = ''0000002dok0000000d'' | None \<Rightarrow> False)" by code_simp
  then obtain r' where r': "outcome_state ?p = Some r'" "written (fds r') = ''0000002dok0000000d''" by (auto split: option.splits)
  have "?e = (Inr 0, snd ?e)" "?f = (Inr 0, snd ?f)" using e(1) f(1) by (simp_all add: prod_eq_iff)
  moreover have "idle_responder ?r" by (simp add: idle_responder_def sb_open_def)
  ultimately have "\<exists>n c'. \<forall>fuel \<ge> n. receive_message fuel sock_receive ?c [] []
      = Some (Inr (if (0::nat) = 0 then [] else error_extensions 0,
          out_bytes (w_out (the_world (snd ?e))) @ out_bytes (w_out (the_world (snd ?f))), c')) \<and> sock_bytes (mySock c') = ''next''"
    using client_receives_response [of sample_env "''me''" "''one''" ?r 0 "snd ?e" 0 "snd ?f" r' ?c "''next''"] r'
    by (simp add: sock_live_def sb_open_def)
  then obtain n c' where "\<forall>fuel \<ge> n. receive_message fuel sock_receive ?c [] [] = Some (Inr ([], ''ok'', c'))
      \<and> sock_bytes (mySock c') = ''next''" unfolding e(2) f(2) by (auto simp: out_bytes_def)
  then show ?thesis by (metis le_add1)
qed

text \<open>A session: the commands one after the other.\<close>

fun process_all ::
  "('k, 'h, 't, 'u) request_env \<Rightarrow> string \<Rightarrow> string list \<Rightarrow> 'u responder \<Rightarrow> 'u responder outcome" where
  "process_all env from_whom [] r = Running r"
| "process_all env from_whom (q # qs) r =
     (case process_command env from_whom q r of Running r \<Rightarrow> process_all env from_whom qs r | out \<Rightarrow> out)"

definition exits :: "extensions \<Rightarrow> bool" where
  "exits exts \<longleftrightarrow> map_find exts ''status'' = Some PPT_EXIT_NOW"

lemma serve_request_command:
  assumes "seg.ready c (send q [] @ rest)" and "length q < 16 ^ 7" and "3 \<le> fuel" and "\<not> exits exts"
  shows "\<exists>c' exts'. seg.ready c' rest \<and> \<not> exits exts' \<and>
    serve_request fuel env from_whom (c, exts, r) = map_outcome (\<lambda>r. (c', exts', r)) (process_command env from_whom q r)"
proof -
  obtain c' where c': "seg.ready c' rest" "receive_message fuel sock_receive c exts [] = Some (Inr (exts, q, c'))"
    using seg.receive_message_send [OF assms(1) _ _ assms(2,3), of exts] by auto
  let ?exts = "case map_find exts ''status'' of None \<Rightarrow> map_put ''status'' [] exts | Some _ \<Rightarrow> exts"
  have "\<not> exits ?exts" using assms(4) by (auto simp: exits_def PPT_EXIT_NOW_def split: option.splits)
  moreover from this c'(2) have "serve_request fuel env from_whom (c, exts, r)
      = map_outcome (\<lambda>r. (c', ?exts, r)) (process_command env from_whom q r)"
    by (simp add: serve_request_def Let_def exits_def)
  ultimately show ?thesis using c'(1) by blast
qed

lemma serve_request_exit:
  assumes "seg.ready c (sendExit @ rest)" and "3 \<le> fuel"
  shows "\<exists>c' exts'. serve_request fuel env from_whom (c, exts, r) = Exited CHILD_SUBPROCESS_READY (c', exts', r)"
proof -
  let ?m = "map_put ''status'' PPT_EXIT_NOW []"
  have "seg.ready c (send [] ?m @ (sendChunk [] [] @ rest))" using assms(1) by (simp add: sendExit_def)
  moreover have "\<forall>p \<in> set ?m. extension_ok p" "length (extension_text ?m) < 16 ^ 7"
    by (simp_all add: extension_ok_def PPT_EXIT_NOW_def extension_text_def)
  ultimately obtain c' where "receive_message fuel sock_receive c exts []
      = Some (Inr (map_put ''status'' PPT_EXIT_NOW exts, [], c'))"
    using seg.receive_message_send [of c "[]" ?m "sendChunk [] [] @ rest" fuel exts] assms(2) by auto
  then show ?thesis by (simp add: serve_request_def Let_def)
qed

lemma serve_ready:
  assumes "seg.ready c (concat (map (\<lambda>q. send q []) qs) @ sendExit @ rest)" and "\<forall>q \<in> set qs. length q < 16 ^ 7"
    and "3 \<le> fuel" and "\<not> exits exts"
  shows "map_outcome (\<lambda>(c, exts, r). r) (serve (Suc (length qs)) fuel env from_whom (c, exts, r)) =
    (case process_all env from_whom qs r of Running r \<Rightarrow> Exited CHILD_SUBPROCESS_READY r | out \<Rightarrow> out)"
  using assms(1,2,4)
proof (induction qs arbitrary: c exts r)
  case Nil
  then show ?case using serve_request_exit [of c rest fuel env from_whom exts r] assms(3) by auto
next
  case (Cons q qs)
  from Cons.prems(1) have "seg.ready c (send q [] @ (concat (map (\<lambda>q. send q []) qs) @ sendExit @ rest))" by simp
  from serve_request_command [OF this _ assms(3) Cons.prems(3), of env from_whom r] Cons.prems(2) obtain c' exts' where
    c': "seg.ready c' (concat (map (\<lambda>q. send q []) qs) @ sendExit @ rest)" "\<not> exits exts'"
      "serve_request fuel env from_whom (c, exts, r) = map_outcome (\<lambda>r. (c', exts', r)) (process_command env from_whom q r)"
    by auto
  show ?case
  proof (cases "process_command env from_whom q r")
    case (Running r')
    with Cons.IH [OF c'(1) _ c'(2), of r'] Cons.prems(2) c'(3) show ?thesis by simp
  qed (use c'(3) in simp_all)
qed

text \<open>
  C2: A client that sends any number of commands and then says goodbye is served in order: whatever way the network
  cuts the byte stream, the listener processes exactly these commands one after the other, each on the
  state the one before left, and then exits with the code for a ready child; a fatal error or an uncaught
  exception ends the session at that command with its own outcome, and no command is processed twice or skipped.  Each command has less than \<open>16 ^ 7\<close> bytes, what a chunk can hold.
\<close>

theorem serve_session:
  assumes "sock_live evs" and "sock_bytes evs = concat (map (\<lambda>q. send q []) qs) @ sendExit"
    and "\<forall>q \<in> set qs. length q < 16 ^ 7" and "3 \<le> fuel"
  shows "map_outcome (\<lambda>(c, exts, r). r)
      (serve (Suc (length qs)) fuel env from_whom (\<lparr>mySock = evs, recvBufferSize = n, inBuff = None\<rparr>, [], r)) =
    (case process_all env from_whom qs r of Running r \<Rightarrow> Exited CHILD_SUBPROCESS_READY r | out \<Rightarrow> out)"
proof (rule serve_ready [where rest = "[]"])
  show "seg.ready \<lparr>mySock = evs, recvBufferSize = n, inBuff = None\<rparr> (concat (map (\<lambda>q. send q []) qs) @ sendExit @ [])"
    using assms(1,2) by (simp add: seg.ready_def)
qed (use assms in \<open>simp_all add: exits_def\<close>)

theorem serve_session_witness:
  "(case map_outcome (\<lambda>(c, exts, r). r) (serve 3 3 sample_env ''me''
        (\<lparr>mySock = [Segment (send ''one'' []), Segment (send ''denied'' [] @ sendExit)], recvBufferSize = 7, inBuff = None\<rparr>, [],
         \<lparr>fds = sb_open 20, server_world = sample_world\<rparr>)) of
      Exited n r \<Rightarrow> n = CHILD_SUBPROCESS_READY \<and> take 39 (written (fds r)) = ''0000002dok0000000d000000dxstatus=error;''
    | _ \<Rightarrow> False)"
proof -
  let ?evs = "[Segment (send ''one'' []), Segment (send ''denied'' [] @ sendExit)]"
  let ?r = "\<lparr>fds = sb_open 20, server_world = sample_world\<rparr>"
  let ?p = "process_all sample_env ''me'' [''one'', ''denied''] ?r"
  have p: "(case ?p of
      Running r \<Rightarrow> take 39 (written (fds r)) = ''0000002dok0000000d000000dxstatus=error;'' | _ \<Rightarrow> False)" by code_simp
  then obtain r where r: "?p = Running r" "take 39 (written (fds r)) = ''0000002dok0000000d000000dxstatus=error;''"
    by (cases ?p) simp_all
  have three: "Suc (length [''one'', ''denied'']) = 3" by simp
  have "map_outcome (\<lambda>(c, exts, r). r) (serve (Suc (length [''one'', ''denied''])) 3 sample_env ''me''
        (\<lparr>mySock = ?evs, recvBufferSize = 7, inBuff = None\<rparr>, [], ?r))
      = (case ?p of Running r \<Rightarrow> Exited CHILD_SUBPROCESS_READY r | out \<Rightarrow> out)"
    by (rule serve_session) (simp_all add: sock_live_def)
  then show ?thesis unfolding three r(1) outcome.case using r(2) by (simp only: outcome.case)
qed

end
