(* ===== verification/Bes_File_Cache.thy ===== *)
theory Bes_File_Cache
  imports "HOL-Library.Multiset" Bes_Act Bes_Path Std_Numbers
begin

text \<open>
  \<^verbatim>\<open>dispatch/BESFileLockingCache.cc\<close>, the cache of files that all listener processes share: a directory, a control
  file in it that holds the size of the cache and whose lock serialises changes, and a lock on each file in use.

  The state is that of one process: its cache object, its open descriptors, the lock it has on the
  control file, and the directory as this process finds it.  \<open>c_busy\<close> marks files that another process has locked.
  A blocking lock is acquired once the call returns, so only its errors are visible.  \<open>info_writes\<close> records, for every
  write of the control file, the lock that the process had on it at that moment.  The multiplication of the size by the
  floating point number 0.8 is a parameter, as are the errors of system calls.

  Locks belong to a process and an inode: a process that closes one descriptor of a file loses its lock on that file, whatever other
  descriptors it has.  So files and descriptors have inodes; \<open>info_ino\<close> is the inode of the control file that the process has
  open, \<open>cache_lock\<close> the lock on it, and \<open>info_size\<close> the number in it, also after its name has been unlinked.
\<close>

datatype lock_state = Unlocked | Read_locked | Write_locked

record cached_file =
  c_size :: nat
  c_atime :: int
  c_busy :: bool
  c_ino :: nat

record cache_entry =
  name :: string
  size :: nat
  time :: int

record file_cache =
  d_cache_enabled :: bool
  d_cache_dir :: string
  d_prefix :: string
  d_max_cache_size_in_bytes :: nat
  d_target_size :: nat
  d_cache_info :: string
  d_locks :: "(string \<times> int) list"
  cache_lock :: lock_state
  info_size :: nat
  info_writes :: "lock_state list"
  files :: "(string \<times> cached_file) list"
  open_fds :: "(int \<times> nat) list"
  next_fd :: int
  info_ino :: nat
  next_ino :: nat

record sys_calls =
  mkdir_error :: "string \<Rightarrow> string option"
  open_error :: "string \<Rightarrow> string option"
  lock_error :: "string \<Rightarrow> string option"
  unlink_error :: "string \<Rightarrow> string option"
  shared_lock_error :: "int \<Rightarrow> string option"
  unlock_error :: "int \<Rightarrow> string option"
  close_fails :: "int \<Rightarrow> bool"
  unlock_cache_error :: "string option"
  opendir_fails :: bool
  lseek_fails :: bool
  read_fails :: bool
  write_fails :: bool
  pid_text :: string
  times_0_8 :: "nat \<Rightarrow> nat"
  clock_time :: int

type_synonym 'a cache_act = "(bes_error, file_cache, 'a) eact"

definition fail_if :: "string \<Rightarrow> string option \<Rightarrow> unit cache_act" where
  "fail_if msg err = (case err of None \<Rightarrow> act_return () | Some e \<Rightarrow> act_throw (BESInternalError (msg @ e)))"

definition fail_when :: "string \<Rightarrow> bool \<Rightarrow> unit cache_act" where
  "fail_when msg b = (if b then act_throw (BESInternalError msg) else act_return ())"

definition prolog :: "string \<Rightarrow> string" where
  "prolog func = ''BESFileLockingCache::'' @ func @ ''() - ''"

definition locking_error :: "sys_calls \<Rightarrow> string \<Rightarrow> string \<Rightarrow> string \<Rightarrow> bes_error" where
  "locking_error sys pre f e =
     BESInternalError (pre @ ''cache process: '' @ pid_text sys @ '' triggered a locking error for '' @ [CHR 0x27] @ f @ [CHR 0x27]
       @ '': '' @ e)"

text \<open>\<^verbatim>\<open>try { m } catch (...) { f; throw; }\<close>\<close>

definition catch_rethrow :: "'a cache_act \<Rightarrow> unit cache_act \<Rightarrow> 'a cache_act" where
  "catch_rethrow m f s =
     (case m s of
        (Inr a, s) \<Rightarrow> (Inr a, s)
      | (Inl e, s) \<Rightarrow> act_then f (act_throw e) s)"

subsection \<open>Descriptors\<close>

definition m_record_descriptor :: "string \<Rightarrow> int \<Rightarrow> file_cache \<Rightarrow> file_cache" where
  "m_record_descriptor file fd s = s\<lparr>d_locks := d_locks s @ [(file, fd)]\<rparr>"

fun remove_first :: "string \<Rightarrow> (string \<times> int) list \<Rightarrow> (string \<times> int) list" where
  "remove_first file [] = []"
| "remove_first file ((f, fd) # ls) = (if f = file then ls else (f, fd) # remove_first file ls)"

definition m_remove_descriptor :: "string \<Rightarrow> int cache_act" where
  "m_remove_descriptor file s =
     (case map_of (d_locks s) file of
        None \<Rightarrow> (Inr (- 1), s)
      | Some fd \<Rightarrow> (Inr fd, s\<lparr>d_locks := remove_first file (d_locks s)\<rparr>))"

definition new_descriptor :: "nat \<Rightarrow> int cache_act" where
  "new_descriptor ino s = (Inr (next_fd s), s\<lparr>open_fds := (next_fd s, ino) # open_fds s, next_fd := next_fd s + 1\<rparr>)"

text \<open>A lock that the process gets, or loses, on a file; only the one on the control file is part of the state.\<close>

definition set_lock :: "lock_state \<Rightarrow> nat \<Rightarrow> file_cache \<Rightarrow> file_cache" where
  "set_lock l ino s = (if ino = info_ino s then s\<lparr>cache_lock := l\<rparr> else s)"

definition close_fd :: "int \<Rightarrow> file_cache \<Rightarrow> file_cache" where
  "close_fd fd s =
     (case map_of (open_fds s) fd of
        None \<Rightarrow> s
      | Some ino \<Rightarrow> set_lock Unlocked ino (s\<lparr>open_fds := filter (\<lambda>d. fst d \<noteq> fd) (open_fds s)\<rparr>))"

text \<open>\<^verbatim>\<open>unlock\<close>: \<^verbatim>\<open>fcntl\<close> fails on a descriptor that is not open.  The descriptor is gone also when \<^verbatim>\<open>close\<close> fails.\<close>

definition unlock_file :: "sys_calls \<Rightarrow> int \<Rightarrow> unit cache_act" where
  "unlock_file sys fd s =
     (let msg = prolog ''unlock'' @ ''An error occurred trying to unlock the file: ''
      in if fd \<notin> fst ` set (open_fds s) then (Inl (BESInternalError (msg @ ''Bad file descriptor'')), s)
         else
           (case unlock_error sys fd of
              Some e \<Rightarrow> (Inl (BESInternalError (msg @ e)), s)
            | None \<Rightarrow>
                if close_fails sys fd
                then (Inl (BESInternalError (prolog ''unlock'' @ ''Could not close the (just) unlocked file.'')), close_fd fd s)
                else (Inr (), close_fd fd s)))"

subsection \<open>The control file\<close>

definition lock_cache_write :: "sys_calls \<Rightarrow> unit cache_act" where
  "lock_cache_write sys =
     act_then (act_bind (act_gets d_cache_info)
         (\<lambda>f. fail_if ''An error occurred trying to lock the cache-control file'' (lock_error sys f)))
       (act_modify (\<lambda>s. s\<lparr>cache_lock := Write_locked\<rparr>))"

definition lock_cache_read :: "sys_calls \<Rightarrow> unit cache_act" where
  "lock_cache_read sys =
     act_then (act_bind (act_gets d_cache_info)
         (\<lambda>f. fail_if (prolog ''lock_cache_read'' @ ''An error occurred trying to lock the cache-control file'')
                (lock_error sys f)))
       (act_modify (\<lambda>s. s\<lparr>cache_lock := Read_locked\<rparr>))"

definition unlock_cache :: "sys_calls \<Rightarrow> unit cache_act" where
  "unlock_cache sys =
     act_then (fail_if (prolog ''unlock_cache'' @ ''An error occurred trying to unlock the cache-control file'') (unlock_cache_error sys))
       (act_modify (\<lambda>s. s\<lparr>cache_lock := Unlocked\<rparr>))"

text \<open>Reading and writing the size; \<open>func\<close> is the name of the calling function.\<close>

definition rewind :: "sys_calls \<Rightarrow> string \<Rightarrow> unit cache_act" where
  "rewind sys func = fail_when (prolog func @ ''Could not rewind to front of cache info file.'') (lseek_fails sys)"

definition read_info :: "sys_calls \<Rightarrow> string \<Rightarrow> nat cache_act" where
  "read_info sys func =
     act_then (rewind sys func)
     (act_then (fail_when (prolog func @ ''Could not get read size info from the cache info file!'') (read_fails sys))
       (act_gets info_size))"

definition write_size :: "sys_calls \<Rightarrow> string \<Rightarrow> nat \<Rightarrow> unit cache_act" where
  "write_size sys msg n =
     act_then (fail_when msg (write_fails sys))
       (act_modify (\<lambda>s. s\<lparr>info_size := n, info_writes := info_writes s @ [cache_lock s]\<rparr>))"

subsection \<open>Setting up\<close>

definition BYTES_PER_MEG :: nat where
  "BYTES_PER_MEG = 1048576"

definition MAX_CACHE_SIZE_IN_MEGABYTES :: nat where
  "MAX_CACHE_SIZE_IN_MEGABYTES = 2 ^ 44"

definition m_check_ctor_params :: "sys_calls \<Rightarrow> bool cache_act" where
  "m_check_ctor_params sys s =
     (if d_cache_dir s = [] then (Inr False, s\<lparr>d_cache_enabled := False\<rparr>)
      else
        (case mkdir_error sys (d_cache_dir s) of
           Some e \<Rightarrow>
             (Inl (BESSyntaxUserError (prolog ''m_check_ctor_params'' @ ''The cache directory ''
                @ d_cache_dir s @ '' could not be created: '' @ e)), s)
         | None \<Rightarrow>
             if d_prefix s = [] then
               (Inl (BESSyntaxUserError (prolog ''m_check_ctor_params''
                  @ ''The cache file prefix was not specified, must not be empty'')), s)
             else (Inr True, s\<lparr>d_cache_enabled := True\<rparr>)))"

text \<open>The descriptor of a new, locked file, or \<^const>\<open>None\<close> when the file exists.\<close>

definition createLockedFile :: "sys_calls \<Rightarrow> string \<Rightarrow> int option cache_act" where
  "createLockedFile sys file_name =
     act_bind (act_gets files) (\<lambda>fs.
     if file_name \<in> fst ` set fs then act_return None
     else act_then (fail_if (file_name @ '': '') (open_error sys file_name))
       (act_bind (act_gets next_ino) (\<lambda>ino.
        act_then (act_modify (\<lambda>s. s\<lparr>files := files s @ [(file_name, \<lparr>c_size = 0, c_atime = clock_time sys, c_busy = False, c_ino = ino\<rparr>)],
           next_ino := ino + 1\<rparr>))
       (act_bind (new_descriptor ino) (\<lambda>fd.
         case lock_error sys file_name of
           Some e \<Rightarrow>
             act_then (act_modify (close_fd fd))
               (act_throw (locking_error sys [] file_name e))
         | None \<Rightarrow> act_then (act_modify (set_lock Write_locked ino)) (act_return (Some fd)))))))"

definition init_sizes :: "sys_calls \<Rightarrow> file_cache \<Rightarrow> file_cache" where
  "init_sizes sys s =
     (let m = min (d_max_cache_size_in_bytes s) MAX_CACHE_SIZE_IN_MEGABYTES * BYTES_PER_MEG mod 2 ^ 64
      in s\<lparr>d_max_cache_size_in_bytes := m, d_target_size := times_0_8 sys m\<rparr>)"

text \<open>The control file is the one that has just been opened.\<close>

definition use_info :: "nat \<Rightarrow> lock_state \<Rightarrow> file_cache \<Rightarrow> file_cache" where
  "use_info ino l s = s\<lparr>info_ino := ino, cache_lock := l\<rparr>"

definition m_initialize_cache_info :: "sys_calls \<Rightarrow> bool cache_act" where
  "m_initialize_cache_info sys =
     act_then (act_modify (init_sizes sys))
     (act_bind (m_check_ctor_params sys) (\<lambda>status.
      if \<not> status then act_return False
      else
        act_then (act_modify (\<lambda>s. s\<lparr>d_cache_info := assemblePath (d_cache_dir s) (d_prefix s @ ''cache_control'') True False\<rparr>))
        (act_bind (act_gets d_cache_info) (\<lambda>info.
         act_bind (createLockedFile sys info) (\<lambda>r.
         case r of
           Some fd \<Rightarrow>
             act_then (act_modify (\<lambda>s. case map_of (open_fds s) fd of Some ino \<Rightarrow> use_info ino Write_locked s | None \<Rightarrow> s))
               (act_then (write_size sys (prolog ''m_initialize_cache_info'' @ ''Could not write size info to the cache info file `''
                   @ info @ ''`'') 0) (act_then (unlock_cache sys) (act_return True)))
         | None \<Rightarrow>
             act_then (fail_if (prolog ''m_initialize_cache_info'' @ ''Failed to open cache info file: '' @ info @ '' errno: '') (open_error sys info))
               (act_bind (act_gets (\<lambda>s. map_of (files s) info)) (\<lambda>f.
                case f of
                  None \<Rightarrow> act_throw (BESInternalError (prolog ''m_initialize_cache_info'' @ ''Failed to open cache info file: '' @ info
                     @ '' errno: No such file or directory''))
                | Some f \<Rightarrow>
                    act_bind (new_descriptor (c_ino f)) (\<lambda>fd.
                    act_then (act_modify (\<lambda>s. use_info (c_ino f) (if c_ino f = info_ino s then cache_lock s else Unlocked) s))
                      (act_return True)))))))))"

definition initialize ::
  "sys_calls \<Rightarrow> string \<Rightarrow> string \<Rightarrow> nat \<Rightarrow> unit cache_act" where
  "initialize sys cache_dir prefix_arg size_arg =
     act_then (act_modify (\<lambda>s. s\<lparr>d_cache_dir := cache_dir, d_prefix := prefix_arg, d_max_cache_size_in_bytes := size_arg\<rparr>))
       (act_bind (m_initialize_cache_info sys) (\<lambda>_. act_return ()))"

subsection \<open>File names\<close>

definition chars_excluded_from_filenames :: string where
  "chars_excluded_from_filenames = ''<>=,/()'' @ [CHR 0x5C, CHR 0x22, CHR 0x27] @ '':? []()$''"

function mangle_loop :: "string \<Rightarrow> string" where
  "mangle_loop target =
     (case find_first_of target chars_excluded_from_filenames 0 of
        None \<Rightarrow> target
      | Some pos \<Rightarrow> mangle_loop (target[pos := CHR ''#'']))"
  by pat_completeness auto
termination
proof (relation "measure (\<lambda>t. length (filter (\<lambda>c. c \<in> set chars_excluded_from_filenames) t))", goal_cases)
  case 1
  show ?case by simp
next
  case (2 target pos)
  let ?P = "\<lambda>c. c \<in> set chars_excluded_from_filenames"
  have pos: "pos < length target" "?P (target ! pos)"
    using find_first_of_SomeD [OF 2] by auto
  have "\<not> ?P (CHR ''#'')" by code_simp
  moreover have f: "filter ?P target = filter ?P (take pos target @ target ! pos # drop (Suc pos) target)"
    using id_take_nth_drop [OF pos(1)] by simp
  ultimately have "length (filter ?P (target[pos := CHR ''#''])) < length (filter ?P target)"
    unfolding f using pos by (simp add: upd_conv_take_nth_drop)
  then show ?case by simp
qed

declare mangle_loop.simps [simp del]

definition get_cache_file_name :: "string \<Rightarrow> bool \<Rightarrow> file_cache \<Rightarrow> string result" where
  "get_cache_file_name src mangle s =
     (let target = d_prefix s @ src;
          target = (if mangle then mangle_loop target else target)
      in if length target > 254 then
           Inl (BESInternalError
             (prolog ''get_cache_file_name'' @ ''Cache filename is longer than 254 characters (name length: ''
              @ nat_text (length target) @ '', name: '' @ target))
         else Inr (assemblePath (d_cache_dir s) target True False))"

subsection \<open>Locking files\<close>

definition getSharedLock :: "sys_calls \<Rightarrow> string \<Rightarrow> int option cache_act" where
  "getSharedLock sys file_name =
     act_bind (act_gets files) (\<lambda>fs.
     case map_of fs file_name of
       None \<Rightarrow> act_return None
     | Some f \<Rightarrow>
         act_then (fail_if [] (open_error sys file_name))
         (act_bind (new_descriptor (c_ino f)) (\<lambda>fd.
            case lock_error sys file_name of
              Some e \<Rightarrow>
                act_then (act_modify (close_fd fd))
                  (act_throw (locking_error sys (prolog ''getSharedLock'') file_name e))
            | None \<Rightarrow> act_then (act_modify (set_lock Read_locked (c_ino f))) (act_return (Some fd)))))"

definition get_read_lock :: "sys_calls \<Rightarrow> string \<Rightarrow> int option cache_act" where
  "get_read_lock sys target =
     act_then (lock_cache_read sys)
     (act_bind (getSharedLock sys target) (\<lambda>r.
      act_then (case r of Some fd \<Rightarrow> act_modify (m_record_descriptor target fd) | None \<Rightarrow> act_return ())
        (act_then (unlock_cache sys) (act_return r))))"

definition create_and_lock :: "sys_calls \<Rightarrow> string \<Rightarrow> int option cache_act" where
  "create_and_lock sys target =
     act_then (lock_cache_write sys)
     (act_bind (createLockedFile sys target) (\<lambda>r.
      act_then (case r of Some fd \<Rightarrow> act_modify (m_record_descriptor target fd) | None \<Rightarrow> act_return ())
        (act_then (unlock_cache sys) (act_return r))))"

definition exclusive_to_shared_lock :: "sys_calls \<Rightarrow> int \<Rightarrow> unit cache_act" where
  "exclusive_to_shared_lock sys fd =
     act_bind (act_gets open_fds) (\<lambda>fds.
       case map_of fds fd of
         None \<Rightarrow> act_throw (BESInternalError ''Bad file descriptor'')
       | Some ino \<Rightarrow> act_then (fail_if [] (shared_lock_error sys fd)) (act_modify (set_lock Read_locked ino)))"

fun unlock_loop :: "sys_calls \<Rightarrow> nat \<Rightarrow> string \<Rightarrow> unit cache_act" where
  "unlock_loop sys 0 file_name = act_return ()"
| "unlock_loop sys (Suc n) file_name =
     act_bind (m_remove_descriptor file_name) (\<lambda>fd.
       if fd = - 1 then act_return () else act_then (unlock_file sys fd) (unlock_loop sys n file_name))"

text \<open>Every iteration removes an entry, so their number bounds the loop.\<close>

definition unlock_and_close :: "sys_calls \<Rightarrow> string \<Rightarrow> unit cache_act" where
  "unlock_and_close sys file_name s = unlock_loop sys (Suc (length (d_locks s))) file_name s"

subsection \<open>The size of the cache\<close>

definition update_cache_info :: "sys_calls \<Rightarrow> string \<Rightarrow> nat cache_act" where
  "update_cache_info sys target =
     catch_rethrow
       (act_then (lock_cache_write sys)
       (act_bind (read_info sys ''update_cache_info'') (\<lambda>current_size.
        act_bind (act_gets files) (\<lambda>fs.
        case map_of fs target of
          None \<Rightarrow> act_throw (BESInternalError (prolog ''update_cache_info'' @ ''Could not read the size of the new file: ''
              @ target @ '' : No such file or directory''))
        | Some f \<Rightarrow>
            (let current_size = (current_size + c_size f) mod 2 ^ 64
             in act_then (rewind sys ''update_cache_info'')
                (act_then (write_size sys (prolog ''update_cache_info'' @ ''Could not write size info from the cache info file!'')
                   current_size)
                  (act_then (unlock_cache sys) (act_return current_size))))))))
       (unlock_cache sys)"

definition cache_too_big :: "nat \<Rightarrow> file_cache \<Rightarrow> bool" where
  "cache_too_big current_size s \<longleftrightarrow> current_size > d_max_cache_size_in_bytes s"

definition is_unlimited :: "file_cache \<Rightarrow> bool" where
  "is_unlimited s \<longleftrightarrow> d_max_cache_size_in_bytes s = 0"

definition get_cache_size :: "sys_calls \<Rightarrow> nat cache_act" where
  "get_cache_size sys =
     catch_rethrow
       (act_then (lock_cache_read sys)
         (act_bind (read_info sys ''get_cache_size'') (\<lambda>n. act_then (unlock_cache sys) (act_return n))))
       (unlock_cache sys)"

subsection \<open>Purging\<close>

text \<open>The names \<^verbatim>\<open>readdir\<close> returns for the directory.\<close>

definition dir_entries :: "string \<Rightarrow> (string \<times> cached_file) list \<Rightarrow> string list" where
  "dir_entries dir fs =
     (let p = dir @ ''/''
      in map (\<lambda>f. drop (length p) (fst f))
           (filter (\<lambda>f. prefix p (fst f) \<and> CHR ''/'' \<notin> set (drop (length p) (fst f))) fs))"

definition cache_dir_info :: "file_cache \<Rightarrow> nat \<times> cache_entry list" where
  "cache_dir_info s =
     (let names = map (\<lambda>e. d_cache_dir s @ ''/'' @ e)
                    (filter (\<lambda>e. prefix (d_prefix s) e \<and> e \<noteq> d_cache_info s) (dir_entries (d_cache_dir s) (files s)));
          contents = concat (map (\<lambda>f. case map_of (files s) f of
                       None \<Rightarrow> []
                     | Some c \<Rightarrow> [\<lparr>name = f, size = c_size c, time = c_atime c\<rparr>]) names)
      in (sum_list (map size contents) mod 2 ^ 64, sort_key time contents))"

definition m_collect_cache_dir_info :: "sys_calls \<Rightarrow> (nat \<times> cache_entry list) cache_act" where
  "m_collect_cache_dir_info sys =
     act_bind (act_gets d_cache_dir) (\<lambda>dir.
     act_then (fail_when (prolog ''m_collect_cache_dir_info'' @ ''Unable to open cache directory '' @ dir) (opendir_fails sys))
       (act_gets cache_dir_info))"

definition get_exclusive_lock_nb :: "sys_calls \<Rightarrow> string \<Rightarrow> int option cache_act" where
  "get_exclusive_lock_nb sys file_name =
     act_bind (act_gets files) (\<lambda>fs.
     case map_of fs file_name of
       None \<Rightarrow> act_return None
     | Some f \<Rightarrow>
         act_then (fail_if (prolog ''get_exclusive_lock_nb'' @ ''errno: '') (open_error sys file_name))
         (act_bind (new_descriptor (c_ino f)) (\<lambda>fd.
            if c_busy f then act_then (act_modify (close_fd fd)) (act_return None)
            else
              (case lock_error sys file_name of
                 Some e \<Rightarrow>
                   act_then (act_modify (close_fd fd))
                     (act_throw (locking_error sys (prolog ''get_exclusive_lock_nb'') file_name e))
               | None \<Rightarrow>
                   act_then (act_modify (set_lock Write_locked (c_ino f)))
                     (act_then (act_modify (m_record_descriptor file_name fd)) (act_return (Some fd)))))))"

definition unlink :: "string \<Rightarrow> file_cache \<Rightarrow> file_cache" where
  "unlink f s = s\<lparr>files := filter (\<lambda>p. fst p \<noteq> f) (files s)\<rparr>"

fun purge_entries :: "sys_calls \<Rightarrow> string \<Rightarrow> cache_entry list \<Rightarrow> nat \<Rightarrow> nat cache_act" where
  "purge_entries sys new_file [] computed_size = act_return computed_size"
| "purge_entries sys new_file (i # rest) computed_size =
     act_bind (act_gets d_target_size) (\<lambda>target.
     if computed_size \<le> target then act_return computed_size
     else
       act_bind (if name i \<noteq> new_file then get_exclusive_lock_nb sys (name i) else act_return None) (\<lambda>r.
       case r of
         None \<Rightarrow> purge_entries sys new_file rest computed_size
       | Some cfile_fd \<Rightarrow>
           act_then (fail_if (prolog ''update_and_purge'' @ ''Unable to purge the file '' @ name i @ '' from the cache: '') (unlink_error sys (name i)))
           (act_then (act_modify (unlink (name i)))
           (act_then (unlock_file sys cfile_fd)
             (purge_entries sys new_file rest ((computed_size + (2 ^ 64 - size i mod 2 ^ 64)) mod 2 ^ 64))))))"

definition update_and_purge :: "sys_calls \<Rightarrow> string \<Rightarrow> unit cache_act" where
  "update_and_purge sys new_file s =
     (if is_unlimited s then (Inr (), s)
      else
        catch_rethrow
          (act_then (lock_cache_write sys)
          (act_bind (m_collect_cache_dir_info sys) (\<lambda>(computed_size, contents).
           act_bind (act_gets (cache_too_big computed_size)) (\<lambda>too_big.
           act_bind (if too_big then purge_entries sys new_file contents computed_size else act_return computed_size)
             (\<lambda>computed_size.
                act_then (rewind sys ''update_and_purge'')
                (act_then (write_size sys (prolog ''update_and_purge'' @ ''Could not write size info to the cache info file!'')
                   computed_size) (unlock_cache sys)))))))
          (unlock_cache sys) s)"

definition get_exclusive_lock :: "sys_calls \<Rightarrow> string \<Rightarrow> int option cache_act" where
  "get_exclusive_lock sys file_name =
     act_bind (act_gets files) (\<lambda>fs.
     case map_of fs file_name of
       None \<Rightarrow> act_return None
     | Some f \<Rightarrow>
         act_then (fail_if (prolog ''get_exclusive_lock'' @ ''FAILED to open file: '' @ file_name @ '' errno: '')
             (open_error sys file_name))
         (act_bind (new_descriptor (c_ino f)) (\<lambda>fd.
            case lock_error sys file_name of
              Some e \<Rightarrow>
                act_then (act_modify (close_fd fd))
                  (act_throw (locking_error sys [] file_name e))
            | None \<Rightarrow>
                act_then (act_modify (set_lock Write_locked (c_ino f)))
                  (act_then (act_modify (m_record_descriptor file_name fd)) (act_return (Some fd))))))"

definition purge_file :: "sys_calls \<Rightarrow> string \<Rightarrow> unit cache_act" where
  "purge_file sys f =
     catch_rethrow
       (act_then (lock_cache_write sys)
       (act_bind (get_exclusive_lock sys f) (\<lambda>r.
        case r of
          None \<Rightarrow> unlock_cache sys
        | Some cfile_fd \<Rightarrow>
            act_bind (act_gets files) (\<lambda>fs.
            let sz = (case map_of fs f of Some c \<Rightarrow> c_size c | None \<Rightarrow> 0)
            in act_then (fail_if (prolog ''purge_file'' @ ''Unable to purge the file '' @ f @ '' from the cache: '') (unlink_error sys f))
               (act_then (act_modify (unlink f))
               (act_then (unlock_file sys cfile_fd)
               (act_bind (get_cache_size sys) (\<lambda>n.
                act_then (rewind sys ''purge_file'')
                (act_then (write_size sys (prolog ''purge_file'' @ ''Could not write size info to the cache info file!'')
                   ((n + (2 ^ 64 - sz mod 2 ^ 64)) mod 2 ^ 64)) (unlock_cache sys))))))))))
       (unlock_cache sys)"

subsection \<open>The lock on the control file\<close>

lemma fail_run [simp]:
  "fail_if msg None s = (Inr (), s)" "fail_if msg (Some e) s = (Inl (BESInternalError (msg @ e)), s)"
  "fail_when msg False s = (Inr (), s)" "fail_when msg True s = (Inl (BESInternalError msg), s)"
  by (simp_all add: fail_if_def fail_when_def act_simps)

definition unlock_failure :: "string \<Rightarrow> bes_error" where
  "unlock_failure e = BESInternalError (prolog ''unlock_cache'' @ ''An error occurred trying to unlock the cache-control file'' @ e)"

lemma unlock_cache_run:
  "unlock_cache sys s = (case unlock_cache_error sys of None \<Rightarrow> (Inr (), s\<lparr>cache_lock := Unlocked\<rparr>) | Some e \<Rightarrow> (Inl (unlock_failure e), s))"
  by (simp add: unlock_cache_def unlock_failure_def act_simps split: option.split)

text \<open>What a run ends with when its last call is \<^const>\<open>unlock_cache\<close>.\<close>

definition released :: "sys_calls \<Rightarrow> (bes_error + 'a) \<times> file_cache \<Rightarrow> bool" where
  "released sys r = (case unlock_cache_error sys of None \<Rightarrow> cache_lock (snd r) = Unlocked | Some e \<Rightarrow> fst r = Inl (unlock_failure e))"

text \<open>An action whose every exit runs \<^const>\<open>unlock_cache\<close>: the normal one last, the others in the handler.\<close>

definition ends_unlocked :: "sys_calls \<Rightarrow> 'a cache_act \<Rightarrow> bool" where
  "ends_unlocked sys m \<longleftrightarrow> (\<forall>s a s'. m s = (Inr a, s') \<longrightarrow> released sys (Inr a :: bes_error + 'a, s'))"

lemma ends_unlocked_bind: "(\<And>a. ends_unlocked sys (f a)) \<Longrightarrow> ends_unlocked sys (act_bind m f)"
  by (auto simp: ends_unlocked_def act_bind_Inr)

lemma ends_unlocked_then: "ends_unlocked sys f \<Longrightarrow> ends_unlocked sys (act_then m f)"
  by (simp add: act_then_def ends_unlocked_bind)

lemma ends_unlocked_unlock: "ends_unlocked sys (unlock_cache sys)" "ends_unlocked sys (act_then (unlock_cache sys) (act_return a))"
    "ends_unlocked sys (act_throw e)"
  by (auto simp: ends_unlocked_def released_def unlock_cache_run act_simps split: option.splits)

lemma catch_rethrow_unlocked:
  assumes "ends_unlocked sys m"
  shows "released sys (catch_rethrow m (unlock_cache sys) s)"
proof -
  obtain r s1 where m: "m s = (r, s1)" by (cases "m s")
  show ?thesis
  proof (cases r)
    case (Inl e)
    then show ?thesis using m by (simp add: catch_rethrow_def released_def unlock_cache_run act_simps split: option.split)
  next
    case (Inr a)
    then show ?thesis using m assms by (simp add: catch_rethrow_def ends_unlocked_def)
  qed
qed

lemmas ends_unlocked_intros = ends_unlocked_unlock ends_unlocked_bind ends_unlocked_then

text \<open>
  C23: Whatever system call fails, and on the normal path too, the operations on the size of the
  cache and the two purges leave the control file unlocked, so that no error blocks the other processes; only when
  the unlocking of the control file itself fails the lock stays, and then the caller gets that error.
\<close>

theorem purge_releases_lock:
  "released sys (update_cache_info sys target s)
   \<and> released sys (get_cache_size sys s)
   \<and> released sys (purge_file sys target s)
   \<and> (is_unlimited s \<or> released sys (update_and_purge sys target s))"
proof (intro conjI)
  show "released sys (update_cache_info sys target s)"
    unfolding update_cache_info_def
    by (intro catch_rethrow_unlocked ends_unlocked_then ends_unlocked_bind)
       (auto intro!: ends_unlocked_intros simp: Let_def split: option.split)
  show "released sys (get_cache_size sys s)"
    unfolding get_cache_size_def
    by (intro catch_rethrow_unlocked ends_unlocked_then ends_unlocked_bind ends_unlocked_unlock)
  show "released sys (purge_file sys target s)"
    unfolding purge_file_def
    by (intro catch_rethrow_unlocked ends_unlocked_then ends_unlocked_bind)
       (auto intro!: ends_unlocked_intros simp: Let_def split: option.split)
  show "is_unlimited s \<or> released sys (update_and_purge sys target s)"
    unfolding update_and_purge_def
    by (auto intro!: catch_rethrow_unlocked ends_unlocked_intros split: prod.split)
qed

subsection \<open>What a purge removes\<close>

definition no_faults :: "sys_calls \<Rightarrow> bool" where
  "no_faults sys \<longleftrightarrow> open_error sys = (\<lambda>_. None) \<and> lock_error sys = (\<lambda>_. None) \<and> unlink_error sys = (\<lambda>_. None)
     \<and> \<not> opendir_fails sys \<and> \<not> lseek_fails sys \<and> \<not> read_fails sys \<and> \<not> write_fails sys
     \<and> unlock_error sys = (\<lambda>_. None) \<and> close_fails sys = (\<lambda>_. False) \<and> unlock_cache_error sys = None"

text \<open>The files of the cache in the directory, and the entry of one.\<close>

definition in_cache :: "file_cache \<Rightarrow> string \<Rightarrow> bool" where
  "in_cache s f \<longleftrightarrow> prefix (d_cache_dir s @ ''/'') f \<and> CHR ''/'' \<notin> set (drop (length (d_cache_dir s @ ''/'')) f)
     \<and> prefix (d_prefix s) (drop (length (d_cache_dir s @ ''/'')) f)
     \<and> drop (length (d_cache_dir s @ ''/'')) f \<noteq> d_cache_info s"







text \<open>
  Reference definition of a purge: from the oldest on, the files that are not protected, until the total is at
  the target.
\<close>

fun doomed :: "nat \<Rightarrow> (string \<Rightarrow> bool) \<Rightarrow> nat \<Rightarrow> cache_entry list \<Rightarrow> cache_entry list" where
  "doomed target protected amount [] = []"
| "doomed target protected amount (e # es) =
     (if amount \<le> target then []
      else if protected (name e) then doomed target protected amount es
      else e # doomed target protected (amount - size e) es)"





lemma doomed_needed:
  "doomed t p n es = xs @ [e] \<Longrightarrow> n - sum_list (map size xs) > t"
proof (induction t p n es arbitrary: xs rule: doomed.induct)
  case (1 t p n)
  then show ?case by simp
next
  case (2 t p n x es)
  show ?case
  proof (cases "n \<le> t \<or> p (name x)")
    case True
    with 2 show ?thesis by (auto split: if_splits)
  next
    case False
    with "2.prems" have "x # doomed t p (n - size x) es = xs @ [e]" by simp
    then show ?thesis
    proof (cases xs)
      case Nil
      with False show ?thesis by simp
    next
      case (Cons y ys)
      with \<open>x # doomed t p (n - size x) es = xs @ [e]\<close>
      have "y = x" "doomed t p (n - size x) es = ys @ [e]" by auto
      with "2.IH"(2) False Cons show ?thesis by (simp add: diff_diff_add)
    qed
  qed
qed










lemma wrap_sub: "k \<le> (n::nat) \<Longrightarrow> n < 2 ^ 64 \<Longrightarrow> (n + (2 ^ 64 - k mod 2 ^ 64)) mod 2 ^ 64 = n - k"
proof -
  assume "k \<le> n" "n < 2 ^ 64"
  then have "n + (2 ^ 64 - k mod 2 ^ 64) = n - k + 2 ^ 64" by simp
  then show ?thesis using \<open>n < 2 ^ 64\<close> by simp
qed



















definition quiet_sys :: sys_calls where
  "quiet_sys = \<lparr>mkdir_error = (\<lambda>_. None), open_error = (\<lambda>_. None), lock_error = (\<lambda>_. None), unlink_error = (\<lambda>_. None),
     shared_lock_error = (\<lambda>_. None), unlock_error = (\<lambda>_. None), close_fails = (\<lambda>_. False), unlock_cache_error = None, opendir_fails = False, lseek_fails = False, read_fails = False, write_fails = False,
     pid_text = ''7'', times_0_8 = (\<lambda>n. n * 4 div 5), clock_time = 9\<rparr>"

definition sample_cache :: file_cache where
  "sample_cache = \<lparr>d_cache_enabled = True, d_cache_dir = ''/c'', d_prefix = ''p'', d_max_cache_size_in_bytes = 10,
     d_target_size = 8, d_cache_info = ''/c/pcache_control'', d_locks = [], cache_lock = Unlocked, info_size = 0, info_writes = [],
     files = [(''/c/pb'', \<lparr>c_size = 4, c_atime = 3, c_busy = False, c_ino = 5\<rparr>), (''/c/pa'', \<lparr>c_size = 5, c_atime = 2, c_busy = False, c_ino = 6\<rparr>),
       (''/c/x'', \<lparr>c_size = 9, c_atime = 1, c_busy = False, c_ino = 7\<rparr>), (''/c/pl'', \<lparr>c_size = 3, c_atime = 1, c_busy = True, c_ino = 8\<rparr>)],
     open_fds = [(3, 2)], next_fd = 4, info_ino = 2, next_ino = 9\<rparr>"

lemmas purge_run_simps =
  update_and_purge_def act_simps catch_rethrow_def lock_cache_write_def m_collect_cache_dir_info_def cache_dir_info_def
  dir_entries_def get_exclusive_lock_nb_def new_descriptor_def m_record_descriptor_def unlock_file_def close_fd_def set_lock_def unlink_def rewind_def
  write_size_def unlock_cache_def cache_too_big_def is_unlimited_def sample_cache_def quiet_sys_def fail_if_def fail_when_def Let_def


subsection \<open>Purging one file\<close>

lemma purge_file_run:
  assumes "no_faults sys" and "map_of (files s) f = Some c" and "c_size c \<le> info_size s" and "info_size s < 2 ^ 64"
  shows "purge_file sys f s = (Inr (), s\<lparr>d_locks := d_locks s @ [(f, next_fd s)], cache_lock := Unlocked,
     info_size := info_size s - c_size c, info_writes := info_writes s @ [Unlocked],
     files := filter (\<lambda>p. fst p \<noteq> f) (files s), open_fds := filter (\<lambda>d. fst d \<noteq> next_fd s) (open_fds s), next_fd := next_fd s + 1\<rparr>)"
  using assms(1,2)
  by (simp add: purge_file_def catch_rethrow_def lock_cache_write_def get_exclusive_lock_def new_descriptor_def
      m_record_descriptor_def unlink_def unlock_file_def close_fd_def set_lock_def get_cache_size_def lock_cache_read_def read_info_def rewind_def
      write_size_def unlock_cache_def no_faults_def act_simps Let_def wrap_sub [OF assms(3,4), simplified])

text \<open>
  C24: Without faults \<^const>\<open>purge_file\<close> removes exactly the named file and subtracts its size, which must not
  exceed the stored one, but
  \<^const>\<open>get_cache_size\<close>, called in between, drops the write lock: the size is written while the
  control file is not locked, so a concurrent update of the size can be lost.
\<close>

theorem purge_file_spec:
  assumes "no_faults sys" and "map_of (files s) f = Some c" and "c_size c \<le> info_size s" and "info_size s < 2 ^ 64"
  shows "\<exists>s'. purge_file sys f s = (Inr (), s') \<and> files s' = filter (\<lambda>p. fst p \<noteq> f) (files s)
     \<and> info_size s' = info_size s - c_size c \<and> cache_lock s' = Unlocked \<and> info_writes s' = info_writes s @ [Unlocked]"
  using purge_file_run [OF assms] by simp

theorem purge_file_spec_witness:
  "\<exists>s'. purge_file quiet_sys ''/c/pa'' (sample_cache\<lparr>info_size := 12\<rparr>) = (Inr (), s') \<and> info_size s' = 7 \<and> info_writes s' = [Unlocked]"
  using purge_file_spec [of quiet_sys "sample_cache\<lparr>info_size := 12\<rparr>" "''/c/pa''" "\<lparr>c_size = 5, c_atime = 2, c_busy = False, c_ino = 6\<rparr>"]
  by (auto simp: no_faults_def quiet_sys_def sample_cache_def)

text \<open>
  The descriptor of a purged file is closed but stays recorded, so a later \<^const>\<open>unlock_and_close\<close> of that name tries
  to unlock a closed descriptor and throws.
\<close>

lemma unlock_after_purge_throws:
  assumes "no_faults sys" and "map_of (files s) f = Some c" and "c_size c \<le> info_size s" and "info_size s < 2 ^ 64"
    and "f \<notin> fst ` set (d_locks s)" and "next_fd s \<noteq> - 1"
  shows "\<exists>s' e. purge_file sys f s = (Inr (), s') \<and> fst (unlock_and_close sys f s') = Inl e"
proof -
  have "map_of (d_locks s) f = None"
    using assms(5) by (simp add: map_of_eq_None_iff)
  then have "map_of (d_locks s @ [(f, next_fd s)]) f = Some (next_fd s)"
    by (simp add: map_add_def)
  then show ?thesis
    by (simp add: purge_file_run [OF assms(1-4)] unlock_and_close_def m_remove_descriptor_def unlock_file_def act_simps assms(6) Let_def image_iff
        del: map_of_append)
qed

subsection \<open>The control file and the limit\<close>

text \<open>The entry names are compared with the full path of the control file, so it is collected like a cached file.\<close>

lemma control_file_collected:
  assumes info: "d_cache_info s = (d_cache_dir s @ ''/'') @ d_prefix s @ ''cache_control''" and p: "CHR ''/'' \<notin> set (d_prefix s)"
  shows "in_cache s (d_cache_info s)"
proof -
  let ?e = "d_prefix s @ ''cache_control''"
  have e: "CHR ''/'' \<notin> set ?e" using p by simp
  have "?e \<noteq> d_cache_info s"
  proof
    assume eq: "?e = d_cache_info s"
    have "CHR ''/'' \<in> set (d_cache_info s)" unfolding info by simp
    with e show False unfolding eq ..
  qed
  moreover have "drop (length (d_cache_dir s @ ''/'')) (d_cache_info s) = ?e"
    unfolding info by (rule append_eq_conv_conj [THEN iffD1, THEN conjunct2, symmetric]) (rule refl)
  moreover have "prefix (d_cache_dir s @ ''/'') (d_cache_info s)" "prefix (d_prefix s) ?e"
    unfolding info by (rule prefixI, rule refl)+
  ultimately show ?thesis
    unfolding in_cache_def using e by (simp only: simp_thms)
qed

lemma control_file_purged:
  "let s = sample_cache\<lparr>files := (d_cache_info sample_cache, \<lparr>c_size = 8, c_atime = 0, c_busy = False, c_ino = 2\<rparr>) # files sample_cache\<rparr>
   in d_cache_info s \<in> fst ` set (files s)
      \<and> d_cache_info s \<notin> fst ` set (files (snd (update_and_purge quiet_sys ''/c/pn'' s)))
      \<and> info_writes (snd (update_and_purge quiet_sys ''/c/pn'' s)) = [Unlocked]"
  by (simp add: purge_run_simps)

text \<open>
  A limit of \<open>2 ^ 44\<close> megabytes, to which larger limits are reduced, is \<open>2 ^ 64\<close> bytes and wraps to zero, which
  means unlimited; every smaller limit is converted exactly.
\<close>

lemma init_sizes_limit:
  "is_unlimited (init_sizes sys s) \<longleftrightarrow> d_max_cache_size_in_bytes s = 0 \<or> 2 ^ 44 \<le> d_max_cache_size_in_bytes s"
  "d_max_cache_size_in_bytes s < 2 ^ 44 \<Longrightarrow>
     d_max_cache_size_in_bytes (init_sizes sys s) = d_max_cache_size_in_bytes s * 2 ^ 20"
proof -
  let ?m = "d_max_cache_size_in_bytes s"
  have lim: "?m < 2 ^ 44 \<Longrightarrow> ?m * 2 ^ 20 < 2 ^ 64" by simp
  then show "?m < 2 ^ 44 \<Longrightarrow> d_max_cache_size_in_bytes (init_sizes sys s) = ?m * 2 ^ 20"
    by (simp add: init_sizes_def MAX_CACHE_SIZE_IN_MEGABYTES_def BYTES_PER_MEG_def Let_def)
  with lim show "is_unlimited (init_sizes sys s) \<longleftrightarrow> ?m = 0 \<or> 2 ^ 44 \<le> ?m"
    by (cases "?m < 2 ^ 44") (auto simp: is_unlimited_def init_sizes_def MAX_CACHE_SIZE_IN_MEGABYTES_def BYTES_PER_MEG_def Let_def)
qed

text \<open>An error inside \<^const>\<open>create_and_lock\<close> or \<^const>\<open>get_read_lock\<close> leaves the control file locked.\<close>

lemma create_and_lock_error_keeps_lock:
  assumes "lock_error sys (d_cache_info s) = None" and "target \<notin> fst ` set (files s)" and "open_error sys target = Some e"
  shows "create_and_lock sys target s = (Inl (BESInternalError (target @ '': '' @ e)), s\<lparr>cache_lock := Write_locked\<rparr>)"
  using assms by (simp add: create_and_lock_def lock_cache_write_def createLockedFile_def act_simps)

subsection \<open>Names of cached files\<close>

definition mangle_char :: "char \<Rightarrow> char" where
  "mangle_char c = (if c \<in> set chars_excluded_from_filenames then CHR ''#'' else c)"

lemma mangle_char_idle: "mangle_char (CHR ''#'') = CHR ''#''" "mangle_char c \<notin> set chars_excluded_from_filenames"
  by (simp_all add: mangle_char_def chars_excluded_from_filenames_def)

lemma mangle_loop_map: "mangle_loop s = map mangle_char s"
proof (induction s rule: mangle_loop.induct)
  case (1 s)
  show ?case
  proof (cases "find_first_of s chars_excluded_from_filenames 0")
    case None
    then have "\<forall>c \<in> set s. mangle_char c = c"
      by (auto simp: find_first_of_def find_idx_None_iff mangle_char_def)
    then show ?thesis
      by (simp add: mangle_loop.simps [of s] None map_idI)
  next
    case (Some i)
    have "i < length s" "s ! i \<in> set chars_excluded_from_filenames"
      using find_first_of_SomeD [OF Some] by auto
    then have "map mangle_char (s[i := CHR ''#'']) = map mangle_char s"
      by (simp add: map_update mangle_char_idle list_update_same_conv) (simp add: mangle_char_def)
    then show ?thesis
      using "1.IH" [OF Some] by (simp add: mangle_loop.simps [of s] Some)
  qed
qed

lemma mangled_path:
  assumes "d_cache_dir s = dir @ replicate m (CHR ''/'')" and "hd dir = CHR ''/''" and "last dir \<noteq> CHR ''/''" and "dir \<noteq> []" and "target \<noteq> []"
  shows "assemblePath (d_cache_dir s) (map mangle_char target) True False = dir @ ''/'' @ map mangle_char target"
proof -
  have ne: "mangle_char c \<noteq> CHR ''/''" for c by (simp add: mangle_char_def chars_excluded_from_filenames_def)
  have "hd (map mangle_char target) \<noteq> CHR ''/''" "last (map mangle_char target) \<noteq> CHR ''/''"
    using assms(5) by (simp_all add: hd_map last_map ne)
  then show ?thesis using assemblePath_joins [of dir "map mangle_char target" m 0 True False] assms by simp
qed

text \<open>
  C25: The loop of \<^const>\<open>get_cache_file_name\<close> that searches from the start after every replacement ends, and
  replaces exactly the excluded characters; the name has its length, so the length of prefix and
  source alone decides whether an error is thrown.  When the cache directory is absolute and not the root, the file lies in that
  directory itself: its path is the directory, one slash, and a name without excluded characters, slashes included.
\<close>

theorem get_cache_file_name_mangled:
  assumes "d_cache_dir s = dir @ replicate m (CHR ''/'')" and "hd dir = CHR ''/''" and "last dir \<noteq> CHR ''/''" and "dir \<noteq> []" and "d_prefix s \<noteq> []"
  shows "get_cache_file_name src True s =
     (if length (d_prefix s) + length src > 254
      then Inl (BESInternalError (prolog ''get_cache_file_name'' @ ''Cache filename is longer than 254 characters (name length: ''
              @ nat_text (length (d_prefix s) + length src) @ '', name: '' @ map mangle_char (d_prefix s @ src)))
      else Inr (dir @ ''/'' @ map mangle_char (d_prefix s @ src)))
   \<and> set (map mangle_char (d_prefix s @ src)) \<inter> set chars_excluded_from_filenames = {}
   \<and> CHR ''/'' \<notin> set (map mangle_char (d_prefix s @ src))"
proof (intro conjI)
  have "assemblePath (d_cache_dir s) (map mangle_char (d_prefix s @ src)) True False = dir @ ''/'' @ map mangle_char (d_prefix s @ src)"
    by (rule mangled_path [OF assms(1-4)]) (use assms(5) in simp)
  then show "get_cache_file_name src True s =
     (if length (d_prefix s) + length src > 254
      then Inl (BESInternalError (prolog ''get_cache_file_name'' @ ''Cache filename is longer than 254 characters (name length: ''
              @ nat_text (length (d_prefix s) + length src) @ '', name: '' @ map mangle_char (d_prefix s @ src)))
      else Inr (dir @ ''/'' @ map mangle_char (d_prefix s @ src)))"
    by (simp add: get_cache_file_name_def mangle_loop_map Let_def)
  show none: "set (map mangle_char (d_prefix s @ src)) \<inter> set chars_excluded_from_filenames = {}"
    by (auto simp: mangle_char_idle)
  have "CHR ''/'' \<in> set chars_excluded_from_filenames" by (simp add: chars_excluded_from_filenames_def)
  then show "CHR ''/'' \<notin> set (map mangle_char (d_prefix s @ src))" using none by blast
qed

theorem get_cache_file_name_mangled_witness:
  "get_cache_file_name ''a/b c'' True sample_cache = Inr ''/c/pa#b#c''"
  using get_cache_file_name_mangled [of sample_cache "''/c''" 0 "''a/b c''"]
  by (simp add: sample_cache_def mangle_char_def chars_excluded_from_filenames_def)

text \<open>Sources that differ in excluded characters only have the same cache file.\<close>

lemma mangled_names_collide:
  "get_cache_file_name ''a/b'' True s = get_cache_file_name ''a?b'' True s"
  by (simp add: get_cache_file_name_def mangle_loop_map mangle_char_def chars_excluded_from_filenames_def)

subsection \<open>Releasing files\<close>

definition fds_of :: "string \<Rightarrow> file_cache \<Rightarrow> int list" where
  "fds_of f s = map snd (filter (\<lambda>l. fst l = f) (d_locks s))"

lemma remove_first_facts:
  assumes "map_of ls f = Some fd"
  shows "map snd (filter (\<lambda>l. fst l = f) ls) = fd # map snd (filter (\<lambda>l. fst l = f) (remove_first f ls))"
    and "filter (\<lambda>l. fst l \<noteq> f) (remove_first f ls) = filter (\<lambda>l. fst l \<noteq> f) ls"
  using assms by (induction f ls rule: remove_first.induct) (auto split: if_splits)

lemma close_fd_run:
  "close_fd fd s = s\<lparr>open_fds := filter (\<lambda>d. fst d \<noteq> fd) (open_fds s),
     cache_lock := if map_of (open_fds s) fd = Some (info_ino s) then Unlocked else cache_lock s\<rparr>"
proof (cases "map_of (open_fds s) fd")
  case None
  then have "fd \<notin> fst ` set (open_fds s)" by (simp add: map_of_eq_None_iff)
  then have "filter (\<lambda>d. fst d \<noteq> fd) (open_fds s) = open_fds s" by (force simp: filter_id_conv)
  then show ?thesis using None by (simp add: close_fd_def)
qed (simp add: close_fd_def set_lock_def)

text \<open>The descriptors recorded for a name can be unlocked and closed.\<close>

definition closable :: "sys_calls \<Rightarrow> string \<Rightarrow> file_cache \<Rightarrow> bool" where
  "closable sys f s \<longleftrightarrow> distinct (fds_of f s) \<and> set (fds_of f s) \<subseteq> fst ` set (open_fds s) \<and> - 1 \<notin> set (fds_of f s)
     \<and> list_all (\<lambda>fd. unlock_error sys fd = None \<and> \<not> close_fails sys fd) (fds_of f s)"

definition close_all :: "string \<Rightarrow> file_cache \<Rightarrow> file_cache" where
  "close_all f s = s\<lparr>d_locks := filter (\<lambda>l. fst l \<noteq> f) (d_locks s), open_fds := filter (\<lambda>d. fst d \<notin> set (fds_of f s)) (open_fds s),
     cache_lock := if \<exists>fd \<in> set (fds_of f s). map_of (open_fds s) fd = Some (info_ino s) then Unlocked else cache_lock s\<rparr>"

lemma map_of_filter_other: "d \<noteq> fd \<Longrightarrow> map_of (filter (\<lambda>d. fst d \<noteq> fd) ds) d = map_of ds d"
  by (induction ds) auto

lemma unlock_loop_run:
  assumes "length (fds_of f s) < n" and "closable sys f s"
  shows "unlock_loop sys n f s = (Inr (), close_all f s)"
  using assms
proof (induction n arbitrary: s)
  case 0
  then show ?case by simp
next
  case (Suc n)
  show ?case
  proof (cases "map_of (d_locks s) f")
    case None
    then have "\<forall>l \<in> set (d_locks s). fst l \<noteq> f" by (force simp: map_of_eq_None_iff)
    then have "fds_of f s = []" "filter (\<lambda>l. fst l \<noteq> f) (d_locks s) = d_locks s"
      by (simp_all add: fds_of_def filter_empty_conv)
    with None show ?thesis by (simp add: m_remove_descriptor_def close_all_def act_simps)
  next
    case (Some fd)
    let ?s1 = "s\<lparr>d_locks := remove_first f (d_locks s)\<rparr>"
    let ?s2 = "close_fd fd ?s1"
    have fds: "fds_of f s = fd # fds_of f ?s2"
      using remove_first_facts(1) [OF Some] by (simp add: fds_of_def close_fd_run)
    have ne: "fd \<noteq> - 1" "fd \<in> fst ` set (open_fds s)" "unlock_error sys fd = None" "\<not> close_fails sys fd" "fd \<notin> set (fds_of f ?s2)"
      using Suc.prems(2) fds by (auto simp: closable_def)
    have "closable sys f ?s2" using Suc.prems(2) ne(5) by (force simp: closable_def fds close_fd_run)
    then have "unlock_loop sys n f ?s2 = (Inr (), close_all f ?s2)" by (rule Suc.IH [rotated]) (use Suc.prems(1) fds in simp)
    moreover have "unlock_file sys fd ?s1 = (Inr (), ?s2)" using ne by (simp add: unlock_file_def Let_def)
    ultimately have run: "unlock_loop sys (Suc n) f s = (Inr (), close_all f ?s2)"
      using Some ne(1) by (simp add: m_remove_descriptor_def act_simps)
    have "map_of (open_fds ?s2) d = map_of (open_fds s) d" if "d \<in> set (fds_of f ?s2)" for d
      using ne(5) that map_of_filter_other [of d fd "open_fds s"] by (auto simp: close_fd_run)
    then have info: "(\<exists>d \<in> set (fds_of f ?s2). map_of (open_fds ?s2) d = Some (info_ino s))
        = (\<exists>d \<in> set (fds_of f ?s2). map_of (open_fds s) d = Some (info_ino s))" by simp
    have "close_all f ?s2 = ?s2\<lparr>d_locks := filter (\<lambda>l. fst l \<noteq> f) (d_locks s), open_fds := filter (\<lambda>d. fst d \<notin> set (fds_of f s)) (open_fds s),
        cache_lock := if \<exists>d \<in> set (fds_of f ?s2). map_of (open_fds s) d = Some (info_ino s) then Unlocked else cache_lock ?s2\<rparr>"
      using info remove_first_facts(2) [OF Some] unfolding close_all_def fds by (simp add: close_fd_run conj_commute)
    also have "\<dots> = close_all f s" unfolding close_all_def fds by (simp add: close_fd_run)
    finally show ?thesis using run by simp
  qed
qed

text \<open>
  C26: When the descriptors recorded for a file are open and distinct, and neither unlocking nor closing one of them fails,
  \<^const>\<open>unlock_and_close\<close> returns, closes exactly those descriptors and forgets them, however often the file had been
  opened; the lock on the control file is released exactly when one of them is a descriptor of the control file.
\<close>

theorem unlock_and_close_spec:
  assumes "distinct (fds_of f s)" and "set (fds_of f s) \<subseteq> fst ` set (open_fds s)" and "- 1 \<notin> set (fds_of f s)"
    and "list_all (\<lambda>fd. unlock_error sys fd = None \<and> \<not> close_fails sys fd) (fds_of f s)"
  shows "unlock_and_close sys f s = (Inr (), s\<lparr>d_locks := filter (\<lambda>l. fst l \<noteq> f) (d_locks s),
     open_fds := filter (\<lambda>d. fst d \<notin> set (fds_of f s)) (open_fds s),
     cache_lock := if \<exists>fd \<in> set (fds_of f s). map_of (open_fds s) fd = Some (info_ino s) then Unlocked else cache_lock s\<rparr>)"
proof -
  have "length (fds_of f s) < Suc (length (d_locks s))"
    by (simp add: fds_of_def le_imp_less_Suc)
  from unlock_loop_run [OF this] show ?thesis
    unfolding unlock_and_close_def using assms by (simp add: closable_def close_all_def)
qed

theorem unlock_and_close_spec_witness:
  "let s = sample_cache\<lparr>d_locks := [(''a'', 4), (''b'', 6), (''a'', 5)], open_fds := [(6, 7), (5, 2), (4, 8), (3, 2)], cache_lock := Write_locked\<rparr>
   in unlock_and_close quiet_sys ''a'' s = (Inr (), s\<lparr>d_locks := [(''b'', 6)], open_fds := [(6, 7), (3, 2)], cache_lock := Unlocked\<rparr>)"
  using unlock_and_close_spec [of "''a''" "sample_cache\<lparr>d_locks := [(''a'', 4), (''b'', 6), (''a'', 5)],
      open_fds := [(6, 7), (5, 2), (4, 8), (3, 2)], cache_lock := Write_locked\<rparr>" quiet_sys]
  by (simp add: fds_of_def quiet_sys_def) (simp add: sample_cache_def)

end
