(* ===== verification/Dmrpp_Index.thy ===== *)
theory Dmrpp_Index
  imports Bes_Prelude
begin

text \<open>
  What the array code of \<^verbatim>\<open>modules/dmrpp_module\<close> is built from: \<^verbatim>\<open>memcpy\<close> between buffers, loops, the row-major
  offset of an element, and the conversions to 32 and 64 bits.  \<^const>\<open>None\<close> stands for undefined behaviour: a
  copy that leaves a buffer, or an assertion that does not hold.
\<close>

definition u32 :: "nat \<Rightarrow> nat" where
  "u32 n = n mod 2 ^ 32"

definition u64 :: "nat \<Rightarrow> nat" where
  "u64 n = n mod 2 ^ 64"

definition sub64 :: "nat \<Rightarrow> nat \<Rightarrow> nat" where
  "sub64 a b = u64 (a + (2 ^ 64 - u64 b))"

lemma u32_small [simp]: "n < 2 ^ 32 \<Longrightarrow> u32 n = n"
  by (simp add: u32_def)

lemma u64_small [simp]: "n < 2 ^ 64 \<Longrightarrow> u64 n = n"
  by (simp add: u64_def)

lemma sub64_small: "b \<le> a \<Longrightarrow> a < 2 ^ 64 \<Longrightarrow> sub64 a b = a - b"
proof -
  assume "b \<le> a" "a < 2 ^ 64"
  then have "a + (2 ^ 64 - b mod 2 ^ 64) = a - b + 2 ^ 64" by simp
  then show ?thesis using \<open>a < 2 ^ 64\<close> by (simp add: sub64_def u64_def)
qed

definition memcpy :: "'b list \<Rightarrow> nat \<Rightarrow> 'b list \<Rightarrow> nat \<Rightarrow> nat \<Rightarrow> 'b list option" where
  "memcpy dest d src s n =
     (if d + n \<le> length dest \<and> s + n \<le> length src
      then Some (take d dest @ take n (drop s src) @ drop (d + n) dest) else None)"

fun for_each :: "('i \<Rightarrow> 's \<Rightarrow> 's option) \<Rightarrow> 'i list \<Rightarrow> 's \<Rightarrow> 's option" where
  "for_each f [] s = Some s"
| "for_each f (i # is) s = Option.bind (f i s) (for_each f is)"

lemma for_each_cong [fundef_cong]:
  "xs = ys \<Longrightarrow> s = t \<Longrightarrow> (\<And>x u. x \<in> set ys \<Longrightarrow> f x u = g x u) \<Longrightarrow> for_each f xs s = for_each g ys t"
proof (induction xs arbitrary: ys s t)
  case Nil
  then show ?case by auto
next
  case (Cons x xs)
  have "for_each f xs = for_each g xs"
    using Cons.prems by (intro ext Cons.IH) auto
  then show ?case using Cons.prems by auto
qed

lemma for_each_append: "for_each f (xs @ ys) s = Option.bind (for_each f xs s) (for_each f ys)"
proof (induction xs arbitrary: s)
  case Nil
  then show ?case by simp
next
  case (Cons x xs)
  then show ?case by (cases "f x s") simp_all
qed

text \<open>The values of a counter that starts at \<open>from\<close> and is increased by \<open>stride\<close> while it is at most \<open>to\<close>.\<close>

definition counters :: "nat \<Rightarrow> nat \<Rightarrow> nat \<Rightarrow> nat list" where
  "counters from to stride = map (\<lambda>k. from + k * stride) [0 ..< (if from \<le> to then (to - from) div stride + 1 else 0)]"

lemma set_counters: "0 < stride \<Longrightarrow> set (counters from to stride) = {i. from \<le> i \<and> i \<le> to \<and> stride dvd i - from}"
proof -
  assume s: "0 < stride"
  have "(\<exists>k < (if from \<le> to then (to - from) div stride + 1 else 0). i = from + k * stride)
      \<longleftrightarrow> from \<le> i \<and> i \<le> to \<and> stride dvd i - from" for i
  proof (cases "from \<le> to")
    case True
    show ?thesis
    proof
      assume "\<exists>k < (if from \<le> to then (to - from) div stride + 1 else 0). i = from + k * stride"
      then obtain k where "k \<le> (to - from) div stride" "i = from + k * stride"
        using True by (simp add: less_Suc_eq_le) blast
      moreover from this(1) have "k * stride \<le> to - from" using s by (simp add: less_eq_div_iff_mult_less_eq)
      ultimately show "from \<le> i \<and> i \<le> to \<and> stride dvd i - from" using True by auto
    next
      assume i: "from \<le> i \<and> i \<le> to \<and> stride dvd i - from"
      then obtain k where k: "i - from = k * stride" by (metis dvd_def mult.commute)
      then have "k \<le> (to - from) div stride" using i s by (metis diff_le_mono less_eq_div_iff_mult_less_eq)
      then show "\<exists>k < (if from \<le> to then (to - from) div stride + 1 else 0). i = from + k * stride"
        using i k True by (intro exI [of _ k]) auto
    qed
  qed auto
  moreover have "i \<in> set (counters from to stride)
      \<longleftrightarrow> (\<exists>k < (if from \<le> to then (to - from) div stride + 1 else 0). i = from + k * stride)" for i
    by (auto simp only: counters_def set_map set_upt image_iff Bex_def atLeastLessThan_iff le0 simp_thms)
  ultimately show ?thesis by blast
qed

subsection \<open>Elements of a buffer\<close>

definition elem :: "nat \<Rightarrow> 'b list \<Rightarrow> nat \<Rightarrow> 'b list" where
  "elem w buf k = take w (drop (k * w) buf)"

text \<open>
  \<open>filled w F S t t'\<close>: the elements of \<open>t\<close> whose positions are in \<open>S\<close> have become those of \<open>F\<close>, all others are as before.
\<close>

definition filled :: "nat \<Rightarrow> (nat \<Rightarrow> 'b list) \<Rightarrow> nat set \<Rightarrow> 'b list \<Rightarrow> 'b list \<Rightarrow> bool" where
  "filled w F S t t' \<longleftrightarrow> length t' = length t
     \<and> (\<forall>k. (k + 1) * w \<le> length t \<longrightarrow> elem w t' k = (if k \<in> S then F k else elem w t k))"

lemma filled_refl: "filled w F {} t t"
  by (simp add: filled_def)

lemma filled_trans: "filled w F S t t1 \<Longrightarrow> filled w F S' t1 t2 \<Longrightarrow> filled w F (S \<union> S') t t2"
  by (auto simp: filled_def)

lemma filled_length: "filled w F S t t' \<Longrightarrow> length t' = length t"
  by (simp add: filled_def)

lemma for_each_filled:
  assumes "\<forall>i \<in> set is. \<forall>t. length t = n \<longrightarrow> (\<exists>t'. f i t = Some t' \<and> filled w F (S i) t t')" and "length t = n"
  shows "\<exists>t'. for_each f is t = Some t' \<and> filled w F (\<Union>i \<in> set is. S i) t t'"
  using assms
proof (induction "is" arbitrary: t)
  case Nil
  then show ?case by (simp add: filled_refl)
next
  case (Cons i "is")
  then obtain t1 where t1: "f i t = Some t1" "filled w F (S i) t t1" by auto
  moreover have "length t1 = n" using filled_length [OF t1(2)] Cons.prems(2) by simp
  ultimately obtain t2 where "for_each f is t1 = Some t2" "filled w F (\<Union>i \<in> set is. S i) t1 t2"
    using Cons.IH [of t1] Cons.prems(1) by auto
  with t1 show ?case using filled_trans [OF t1(2)] by auto
qed

lemma elem_length: "(k + 1) * w \<le> length t \<Longrightarrow> length (elem w t k) = w"
  by (simp add: elem_def algebra_simps)

lemma memcpy_filled:
  assumes "(a + n) * w \<le> length t" and "(c + n) * w \<le> length src" and "\<forall>j < n. elem w src (c + j) = F (a + j)"
  shows "\<exists>t'. memcpy t (a * w) src (c * w) (n * w) = Some t' \<and> filled w F {a ..< a + n} t t'"
proof -
  let ?t = "take (a * w) t @ take (n * w) (drop (c * w) src) @ drop (a * w + n * w) t"
  have b: "a * w + n * w \<le> length t" "c * w + n * w \<le> length src"
    using assms(1,2) by (simp_all add: algebra_simps)
  have "elem w ?t k = (if k \<in> {a ..< a + n} then F k else elem w t k)" if k: "(k + 1) * w \<le> length t" for k
  proof -
    consider "k < a" | "a \<le> k" "k < a + n" | "a + n \<le> k" by linarith
    then show ?thesis
    proof cases
      case 1
      then have "k * w + w \<le> a * w" by (metis add.commute mult_Suc mult_le_mono1 Suc_leI)
      then have "elem w ?t k = take w (drop (k * w) (take (a * w) t))" using b by (simp add: elem_def)
      also have "\<dots> = elem w t k" using \<open>k * w + w \<le> a * w\<close> by (simp add: elem_def drop_take min_def)
      finally show ?thesis using 1 by simp
    next
      case 2
      then obtain j where j: "k = a + j" "j < n" by (metis le_Suc_ex nat_add_left_cancel_less)
      then have jw: "j * w + w \<le> n * w" by (metis add.commute mult_Suc mult_le_mono1 Suc_leI)
      have "drop (k * w) ?t = drop (j * w) (take (n * w) (drop (c * w) src) @ drop (a * w + n * w) t)"
        using b by (simp add: j algebra_simps)
      then have "elem w ?t k = take w (drop (j * w) (take (n * w) (drop (c * w) src)))"
        using jw b by (simp add: elem_def)
      also have "\<dots> = elem w src (c + j)"
        using jw by (simp add: elem_def drop_take min_def algebra_simps)
      finally show ?thesis using 2 assms(3) j by simp
    next
      case 3
      then have "a * w + n * w \<le> k * w" by (metis add_mult_distrib mult_le_mono1)
      then show ?thesis using 3 b by (simp add: elem_def)
    qed
  qed
  moreover have "length ?t = length t" using b by simp
  ultimately show ?thesis using b by (simp add: memcpy_def filled_def)
qed

subsection \<open>Row-major order\<close>

fun row_major :: "nat list \<Rightarrow> nat list \<Rightarrow> nat" where
  "row_major (i # is) (n # ns) = i * prod_list ns + row_major is ns"
| "row_major _ _ = 0"

lemma row_major_bound: "list_all2 (<) is ns \<Longrightarrow> row_major is ns < prod_list ns"
proof (induction rule: list_all2_induct)
  case Nil
  then show ?case by simp
next
  case (Cons i "is" n ns)
  have "i * prod_list ns + row_major is ns < (i + 1) * prod_list ns" using Cons by simp
  also have "\<dots> \<le> n * prod_list ns" using Cons by (intro mult_le_mono1) simp
  finally show ?case by simp
qed

lemma mult_less_left: "0 < (p::nat) \<Longrightarrow> a * p < n \<Longrightarrow> a < n"
  by (metis One_nat_def Suc_leI le_less_trans mult_le_mono2 nat_mult_1_right)

lemma prod_list_pos: "0 \<notin> set ns \<Longrightarrow> 0 < prod_list (ns :: nat list)"
  by (induction ns) auto

fun get_index_loop :: "nat \<Rightarrow> nat \<Rightarrow> nat list \<Rightarrow> nat list \<Rightarrow> nat option" where
  "get_index_loop multiplier_var offset (i # is) (n # ns) =
     (if i < n then get_index_loop (u64 (multiplier_var * n)) (u64 (offset + multiplier_var * i)) is ns else None)"
| "get_index_loop multiplier_var offset [] _ = Some offset"
| "get_index_loop multiplier_var offset _ [] = None"

definition get_index :: "nat list \<Rightarrow> nat list \<Rightarrow> nat option" where
  "get_index address_in_target target_shape =
     (if length address_in_target \<noteq> length target_shape then None
      else case (rev address_in_target, rev target_shape) of
        (i # is, n # ns) \<Rightarrow> get_index_loop n i is ns
      | _ \<Rightarrow> None)"

definition multiplier :: "nat list \<Rightarrow> nat \<Rightarrow> nat option" where
  "multiplier shape k =
     (if length shape > 1 \<and> length shape > k + 1
      then Some (fold (\<lambda>n m. u64 (m * n)) (drop (k + 2) shape) (shape ! (k + 1))) else None)"

lemma row_major_append:
  "length is = length ns \<Longrightarrow> row_major (is @ js) (ns @ ms) = row_major is ns * prod_list ms + row_major js ms"
  by (induction "is" ns rule: list_induct2) (simp_all add: algebra_simps)

lemma get_index_loop_row_major:
  assumes "list_all2 (<) is ns" and "offset \<le> m" and "m * prod_list ns < 2 ^ 64"
  shows "get_index_loop m offset is ns = Some (row_major (rev is) (rev ns) * m + offset)"
  using assms
proof (induction "is" ns arbitrary: m offset rule: list_all2_induct)
  case Nil
  then show ?case by simp
next
  case (Cons i "is" n ns)
  have pos: "0 < prod_list ns"
    using Cons.hyps(2) row_major_bound by fastforce
  have nm: "offset + m * i \<le> m * n"
  proof -
    have "offset + m * i \<le> m * (i + 1)" using Cons.prems(1) by simp
    also have "\<dots> \<le> m * n" using Cons.hyps(1) by (intro mult_le_mono2) simp
    finally show ?thesis .
  qed
  have small: "m * n < 2 ^ 64" using mult_less_left [OF pos, of "m * n"] Cons.prems(2) by (simp add: mult.assoc)
  have "get_index_loop (u64 (m * n)) (u64 (offset + m * i)) is ns
      = Some (row_major (rev is) (rev ns) * (m * n) + (offset + m * i))"
    using Cons.IH [OF nm] Cons.prems(2) small nm by (simp add: mult.assoc)
  then show ?case
    using Cons.hyps by (simp add: row_major_append list_all2_lengthD algebra_simps)
qed

text \<open>The last index is not checked against its bound; it may be one past the end.\<close>

lemma get_index_snoc:
  assumes "list_all2 (<) is ns" and "i \<le> n" and "prod_list (ns @ [n]) < 2 ^ 64"
  shows "get_index (is @ [i]) (ns @ [n]) = Some (row_major (is @ [i]) (ns @ [n]))"
proof -
  have len: "length is = length ns" using assms(1) by (rule list_all2_lengthD)
  have "list_all2 (<) (rev is) (rev ns)" using assms(1) by (simp add: list_all2_rev)
  moreover have "n * prod_list (rev ns) < 2 ^ 64" using assms(3) by (simp add: mult.commute)
  ultimately have "get_index_loop n i (rev is) (rev ns) = Some (row_major is ns * n + i)"
    using get_index_loop_row_major [OF _ assms(2)] by fastforce
  then show ?thesis using len by (simp add: get_index_def row_major_append)
qed

lemma get_index_row_major:
  assumes "list_all2 (<) is ns" and "is \<noteq> []" and "prod_list ns < 2 ^ 64"
  shows "get_index is ns = Some (row_major is ns)"
proof -
  have "ns \<noteq> []" using assms(1,2) by auto
  then obtain is' i ns' n where e: "is = is' @ [i]" "ns = ns' @ [n]"
    using assms(2) by (cases "is" rule: rev_cases; cases ns rule: rev_cases) auto
  have "length is' = length ns'" using list_all2_lengthD [OF assms(1)] by (simp add: e)
  then have "list_all2 (<) is' ns'" "i \<le> n" using assms(1) by (simp_all add: e list_all2_append)
  then show ?thesis using get_index_snoc [of is' ns' i n] assms(3) by (simp add: e)
qed

lemma fold_mult_u64:
  assumes "0 \<notin> set ns" and "m * prod_list ns < 2 ^ 64"
  shows "fold (\<lambda>n m. u64 (m * n)) ns m = m * prod_list ns"
  using assms
proof (induction ns arbitrary: m)
  case Nil
  then show ?case by simp
next
  case (Cons n ns)
  have "m * n < 2 ^ 64"
    using mult_less_left [OF prod_list_pos, of ns "m * n"] Cons.prems by (simp add: mult.assoc)
  then show ?case using Cons by (simp add: mult.assoc)
qed

lemma multiplier_prod:
  assumes "Suc k < length shape" and "0 \<notin> set shape" and "prod_list shape < 2 ^ 64"
  shows "multiplier shape k = Some (prod_list (drop (Suc k) shape))"
proof -
  have d: "drop (Suc k) shape = shape ! Suc k # drop (Suc (Suc k)) shape"
    using assms(1) by (simp add: Cons_nth_drop_Suc)
  have "0 < prod_list (take (Suc k) shape)"
    using assms(2) by (intro prod_list_pos) (auto dest: in_set_takeD)
  moreover have "prod_list (drop (Suc k) shape) * prod_list (take (Suc k) shape) < 2 ^ 64"
    using assms(3) by (metis append_take_drop_id mult.commute prod_list.append)
  ultimately have "prod_list (drop (Suc k) shape) < 2 ^ 64"
    by (rule mult_less_left)
  then have "shape ! Suc k * prod_list (drop (Suc (Suc k)) shape) < 2 ^ 64"
    by (simp add: d)
  then have "fold (\<lambda>n m. u64 (m * n)) (drop (Suc (Suc k)) shape) (shape ! Suc k)
      = shape ! Suc k * prod_list (drop (Suc (Suc k)) shape)"
    using assms(2) by (intro fold_mult_u64) (auto dest: in_set_dropD)
  then show ?thesis using assms(1) d by (simp add: multiplier_def)
qed

end
