(* ===== verification/Dmrpp_Array.thy ===== *)
theory Dmrpp_Array
  imports Dmrpp_Index
begin

text \<open>
  \<^verbatim>\<open>modules/dmrpp_module/DmrppArray.cc\<close>: how the data of a file, stored in one piece or in chunks, get into the
  buffer of a variable whose dimensions may be constrained by a start, a stop and a stride.

  Sizes, starts, stops and strides are \<^verbatim>\<open>int\<close> in libdap and not negative here.  The counters of the loops are
  \<^verbatim>\<open>unsigned int\<close>; they stay below \<open>2 ^ 32\<close> because stop and stride are below \<open>2 ^ 31\<close>.  Other
  conversions to 32 bits are written out.  The address vectors that the code passes by pointer are passed by value: each
  entry is written before it is read.
\<close>

record dimension =
  dim_size :: nat
  dim_start :: nat
  dim_stop :: nat
  dim_stride :: nat
  dim_c_size :: nat

record dmrpp_array =
  array_dims :: "dimension list"
  chunk_dimension_sizes :: "nat list"
  elem_width :: nat

definition dimension_size :: "dimension \<Rightarrow> bool \<Rightarrow> nat" where
  "dimension_size d constrained = (if constrained then dim_c_size d else dim_size d)"

definition is_projected :: "dmrpp_array \<Rightarrow> bool" where
  "is_projected a \<longleftrightarrow> (\<exists>d \<in> set (array_dims a). dimension_size d True \<noteq> dimension_size d False)"

definition get_size :: "dmrpp_array \<Rightarrow> bool \<Rightarrow> nat" where
  "get_size a constrained = fold (\<lambda>d s. u64 (s * dimension_size d constrained)) (array_dims a) 1"

definition get_shape :: "dmrpp_array \<Rightarrow> bool \<Rightarrow> nat list" where
  "get_shape a constrained = map (\<lambda>d. dimension_size d constrained) (array_dims a)"

subsection \<open>Data in one piece\<close>

text \<open>One value is copied byte by byte in the source.  With a stride, the offset of its first byte is computed in 32 bits.\<close>

definition copy_value :: "nat \<Rightarrow> 'b list \<Rightarrow> nat \<Rightarrow> nat \<times> 'b list \<Rightarrow> (nat \<times> 'b list) option" where
  "copy_value w src source_byte = (\<lambda>(target_index, t).
     map_option (\<lambda>t. (target_index + 1, t)) (memcpy t (u64 (target_index * w)) src source_byte w))"

fun insert_constrained_contiguous ::
  "nat \<Rightarrow> 'b list \<Rightarrow> nat list \<Rightarrow> dimension list \<Rightarrow> nat list \<Rightarrow> nat \<times> 'b list \<Rightarrow> (nat \<times> 'b list) option" where
  "insert_constrained_contiguous w src array_shape [] subset_addr s = None"
| "insert_constrained_contiguous w src array_shape (d # ds) subset_addr s =
     (if ds = [] \<and> dim_stride d = 1 then
        Option.bind (get_index (subset_addr @ [dim_start d]) array_shape) (\<lambda>start_index.
        Option.bind (get_index (subset_addr @ [dim_stop d]) array_shape) (\<lambda>stop_index.
          for_each (\<lambda>source_index. copy_value w src (u64 (source_index * w))) (counters start_index stop_index 1) s))
      else
        for_each (\<lambda>i s.
            if ds \<noteq> [] then insert_constrained_contiguous w src array_shape ds (subset_addr @ [i]) s
            else Option.bind (get_index (subset_addr @ [i]) array_shape) (\<lambda>source_index. copy_value w src (u32 (u32 source_index * w)) s))
          (counters (dim_start d) (dim_stop d) (dim_stride d)) s)"

subsection \<open>Whole chunks\<close>

definition end_element :: "dimension \<Rightarrow> nat \<Rightarrow> nat \<Rightarrow> nat" where
  "end_element d chunk_origin chunk_shape =
     (let e = sub64 (u64 (chunk_origin + chunk_shape)) 1 in if dim_stop d < e then dim_stop d else e)"

function insert_chunk_unconstrained ::
  "dmrpp_array \<Rightarrow> 'b list \<Rightarrow> nat \<Rightarrow> nat \<Rightarrow> nat list \<Rightarrow> nat \<Rightarrow> nat list \<Rightarrow> nat list \<Rightarrow> 'b list \<Rightarrow> 'b list option" where
  "insert_chunk_unconstrained a rbuf dim array_offset array_shape chunk_offset chunk_shape chunk_origin t =
     (if \<not> (dim < length (array_dims a) \<and> dim < length chunk_shape \<and> dim < length chunk_origin) then None
      else
        let e = end_element (array_dims a ! dim) (chunk_origin ! dim) (chunk_shape ! dim);
            chunk_end = sub64 e (chunk_origin ! dim)
        in if dim = length chunk_shape - 1 then
             memcpy t (u64 (u64 (array_offset + chunk_origin ! dim) * elem_width a)) rbuf (u64 (chunk_offset * elem_width a))
               (u64 (u64 (chunk_end + 1) * elem_width a))
           else
             Option.bind (multiplier chunk_shape dim) (\<lambda>mc.
             Option.bind (multiplier array_shape dim) (\<lambda>ma.
               for_each (\<lambda>chunk_index. insert_chunk_unconstrained a rbuf (dim + 1)
                   (u64 (array_offset + ma * (chunk_index + chunk_origin ! dim))) array_shape
                   (u64 (chunk_offset + mc * chunk_index)) chunk_shape chunk_origin)
                 (counters 0 chunk_end 1) t)))"
  by pat_completeness auto
termination
  by (relation "measure (\<lambda>(a, rbuf, dim, ao, ash, co, csh, cor, t). length csh - dim)") auto

subsection \<open>Constrained chunks\<close>

definition get_chunk_start :: "dimension \<Rightarrow> nat \<Rightarrow> nat" where
  "get_chunk_start thisDim chunk_origin =
     (if dim_start thisDim < chunk_origin then
        if dim_stride thisDim \<noteq> 1 then
          (let first_element_offset = (chunk_origin - dim_start thisDim) mod dim_stride thisDim
           in if first_element_offset \<noteq> 0 then dim_stride thisDim - first_element_offset else first_element_offset)
        else 0
      else dim_start thisDim - chunk_origin)"

fun first_true :: "('i \<Rightarrow> bool option) \<Rightarrow> 'i list \<Rightarrow> bool option" where
  "first_true f [] = Some False"
| "first_true f (i # is) = Option.bind (f i) (\<lambda>b. if b then Some True else first_true f is)"

lemma first_true_cong [fundef_cong]:
  "xs = ys \<Longrightarrow> (\<And>x. x \<in> set ys \<Longrightarrow> f x = g x) \<Longrightarrow> first_true f xs = first_true g ys"
proof (induction xs arbitrary: ys)
  case Nil
  then show ?case by auto
next
  case (Cons x xs)
  then have "first_true f xs = first_true g xs" by auto
  with Cons.prems show ?case by (cases "g x") auto
qed

text \<open>The target address that the recursion also computes is not used.\<close>

function find_needed_chunks :: "dmrpp_array \<Rightarrow> nat list \<Rightarrow> nat \<Rightarrow> bool option" where
  "find_needed_chunks a chunk_origin dim =
     (if \<not> (dim < length (array_dims a) \<and> dim < length (chunk_dimension_sizes a) \<and> dim < length chunk_origin) then None
      else
        let thisDim = array_dims a ! dim; origin = chunk_origin ! dim; shape = chunk_dimension_sizes a ! dim
        in if dim_start thisDim > u64 (origin + shape) \<or> dim_stop thisDim < origin then Some False
           else
             let chunk_start = get_chunk_start thisDim (u32 origin)
             in if chunk_start > shape then Some False
                else
                  let chunk_end = sub64 (end_element thisDim origin shape) origin
                  in if dim = length (chunk_dimension_sizes a) - 1 then Some True
                     else first_true (\<lambda>chunk_index. find_needed_chunks a chunk_origin (dim + 1))
                            (counters (u32 chunk_start) chunk_end (dim_stride thisDim)))"
  by pat_completeness auto
termination
  by (relation "measure (\<lambda>(a, cor, dim). length (chunk_dimension_sizes a) - dim)") auto

definition copy_run ::
  "dmrpp_array \<Rightarrow> 'b list \<Rightarrow> nat list \<Rightarrow> nat list \<Rightarrow> nat list \<Rightarrow> (nat \<Rightarrow> nat) \<Rightarrow> nat \<Rightarrow> 'b list \<Rightarrow> 'b list option" where
  "copy_run a rbuf target_element_address chunk_element_address constrained_array_shape narrow bytes t =
     Option.bind (get_index target_element_address constrained_array_shape) (\<lambda>ti.
     Option.bind (get_index chunk_element_address (chunk_dimension_sizes a)) (\<lambda>ci.
       memcpy t (narrow (u64 (ti * elem_width a))) rbuf (narrow (u64 (ci * elem_width a))) bytes))"

function insert_chunk ::
  "dmrpp_array \<Rightarrow> nat list \<Rightarrow> nat list \<Rightarrow> 'b list \<Rightarrow> nat \<Rightarrow> nat list \<Rightarrow> nat list \<Rightarrow> 'b list \<Rightarrow> 'b list option" where
  "insert_chunk a constrained_array_shape chunk_origin rbuf dim target_element_address chunk_element_address t =
     (if \<not> (dim < length (array_dims a) \<and> dim < length (chunk_dimension_sizes a) \<and> dim < length chunk_origin
            \<and> dim < length target_element_address \<and> dim < length chunk_element_address) then None
      else
        let thisDim = array_dims a ! dim; origin = chunk_origin ! dim;
            chunk_start = get_chunk_start thisDim (u32 origin);
            e = end_element thisDim origin (chunk_dimension_sizes a ! dim);
            chunk_end = sub64 e origin;
            target = (\<lambda>i. target_element_address[dim := sub64 (u64 (i + origin)) (dim_start thisDim) div dim_stride thisDim]);
            source = (\<lambda>i. chunk_element_address[dim := i])
        in if dim = length (chunk_dimension_sizes a) - 1 then
             if dim_stride thisDim = 1 then
               (let start_element = u64 (origin + chunk_start)
                in copy_run a rbuf (target_element_address[dim := sub64 start_element (dim_start thisDim)]) (source chunk_start)
                     constrained_array_shape id (u64 (u64 (sub64 e start_element + 1) * elem_width a)) t)
             else
               for_each (\<lambda>i. copy_run a rbuf (target i) (source i) constrained_array_shape u32 (elem_width a))
                 (counters (u32 chunk_start) chunk_end (dim_stride thisDim)) t
           else
             for_each (\<lambda>i. insert_chunk a constrained_array_shape chunk_origin rbuf (dim + 1) (target i) (source i))
               (counters (u32 chunk_start) chunk_end (dim_stride thisDim)) t)"
  by pat_completeness auto
termination
  by (relation "measure (\<lambda>(a, cas, cor, rbuf, dim, tea, cea, t). length (chunk_dimension_sizes a) - dim)") auto

declare insert_chunk_unconstrained.simps [simp del] find_needed_chunks.simps [simp del] insert_chunk.simps [simp del]

subsection \<open>What a constraint asks for\<close>

definition wf_dim :: "dimension \<Rightarrow> bool" where
  "wf_dim d \<longleftrightarrow> 0 < dim_stride d \<and> dim_stride d < 2 ^ 31 \<and> dim_start d \<le> dim_stop d \<and> dim_stop d < dim_size d \<and> dim_size d < 2 ^ 31
     \<and> dim_c_size d = (dim_stop d - dim_start d) div dim_stride d + 1"

text \<open>The place in the whole array of an element of the constrained one.\<close>

definition source_coord :: "dimension \<Rightarrow> nat \<Rightarrow> nat" where
  "source_coord d y = dim_start d + y * dim_stride d"

definition source_of :: "dimension list \<Rightarrow> nat list \<Rightarrow> nat list" where
  "source_of ds y = map2 source_coord ds y"

abbreviation sizes :: "dimension list \<Rightarrow> nat list" where
  "sizes ds \<equiv> map dim_size ds"

abbreviation c_sizes :: "dimension list \<Rightarrow> nat list" where
  "c_sizes ds \<equiv> map dim_c_size ds"

lemma source_of_simps [simp]:
  "source_of [] y = []" "source_of ds [] = []" "source_of (d # ds) (i # y) = source_coord d i # source_of ds y"
  by (simp_all add: source_of_def)

lemma source_coord_stop: "wf_dim d \<Longrightarrow> y < dim_c_size d \<Longrightarrow> source_coord d y \<le> dim_stop d"
proof -
  assume d: "wf_dim d" "y < dim_c_size d"
  then have "y \<le> (dim_stop d - dim_start d) div dim_stride d" by (simp add: wf_dim_def)
  then have "y * dim_stride d \<le> dim_stop d - dim_start d"
    using d(1) by (simp add: wf_dim_def less_eq_div_iff_mult_less_eq)
  then show ?thesis using d(1) unfolding wf_dim_def source_coord_def by linarith
qed

lemma source_of_bound:
  "list_all wf_dim ds \<Longrightarrow> list_all2 (<) y (c_sizes ds) \<Longrightarrow> list_all2 (<) (source_of ds y) (sizes ds)"
proof (induction ds arbitrary: y)
  case Nil
  then show ?case by simp
next
  case (Cons d ds)
  then obtain i y' where y: "y = i # y'" "i < dim_c_size d" "list_all2 (<) y' (c_sizes ds)"
    by (auto simp: list_all2_Cons2)
  have "source_coord d i < dim_size d"
    using source_coord_stop [of d i] Cons.prems(1) y(2) by (simp add: wf_dim_def)
  then show ?case using Cons y by simp
qed

text \<open>The place of an element from its offset.\<close>

fun coords :: "nat \<Rightarrow> nat list \<Rightarrow> nat list" where
  "coords k [] = []"
| "coords k (n # ns) = k div prod_list ns # coords (k mod prod_list ns) ns"

lemma coords_row_major: "list_all2 (<) y ns \<Longrightarrow> coords (row_major y ns) ns = y"
proof (induction rule: list_all2_induct)
  case Nil
  then show ?case by simp
next
  case (Cons i y n ns)
  then show ?case using row_major_bound [OF Cons(2)] by (simp add: div_add1_eq)
qed

lemma row_major_coords: "k < prod_list ns \<Longrightarrow> list_all2 (<) (coords k ns) ns \<and> row_major (coords k ns) ns = k"
proof (induction ns arbitrary: k)
  case Nil
  then show ?case by simp
next
  case (Cons n ns)
  then have p: "0 < prod_list ns" by (cases "prod_list ns") auto
  then have "k div prod_list ns < n" using Cons.prems by (simp add: less_mult_imp_div_less)
  then show ?case using Cons.IH [of "k mod prod_list ns"] p by simp
qed

text \<open>Constrained array, seen as a function from offsets to elements of the whole one.\<close>

definition hyperslab :: "nat \<Rightarrow> dimension list \<Rightarrow> 'b list \<Rightarrow> nat \<Rightarrow> 'b list" where
  "hyperslab w ds whole k = elem w whole (row_major (source_of ds (coords k (c_sizes ds))) (sizes ds))"

subsection \<open>Data in one piece: correctness\<close>

lemma for_each_steps:
  assumes "\<forall>k < n. \<forall>t. length t = l \<longrightarrow>
      (\<exists>t'. f (g k) (ti + k * m, t) = Some (ti + (k + 1) * m, t') \<and> filled w F {ti + k * m ..< ti + (k + 1) * m} t t')"
    and "length t = l"
  shows "\<exists>t'. for_each f (map g [0 ..< n]) (ti, t) = Some (ti + n * m, t') \<and> filled w F {ti ..< ti + n * m} t t'"
  using assms(1)
proof (induction n)
  case 0
  then show ?case by (simp add: filled_refl)
next
  case (Suc n)
  then obtain t1 where t1: "for_each f (map g [0 ..< n]) (ti, t) = Some (ti + n * m, t1)" "filled w F {ti ..< ti + n * m} t t1"
    by auto
  then have "length t1 = l" using assms(2) by (simp add: filled_length)
  then obtain t2 where t2: "f (g n) (ti + n * m, t1) = Some (ti + (n + 1) * m, t2)"
      "filled w F {ti + n * m ..< ti + (n + 1) * m} t1 t2"
    using Suc.prems by blast
  have "{ti ..< ti + n * m} \<union> {ti + n * m ..< ti + (n + 1) * m} = {ti ..< ti + Suc n * m}" by auto
  then show ?case using t1 t2 filled_trans [OF t1(2) t2(2)] by (simp add: for_each_append)
qed

lemma copy_value_filled:
  assumes "(ti + 1) * w \<le> length t" and "(si + 1) * w \<le> length src" and "elem w src si = F ti"
    and "length t < 2 ^ 64" and "length src < 2 ^ 64"
  shows "\<exists>t'. copy_value w src (si * w) (ti, t) = Some (ti + 1, t') \<and> filled w F {ti ..< ti + 1} t t'"
proof -
  have "\<exists>t'. memcpy t (ti * w) src (si * w) (1 * w) = Some t' \<and> filled w F {ti ..< ti + 1} t t'"
    using assms by (intro memcpy_filled) auto
  moreover have "ti * w < 2 ^ 64"
    using assms by simp
  ultimately show ?thesis by (auto simp: copy_value_def)
qed

lemma counters_map: "wf_dim d \<Longrightarrow> counters (dim_start d) (dim_stop d) (dim_stride d) = map (source_coord d) [0 ..< dim_c_size d]"
  by (simp add: counters_def source_coord_def wf_dim_def)

text \<open>
  The recursion on the dimensions \<open>ds\<close> that follow those of the address \<open>sub\<close>; \<open>F\<close> gives the elements the target is to
  have.
\<close>

definition icc_pre ::
  "nat \<Rightarrow> 'b list \<Rightarrow> dimension list \<Rightarrow> dimension list \<Rightarrow> nat list \<Rightarrow> nat \<Rightarrow> 'b list \<Rightarrow> (nat \<Rightarrow> 'b list) \<Rightarrow> bool" where
  "icc_pre w src ps ds sub ti t F \<longleftrightarrow> list_all wf_dim ds \<and> list_all2 (<) sub (sizes ps)
     \<and> prod_list (sizes (ps @ ds)) * w \<le> length src \<and> prod_list (sizes (ps @ ds)) < 2 ^ 64
     \<and> (dim_stride (last ds) = 1 \<or> length src \<le> 2 ^ 32)
     \<and> length src < 2 ^ 64 \<and> length t < 2 ^ 64 \<and> (ti + prod_list (c_sizes ds)) * w \<le> length t
     \<and> (\<forall>y. list_all2 (<) y (c_sizes ds) \<longrightarrow> F (ti + row_major y (c_sizes ds)) = elem w src (row_major (sub @ source_of ds y) (sizes (ps @ ds))))"

lemma icc_index:
  assumes "icc_pre w src ps ds sub ti t F" and "list_all2 (<) x (sizes ds)" and "x \<noteq> []"
  shows "get_index (sub @ x) (sizes (ps @ ds)) = Some (row_major (sub @ x) (sizes (ps @ ds)))"
    and "row_major (sub @ x) (sizes (ps @ ds)) < prod_list (sizes (ps @ ds))"
proof -
  have b: "list_all2 (<) (sub @ x) (sizes (ps @ ds))"
    using assms(1,2) by (simp add: icc_pre_def list_all2_appendI)
  show "row_major (sub @ x) (sizes (ps @ ds)) < prod_list (sizes (ps @ ds))"
    by (rule row_major_bound [OF b])
  have "prod_list (sizes (ps @ ds)) < 2 ^ 64" using assms(1) by (simp add: icc_pre_def)
  then show "get_index (sub @ x) (sizes (ps @ ds)) = Some (row_major (sub @ x) (sizes (ps @ ds)))"
    using b assms(3) by (intro get_index_row_major) auto
qed

lemma scaled_le: "a < b \<Longrightarrow> b * w \<le> n \<Longrightarrow> (a + 1) * w \<le> (n::nat)"
  by (metis Suc_eq_plus1 Suc_leI le_trans mult_le_mono1)

lemma icc_copy:
  assumes pre: "icc_pre w src ps [d] sub ti t F" and k: "k < dim_c_size d" and "length t' = length t"
    and si: "si = row_major (sub @ [source_coord d k]) (sizes (ps @ [d]))"
  shows "\<exists>t''. copy_value w src (si * w) (ti + k, t') = Some (ti + k + 1, t'') \<and> filled w F {ti + k ..< ti + k + 1} t' t''"
proof (rule copy_value_filled)
  have "source_coord d k < dim_size d"
    using source_coord_stop [of d k] pre k by (simp add: icc_pre_def wf_dim_def)
  then have "si < prod_list (sizes (ps @ [d]))"
    using icc_index(2) [OF pre, of "[source_coord d k]"] si by simp
  then show "(si + 1) * w \<le> length src"
    using pre by (intro scaled_le [of si "prod_list (sizes (ps @ [d]))"]) (auto simp: icc_pre_def)
  have "(ti + dim_c_size d) * w \<le> length t" using pre by (simp add: icc_pre_def)
  then show "(ti + k + 1) * w \<le> length t'"
    using k assms(3) by (intro scaled_le [of _ "ti + dim_c_size d"]) simp_all
  show "elem w src si = F (ti + k)"
    using pre k si by (auto simp: icc_pre_def dest!: spec [of _ "[k]"])
  show "length t' < 2 ^ 64" "length src < 2 ^ 64" using pre assms(3) by (simp_all add: icc_pre_def)
qed

lemma icc_last:
  assumes pre: "icc_pre w src ps [d] sub ti t F"
  shows "\<exists>t'. insert_constrained_contiguous w src (sizes (ps @ [d])) [d] sub (ti, t) = Some (ti + dim_c_size d, t')
     \<and> filled w F {ti ..< ti + dim_c_size d} t t'"
proof -
  let ?shape = "sizes (ps @ [d])"
  have d: "wf_dim d" using pre by (simp add: icc_pre_def)
  have idx: "get_index (sub @ [i]) ?shape = Some (row_major (sub @ [i]) ?shape)" "(row_major (sub @ [i]) ?shape + 1) * w \<le> length src"
    if "i < dim_size d" for i
    using icc_index [OF pre, of "[i]"] that pre scaled_le [of "row_major (sub @ [i]) ?shape" "prod_list ?shape" w "length src"]
    by (simp_all add: icc_pre_def)
  have coord: "source_coord d k < dim_size d" if "k < dim_c_size d" for k
    using source_coord_stop [OF d that] d by (simp add: wf_dim_def)
  show ?thesis
  proof (cases "dim_stride d = 1")
    case True
    let ?si = "row_major (sub @ [dim_start d]) ?shape"
    have len: "length sub = length (sizes ps)" using pre by (auto simp: icc_pre_def list_all2_lengthD)
    have row: "row_major (sub @ [i]) (sizes ps @ [dim_size d]) = row_major sub (sizes ps) * dim_size d + i" for i
      using row_major_append [OF len, of "[i]" "[dim_size d]"] by simp
    have c: "counters ?si (row_major (sub @ [dim_stop d]) ?shape) 1 = map (\<lambda>k. ?si + k) [0 ..< dim_c_size d]"
      using d True by (simp add: counters_def row wf_dim_def)
    let ?g = "\<lambda>source_index. copy_value w src (u64 (source_index * w))"
    have "\<exists>t'. for_each ?g (map (\<lambda>k. ?si + k) [0 ..< dim_c_size d]) (ti, t) = Some (ti + dim_c_size d * 1, t')
        \<and> filled w F {ti ..< ti + dim_c_size d * 1} t t'"
    proof (rule for_each_steps [OF _ refl], intro allI impI)
      fix k and t1 :: "'a list" assume k: "k < dim_c_size d" "length t1 = length t"
      moreover have si: "?si + k = row_major (sub @ [source_coord d k]) ?shape"
        using True by (simp add: row source_coord_def)
      moreover have "(?si + k) * w < 2 ^ 64 \<or> w = 0" using idx(2) [OF coord [OF k(1)]] pre unfolding si by (auto simp: icc_pre_def)
      ultimately show "\<exists>t'. ?g (?si + k) (ti + k * 1, t1) = Some (ti + (k + 1) * 1, t')
          \<and> filled w F {ti + k * 1 ..< ti + (k + 1) * 1} t1 t'"
        using icc_copy [OF pre, of k t1] by auto
    qed
    then show ?thesis
      using True d idx [of "dim_start d"] idx [of "dim_stop d"] c by (simp add: wf_dim_def)
  next
    case False
    have narrow: "u32 (u32 (row_major (sub @ [source_coord d k]) ?shape) * w) = row_major (sub @ [source_coord d k]) ?shape * w"
      if "k < dim_c_size d" for k
    proof (cases "w = 0")
      case w: False
      have "length src \<le> 2 ^ 32" using pre False by (simp add: icc_pre_def)
      then have "row_major (sub @ [source_coord d k]) ?shape * w < 2 ^ 32" using idx(2) [OF coord [OF that]] w by (simp add: algebra_simps)
      then show ?thesis by (simp add: u32_def mod_mult_left_eq)
    qed (simp add: u32_def)
    let ?f = "\<lambda>i s. Option.bind (get_index (sub @ [i]) ?shape) (\<lambda>source_index. copy_value w src (u32 (u32 source_index * w)) s)"
    have "\<exists>t'. for_each ?f (map (source_coord d) [0 ..< dim_c_size d]) (ti, t) = Some (ti + dim_c_size d * 1, t')
        \<and> filled w F {ti ..< ti + dim_c_size d * 1} t t'"
    proof (rule for_each_steps [OF _ refl], intro allI impI)
      fix k and t1 :: "'a list" assume k: "k < dim_c_size d" "length t1 = length t"
      then show "\<exists>t'. ?f (source_coord d k) (ti + k * 1, t1) = Some (ti + (k + 1) * 1, t')
          \<and> filled w F {ti + k * 1 ..< ti + (k + 1) * 1} t1 t'"
        using icc_copy [OF pre, of k t1] idx(1) [OF coord [OF k(1)]] narrow [OF k(1)] by simp
    qed
    then show ?thesis using False counters_map [OF d] by simp
  qed
qed

lemma icc_filled:
  assumes "icc_pre w src ps ds sub ti t F" and "ds \<noteq> []"
  shows "\<exists>t'. insert_constrained_contiguous w src (sizes (ps @ ds)) ds sub (ti, t) = Some (ti + prod_list (c_sizes ds), t')
     \<and> filled w F {ti ..< ti + prod_list (c_sizes ds)} t t'"
  using assms
proof (induction ds arbitrary: ps sub ti t)
  case Nil
  then show ?case by simp
next
  case (Cons d ds)
  show ?case
  proof (cases "ds = []")
    case True
    then show ?thesis
      using icc_last [of w src ps d sub ti t F] Cons.prems(1) by (simp del: insert_constrained_contiguous.simps)
  next
    case False
    let ?shape = "sizes (ps @ d # ds)"
    let ?m = "prod_list (c_sizes ds)"
    let ?f = "\<lambda>i s. insert_constrained_contiguous w src ?shape ds (sub @ [i]) s"
    have d: "wf_dim d" using Cons.prems(1) by (simp add: icc_pre_def)
    have "\<exists>t'. for_each ?f (map (source_coord d) [0 ..< dim_c_size d]) (ti, t) = Some (ti + dim_c_size d * ?m, t')
        \<and> filled w F {ti ..< ti + dim_c_size d * ?m} t t'"
    proof (rule for_each_steps [OF _ refl], intro allI impI)
      fix k and t1 :: "'a list" assume k: "k < dim_c_size d" "length t1 = length t"
      have "k * ?m + ?m \<le> dim_c_size d * ?m" using k(1) by (metis Suc_leI add.commute mult_Suc mult_le_mono1)
      then have "(ti + k * ?m + ?m) * w \<le> (ti + dim_c_size d * ?m) * w" by (intro mult_le_mono1) simp
      also have "\<dots> \<le> length t1" using Cons.prems(1) k(2) by (simp add: icc_pre_def)
      finally have "(ti + k * ?m + ?m) * w \<le> length t1" .
      moreover have "source_coord d k < dim_size d"
        using source_coord_stop [OF d k(1)] d by (simp add: wf_dim_def)
      moreover have "F (ti + k * ?m + row_major y (c_sizes ds))
          = elem w src (row_major ((sub @ [source_coord d k]) @ source_of ds y) (sizes ((ps @ [d]) @ ds)))"
        if "list_all2 (<) y (c_sizes ds)" for y
      proof -
        have "list_all2 (<) (k # y) (c_sizes (d # ds))" using k(1) that by simp
        then have "F (ti + row_major (k # y) (c_sizes (d # ds)))
            = elem w src (row_major (sub @ source_of (d # ds) (k # y)) (sizes (ps @ d # ds)))"
          using Cons.prems(1) unfolding icc_pre_def by blast
        then show ?thesis by (simp add: add.assoc)
      qed
      ultimately have "icc_pre w src (ps @ [d]) ds (sub @ [source_coord d k]) (ti + k * ?m) t1 F"
        using Cons.prems(1) k False unfolding icc_pre_def by (simp add: list_all2_appendI)
      then show "\<exists>t'. ?f (source_coord d k) (ti + k * ?m, t1) = Some (ti + (k + 1) * ?m, t')
          \<and> filled w F {ti + k * ?m ..< ti + (k + 1) * ?m} t1 t'"
        using Cons.IH [of "ps @ [d]" "sub @ [source_coord d k]" "ti + k * ?m" t1] False by (simp add: algebra_simps)
    qed
    then show ?thesis using False counters_map [OF d] by simp
  qed
qed

text \<open>The abstract result of every way to read a constrained array.\<close>

definition is_hyperslab :: "nat \<Rightarrow> dimension list \<Rightarrow> 'b list \<Rightarrow> 'b list \<Rightarrow> bool" where
  "is_hyperslab w ds whole t \<longleftrightarrow> length t = prod_list (c_sizes ds) * w
     \<and> (\<forall>y. list_all2 (<) y (c_sizes ds) \<longrightarrow>
          elem w t (row_major y (c_sizes ds)) = elem w whole (row_major (source_of ds y) (sizes ds)))"

lemma hyperslab_row_major:
  "list_all2 (<) y (c_sizes ds) \<Longrightarrow> hyperslab w ds whole (row_major y (c_sizes ds)) = elem w whole (row_major (source_of ds y) (sizes ds))"
  by (simp add: hyperslab_def coords_row_major)

lemma filled_hyperslab:
  assumes "filled w (hyperslab w ds whole) S t t'" and "length t = prod_list (c_sizes ds) * w"
    and "{..< prod_list (c_sizes ds)} \<subseteq> S"
  shows "is_hyperslab w ds whole t'"
  unfolding is_hyperslab_def
proof (intro conjI allI impI)
  show "length t' = prod_list (c_sizes ds) * w" using assms(1,2) by (simp add: filled_length)
  fix y assume y: "list_all2 (<) y (c_sizes ds)"
  then have k: "row_major y (c_sizes ds) < prod_list (c_sizes ds)" by (rule row_major_bound)
  then have "(row_major y (c_sizes ds) + 1) * w \<le> length t" using assms(2) by (intro scaled_le) auto
  then have "elem w t' (row_major y (c_sizes ds)) = hyperslab w ds whole (row_major y (c_sizes ds))"
    using assms(1,3) k by (auto simp: filled_def)
  then show "elem w t' (row_major y (c_sizes ds)) = elem w whole (row_major (source_of ds y) (sizes ds))"
    using hyperslab_row_major [OF y] by simp
qed

text \<open>
  Reading constrained data that are stored in one piece gives exactly the elements that start, stop and stride select, in
  order; no copy leaves its buffer.  With a stride in the last dimension the array may have at most \<open>2 ^ 32\<close> bytes, since
  the offset in the source is computed with \<^verbatim>\<open>unsigned int\<close>.
\<close>

lemma contiguous_correct:
  assumes "list_all wf_dim ds" and "ds \<noteq> []" and "length src = prod_list (sizes ds) * w" and "prod_list (sizes ds) < 2 ^ 64"
    and "dim_stride (last ds) = 1 \<or> length src \<le> 2 ^ 32" and "length src < 2 ^ 64" and "length t = prod_list (c_sizes ds) * w" and "length t < 2 ^ 64"
  shows "\<exists>t'. insert_constrained_contiguous w src (sizes ds) ds [] (0, t) = Some (prod_list (c_sizes ds), t')
     \<and> is_hyperslab w ds src t'"
proof -
  have "icc_pre w src [] ds [] 0 t (hyperslab w ds src)"
    using assms by (simp add: icc_pre_def hyperslab_row_major)
  from icc_filled [OF this assms(2)] obtain t' where
    "insert_constrained_contiguous w src (sizes ds) ds [] (0, t) = Some (prod_list (c_sizes ds), t')"
    "filled w (hyperslab w ds src) {0 ..< prod_list (c_sizes ds)} t t'"
    by auto
  moreover from this(2) have "is_hyperslab w ds src t'"
    by (rule filled_hyperslab [OF _ assms(7)]) auto
  ultimately show ?thesis by blast
qed

subsection \<open>Whole chunks: correctness\<close>

text \<open>The elements of the array that a chunk holds.\<close>

fun in_box :: "nat list \<Rightarrow> nat list \<Rightarrow> nat list \<Rightarrow> nat list \<Rightarrow> bool" where
  "in_box [] [] [] [] = True"
| "in_box (b # bs) (c # cs) (n # ns) (x # xs) \<longleftrightarrow> b \<le> x \<and> x < b + c \<and> x < n \<and> in_box bs cs ns xs"
| "in_box _ _ _ _ = False"

lemma in_box_shape: "in_box bs cs ns x \<Longrightarrow> list_all2 (<) x ns"
  by (induction bs cs ns x rule: in_box.induct) auto

lemma in_box_chunk: "in_box bs cs ns x \<Longrightarrow> list_all2 (<) (map2 (-) x bs) cs"
  by (induction bs cs ns x rule: in_box.induct) auto

definition rest_region :: "nat list \<Rightarrow> nat list \<Rightarrow> nat list \<Rightarrow> nat \<Rightarrow> nat set" where
  "rest_region bs cs ns off = {off + row_major x ns | x. in_box bs cs ns x}"

lemma rest_region_Cons:
  "rest_region (b # bs) (c # cs) (n # ns) off
   = (\<Union>x \<in> {b ..< min (b + c) n}. rest_region bs cs ns (off + prod_list ns * x))"
proof (intro set_eqI iffI)
  fix k assume "k \<in> rest_region (b # bs) (c # cs) (n # ns) off"
  then obtain y where y: "k = off + row_major y (n # ns)" "in_box (b # bs) (c # cs) (n # ns) y"
    by (auto simp: rest_region_def)
  then obtain x z where "y = x # z" by (cases y) auto
  then have "x \<in> {b ..< min (b + c) n}" "k \<in> rest_region bs cs ns (off + prod_list ns * x)"
    using y by (auto simp: rest_region_def mult.commute)
  then show "k \<in> (\<Union>x \<in> {b ..< min (b + c) n}. rest_region bs cs ns (off + prod_list ns * x))" by blast
next
  fix k assume "k \<in> (\<Union>x \<in> {b ..< min (b + c) n}. rest_region bs cs ns (off + prod_list ns * x))"
  then obtain x z where "x \<in> {b ..< min (b + c) n}" "in_box bs cs ns z" "k = off + prod_list ns * x + row_major z ns"
    by (auto simp: rest_region_def)
  then have "k = off + row_major (x # z) (n # ns)" "in_box (b # bs) (c # cs) (n # ns) (x # z)" by (simp_all add: mult.commute)
  then show "k \<in> rest_region (b # bs) (c # cs) (n # ns) off" unfolding rest_region_def by blast
qed

lemma rest_region_Nil: "rest_region [] [] [] off = {off}"
proof -
  have "in_box [] [] [] x \<longleftrightarrow> x = []" for x by (cases x) simp_all
  then show ?thesis by (simp add: rest_region_def)
qed

lemma end_element_min:
  assumes "b < n" and "0 < c" and "dim_stop d = n - 1" and "b + c < 2 ^ 64" and "n < 2 ^ 64"
  shows "end_element d b c = min (b + c) n - 1" and "sub64 (end_element d b c) b + 1 = min (b + c) n - b"
proof -
  show e: "end_element d b c = min (b + c) n - 1"
    using assms by (auto simp: end_element_def sub64_small Let_def)
  then show "sub64 (end_element d b c) b + 1 = min (b + c) n - b"
    using assms by (simp add: sub64_small)
qed

text \<open>An array that is not constrained, and a chunk that begins inside of it; it may stick out at the end.\<close>

definition whole_dim :: "dimension \<Rightarrow> bool" where
  "whole_dim d \<longleftrightarrow> wf_dim d \<and> dim_c_size d = dim_size d"

lemma whole_dimD:
  assumes "whole_dim d"
  shows "wf_dim d" and "dim_start d = 0" and "dim_stop d = dim_size d - 1" and "dim_size d = 1 \<or> dim_stride d = 1"
proof -
  show wf: "wf_dim d" using assms by (simp add: whole_dim_def)
  let ?q = "(dim_stop d - dim_start d) div dim_stride d"
  have d: "0 < dim_stride d" "dim_start d \<le> dim_stop d" "dim_stop d < dim_size d" "?q + 1 = dim_size d"
    using assms by (auto simp: whole_dim_def wf_dim_def)
  have "?q \<le> dim_stop d - dim_start d" by (rule div_le_dividend)
  then show "dim_start d = 0" "dim_stop d = dim_size d - 1" using d by linarith+
  show "dim_size d = 1 \<or> dim_stride d = 1"
  proof (rule ccontr)
    assume n: "\<not> (dim_size d = 1 \<or> dim_stride d = 1)"
    then have "0 < dim_stop d - dim_start d" using d by (cases "dim_stop d - dim_start d") auto
    then have "?q < dim_stop d - dim_start d" using n d(1) by (intro div_less_dividend) auto
    then show False using d by linarith
  qed
qed

definition chunk_fits :: "dmrpp_array \<Rightarrow> nat list \<Rightarrow> bool" where
  "chunk_fits a bs \<longleftrightarrow> array_dims a \<noteq> [] \<and> length (chunk_dimension_sizes a) = length (array_dims a) \<and> 0 < elem_width a
     \<and> 0 \<notin> set (chunk_dimension_sizes a) \<and> (\<forall>c \<in> set (chunk_dimension_sizes a). c < 2 ^ 31)
     \<and> prod_list (chunk_dimension_sizes a) * elem_width a < 2 ^ 64 \<and> prod_list (sizes (array_dims a)) * elem_width a < 2 ^ 64
     \<and> length bs = length (array_dims a) \<and> (\<forall>i < length bs. bs ! i \<le> dim_stop (array_dims a ! i) \<and> dim_stop (array_dims a ! i) < 2 ^ 31)"

definition icu_pre :: "dmrpp_array \<Rightarrow> nat list \<Rightarrow> 'b list \<Rightarrow> nat \<Rightarrow> nat \<Rightarrow> nat \<Rightarrow> 'b list \<Rightarrow> (nat \<Rightarrow> 'b list) \<Rightarrow> bool" where
  "icu_pre a bs rbuf dim aoff coff t F \<longleftrightarrow>
     (aoff + prod_list (drop dim (sizes (array_dims a)))) * elem_width a \<le> length t \<and> length t < 2 ^ 64
     \<and> (coff + prod_list (drop dim (chunk_dimension_sizes a))) * elem_width a \<le> length rbuf \<and> length rbuf < 2 ^ 64
     \<and> (\<forall>x. in_box (drop dim bs) (drop dim (chunk_dimension_sizes a)) (drop dim (sizes (array_dims a))) x \<longrightarrow>
          F (aoff + row_major x (drop dim (sizes (array_dims a))))
          = elem (elem_width a) rbuf (coff + row_major (map2 (-) x (drop dim bs)) (drop dim (chunk_dimension_sizes a))))"

lemma scaled_less: "0 < w \<Longrightarrow> x * w \<le> n \<Longrightarrow> n < m \<Longrightarrow> x < (m::nat)"
  by (meson le_less_trans mult_less_left)

lemma icu_dim:
  assumes "chunk_fits a bs" and "list_all whole_dim (array_dims a)" and "dim < length (array_dims a)"
  defines "n \<equiv> dim_size (array_dims a ! dim)" and "c \<equiv> chunk_dimension_sizes a ! dim"
  shows "bs ! dim < n" and "0 < c"
    and "sub64 (end_element (array_dims a ! dim) (bs ! dim) c) (bs ! dim) + 1 = min (bs ! dim + c) n - bs ! dim"
proof -
  have d: "whole_dim (array_dims a ! dim)" using assms(2,3) by (simp add: list_all_length)
  show b: "bs ! dim < n" and c: "0 < c"
    using assms(1,3) d by (auto simp: chunk_fits_def whole_dim_def wf_dim_def n_def c_def in_set_conv_nth)
  have "n < 2 ^ 31" using d by (simp add: whole_dim_def wf_dim_def n_def)
  moreover have "c < 2 ^ 31" using assms(1,3) by (simp add: chunk_fits_def c_def)
  ultimately show "sub64 (end_element (array_dims a ! dim) (bs ! dim) c) (bs ! dim) + 1 = min (bs ! dim + c) n - bs ! dim"
    using b c whole_dimD [OF d] by (intro end_element_min(2)) (auto simp: n_def)
qed

lemma icu_last:
  assumes fits: "chunk_fits a bs" and whole: "list_all whole_dim (array_dims a)" and dim: "Suc dim = length (array_dims a)"
    and pre: "icu_pre a bs rbuf dim aoff coff t F"
  shows "\<exists>t'. insert_chunk_unconstrained a rbuf dim aoff (sizes (array_dims a)) coff (chunk_dimension_sizes a) bs t = Some t'
     \<and> filled (elem_width a) F (rest_region (drop dim bs) (drop dim (chunk_dimension_sizes a)) (drop dim (sizes (array_dims a))) aoff) t t'"
proof -
  let ?w = "elem_width a" and ?b = "bs ! dim" and ?c = "chunk_dimension_sizes a ! dim" and ?n = "dim_size (array_dims a ! dim)"
  let ?k = "min (?b + ?c) ?n - ?b"
  have w: "0 < ?w" and len: "length bs = Suc dim" "length (chunk_dimension_sizes a) = Suc dim"
    using fits dim by (simp_all add: chunk_fits_def)
  have drops: "drop dim bs = [?b]" "drop dim (chunk_dimension_sizes a) = [?c]" "drop dim (sizes (array_dims a)) = [?n]"
    using len dim by (simp_all add: drop_map flip: Cons_nth_drop_Suc)
  note b = icu_dim [OF fits whole, of dim]
  have kc: "?k \<le> ?c" "?b + ?k \<le> ?n" using b(1) dim by auto
  have "(aoff + ?n) * ?w \<le> length t" "(coff + ?c) * ?w \<le> length rbuf"
    using pre by (simp_all add: icu_pre_def drops)
  moreover have "aoff + ?b + ?k \<le> aoff + ?n" "coff + ?k \<le> coff + ?c" using kc by simp_all
  ultimately have at: "(aoff + ?b + ?k) * ?w \<le> length t" "(coff + ?k) * ?w \<le> length rbuf"
    by (meson le_trans mult_le_mono1)+
  have F: "elem ?w rbuf (coff + j) = F (aoff + ?b + j)" if "j < ?k" for j
  proof -
    have "in_box [?b] [?c] [?n] [?b + j]" using less_le_trans [OF that kc(1)] kc(2) that by simp
    then have "F (aoff + row_major [?b + j] [?n]) = elem ?w rbuf (coff + row_major (map2 (-) [?b + j] [?b]) [?c])"
      using pre unfolding icu_pre_def drops by blast
    then show ?thesis by (simp add: add.assoc)
  qed
  have "\<exists>t'. memcpy t ((aoff + ?b) * ?w) rbuf (coff * ?w) (?k * ?w) = Some t' \<and> filled ?w F {aoff + ?b ..< aoff + ?b + ?k} t t'"
    using at F by (intro memcpy_filled) auto
  moreover have "{aoff + ?b ..< aoff + ?b + ?k} = rest_region [?b] [?c] [?n] aoff"
  proof -
    have e: "aoff + ?b + ?k = min (?b + ?c) ?n + aoff" "aoff + ?b = ?b + aoff" using b(1) dim by simp_all
    have "{aoff + ?b ..< aoff + ?b + ?k} = (+) aoff ` {?b ..< min (?b + ?c) ?n}"
      unfolding image_add_atLeastLessThan e(1) by (simp only: e(2))
    also have "\<dots> = rest_region [?b] [?c] [?n] aoff"
      unfolding rest_region_Cons rest_region_Nil by (simp only: prod_list.Nil mult_1 UNION_singleton_eq_range)
    finally show ?thesis .
  qed
  moreover have "x * ?w < 2 ^ 64" "x < 2 ^ 64" if "x \<in> {aoff + ?b, coff, ?k}" for x
  proof -
    have "x \<le> aoff + ?b + ?k \<or> x \<le> coff + ?k" using that by auto
    then have "x * ?w \<le> length t \<or> x * ?w \<le> length rbuf" using at by (meson le_trans mult_le_mono1)
    then show "x * ?w < 2 ^ 64" using pre by (auto simp: icu_pre_def)
    then show "x < 2 ^ 64" by (rule mult_less_left [OF w])
  qed
  moreover have "insert_chunk_unconstrained a rbuf dim aoff (sizes (array_dims a)) coff (chunk_dimension_sizes a) bs t
      = memcpy t (u64 (u64 (aoff + ?b) * ?w)) rbuf (u64 (coff * ?w)) (u64 (u64 ?k * ?w))"
    using b dim [symmetric] len by (simp add: insert_chunk_unconstrained.simps [of a rbuf dim] Let_def)
  ultimately show ?thesis by (simp add: drops)
qed

lemma chunk_shapes_small:
  assumes "chunk_fits a bs" and "list_all wf_dim (array_dims a)"
  shows "0 \<notin> set (sizes (array_dims a))" and "0 \<notin> set (chunk_dimension_sizes a)"
    and "prod_list (sizes (array_dims a)) < 2 ^ 64" and "prod_list (chunk_dimension_sizes a) < 2 ^ 64"
  using assms mult_less_left [of "elem_width a"] by (auto simp: chunk_fits_def list_all_iff wf_dim_def)

lemma icu_filled:
  assumes fits: "chunk_fits a bs" and whole: "list_all whole_dim (array_dims a)" and "dim < length (array_dims a)"
    and "icu_pre a bs rbuf dim aoff coff t F"
  shows "\<exists>t'. insert_chunk_unconstrained a rbuf dim aoff (sizes (array_dims a)) coff (chunk_dimension_sizes a) bs t = Some t'
     \<and> filled (elem_width a) F (rest_region (drop dim bs) (drop dim (chunk_dimension_sizes a)) (drop dim (sizes (array_dims a))) aoff) t t'"
  using assms(3,4)
proof (induction "length (array_dims a) - dim" arbitrary: dim aoff coff t)
  case 0
  then show ?case by simp
next
  case (Suc m)
  show ?case
  proof (cases "Suc dim = length (array_dims a)")
    case True
    then show ?thesis using icu_last [OF fits whole] Suc.prems by blast
  next
    case False
    let ?w = "elem_width a" and ?b = "bs ! dim" and ?c = "chunk_dimension_sizes a ! dim" and ?n = "dim_size (array_dims a ! dim)"
    let ?bs = "drop (Suc dim) bs" and ?cs = "drop (Suc dim) (chunk_dimension_sizes a)" and ?ns = "drop (Suc dim) (sizes (array_dims a))"
    let ?k = "min (?b + ?c) ?n - ?b" and ?A = "sizes (array_dims a)" and ?C = "chunk_dimension_sizes a"
    let ?f = "\<lambda>i. insert_chunk_unconstrained a rbuf (dim + 1) (u64 (aoff + prod_list ?ns * (i + ?b))) ?A
        (u64 (coff + prod_list ?cs * i)) ?C bs"
    have w: "0 < ?w" and len: "length bs = length (array_dims a)" "length ?C = length (array_dims a)"
      using fits by (simp_all add: chunk_fits_def)
    have next_dim: "Suc dim < length (array_dims a)" "dim \<noteq> length (array_dims a) - 1" using Suc.prems(1) False by simp_all
    have drops: "drop dim bs = ?b # ?bs" "drop dim ?C = ?c # ?cs" "drop dim ?A = ?n # ?ns"
      using len Suc.prems(1) by (simp_all add: drop_map flip: Cons_nth_drop_Suc)
    note b = icu_dim [OF fits whole Suc.prems(1)]
    have wf: "list_all wf_dim (array_dims a)" using whole by (simp add: list_all_iff whole_dim_def)
    note small = chunk_shapes_small [OF fits wf]
    have mult: "multiplier ?C dim = Some (prod_list ?cs)" "multiplier ?A dim = Some (prod_list ?ns)"
      using next_dim small len by (simp_all add: multiplier_prod)
    have range: "counters 0 (sub64 (end_element (array_dims a ! dim) ?b ?c) ?b) 1 = [0 ..< ?k]"
      using b(3) by (simp add: counters_def map_idI)
    have step: "\<exists>t'. ?f i t1 = Some t' \<and> filled ?w F (rest_region ?bs ?cs ?ns (aoff + prod_list ?ns * (i + ?b))) t1 t'"
      if i: "i < ?k" "length t1 = length t" for i t1
    proof -
      have ib: "i + ?b < ?n" "i < ?c" using i(1) by auto
      then have le: "aoff + prod_list ?ns * (i + ?b) + prod_list ?ns \<le> aoff + ?n * prod_list ?ns"
          "coff + prod_list ?cs * i + prod_list ?cs \<le> coff + ?c * prod_list ?cs"
        by (metis Suc_leI add.assoc add.commute add_left_mono mult.commute mult_Suc mult_le_mono1)+
      have at: "(aoff + prod_list ?ns * (i + ?b) + prod_list ?ns) * ?w \<le> length t"
          "(coff + prod_list ?cs * i + prod_list ?cs) * ?w \<le> length rbuf"
        using le Suc.prems(2) unfolding icu_pre_def drops prod_list.Cons by (meson le_trans mult_le_mono1)+
      have u: "u64 (aoff + prod_list ?ns * (i + ?b)) = aoff + prod_list ?ns * (i + ?b)"
          "u64 (coff + prod_list ?cs * i) = coff + prod_list ?cs * i"
        using scaled_less [OF w at(1), of "2 ^ 64"] scaled_less [OF w at(2), of "2 ^ 64"] Suc.prems(2)
        unfolding icu_pre_def by (intro u64_small; linarith)+
      have "F (aoff + prod_list ?ns * (i + ?b) + row_major x ?ns) = elem ?w rbuf (coff + prod_list ?cs * i + row_major (map2 (-) x ?bs) ?cs)"
        if "in_box ?bs ?cs ?ns x" for x
      proof -
        have "in_box (?b # ?bs) (?c # ?cs) (?n # ?ns) ((i + ?b) # x)" using that ib by simp
        then have "F (aoff + row_major ((i + ?b) # x) (?n # ?ns))
            = elem ?w rbuf (coff + row_major (map2 (-) ((i + ?b) # x) (?b # ?bs)) (?c # ?cs))"
          using Suc.prems(2) unfolding icu_pre_def drops by blast
        then show ?thesis by (simp add: add.assoc mult.commute)
      qed
      then have "icu_pre a bs rbuf (Suc dim) (aoff + prod_list ?ns * (i + ?b)) (coff + prod_list ?cs * i) t1 F"
        using at Suc.prems(2) i(2) by (simp add: icu_pre_def)
      then show ?thesis
        using Suc.hyps(1) [of "Suc dim"] Suc.hyps(2) next_dim by (simp add: u)
    qed
    have "\<exists>t'. for_each ?f [0 ..< ?k] t = Some t'
        \<and> filled ?w F (\<Union>i \<in> set [0 ..< ?k]. rest_region ?bs ?cs ?ns (aoff + prod_list ?ns * (i + ?b))) t t'"
      using step by (intro for_each_filled [of _ "length t"]) auto
    moreover have "(\<Union>i \<in> set [0 ..< ?k]. rest_region ?bs ?cs ?ns (aoff + prod_list ?ns * (i + ?b)))
        = rest_region (?b # ?bs) (?c # ?cs) (?n # ?ns) aoff"
    proof -
      have "{?b ..< min (?b + ?c) ?n} = (\<lambda>i. i + ?b) ` set [0 ..< ?k]"
        using b(1) by (simp add: image_add_atLeastLessThan')
      then show ?thesis unfolding rest_region_Cons by (simp only: image_image)
    qed
    moreover have "insert_chunk_unconstrained a rbuf dim aoff ?A coff ?C bs t = for_each ?f [0 ..< ?k] t"
      using next_dim len range mult by (simp add: insert_chunk_unconstrained.simps [of a rbuf dim] Let_def)
    ultimately show ?thesis by (simp add: drops)
  qed
qed

end
