(* ===== verification/Dmrpp_Slab.thy ===== *)
theory Dmrpp_Slab
  imports Dmrpp_Array
begin

text \<open>
  Constrained chunks of \<^verbatim>\<open>DmrppArray.cc\<close>: which elements of a chunk a constraint selects, that
  \<^const>\<open>find_needed_chunks\<close> skips no chunk with a selected element and that \<^const>\<open>insert_chunk\<close> puts exactly the selected
  ones where they belong.
\<close>

subsection \<open>One dimension\<close>

text \<open>The places of the constrained array whose source lies in a chunk.\<close>

definition wanted :: "dimension \<Rightarrow> nat \<Rightarrow> nat \<Rightarrow> nat set" where
  "wanted d b c = {y. y < dim_c_size d \<and> b \<le> source_coord d y \<and> source_coord d y < b + c}"

definition touches :: "dimension \<Rightarrow> nat \<Rightarrow> nat \<Rightarrow> bool" where
  "touches d b c \<longleftrightarrow> wf_dim d \<and> b \<le> dim_stop d \<and> dim_start d \<le> b + c \<and> 0 < c \<and> c < 2 ^ 31"

lemma first_multiple:
  assumes "(s::nat) < m" and "m dvd s + k"
  shows "s \<le> i \<and> m dvd i - s \<longleftrightarrow> m dvd i + k"
proof
  assume a: "s \<le> i \<and> m dvd i - s"
  then have "m dvd i - s" by simp
  from dvd_add [OF this assms(2)] show "m dvd i + k" using a by simp
next
  assume a: "m dvd i + k"
  have "s \<le> i"
  proof (rule ccontr)
    assume n: "\<not> s \<le> i"
    have "m dvd (s + k) - (i + k)" by (rule dvd_diff_nat [OF assms(2) a])
    then have "m dvd s - i" by simp
    then have "m \<le> s - i" by (rule dvd_imp_le) (use n in simp)
    then show False using assms(1) by simp
  qed
  moreover have "m dvd (i + k) - (s + k)" by (rule dvd_diff_nat [OF a assms(2)])
  ultimately show "s \<le> i \<and> m dvd i - s" by simp
qed

lemma round_up_multiple:
  fixes k m :: nat
  assumes "0 < m"
  defines "s \<equiv> (if k mod m = 0 then 0 else m - k mod m)"
  shows "s < m \<and> m dvd s + k"
proof (cases "k mod m = 0")
  case True
  then show ?thesis using assms(1) by (simp add: s_def mod_eq_0_iff_dvd)
next
  case False
  have f: "k mod m < m" "k mod m \<le> k" using assms(1) by simp_all
  have "m dvd m + (k - k mod m)" by (rule dvd_add [OF dvd_refl dvd_minus_mod])
  moreover have "m + (k - k mod m) = m - k mod m + k" using f by linarith
  ultimately show ?thesis using False f(1) by (simp add: s_def)
qed

lemma chunk_start_least:
  assumes "0 < dim_stride d"
  shows "get_chunk_start d b \<le> i \<and> dim_stride d dvd i - get_chunk_start d b
    \<longleftrightarrow> dim_start d \<le> i + b \<and> dim_stride d dvd i + b - dim_start d"
proof (cases "dim_start d < b")
  case False
  then have "get_chunk_start d b = dim_start d - b" "i - (dim_start d - b) = i + b - dim_start d"
    by (simp_all add: get_chunk_start_def)
  then show ?thesis by (simp add: le_diff_conv)
next
  case True
  let ?k = "b - dim_start d"
  have "get_chunk_start d b = (if ?k mod dim_stride d = 0 then 0 else dim_stride d - ?k mod dim_stride d)"
    using True by (simp add: get_chunk_start_def Let_def)
  then have "get_chunk_start d b < dim_stride d" "dim_stride d dvd get_chunk_start d b + ?k"
    using round_up_multiple [OF assms, of ?k] by simp_all
  from first_multiple [OF this, of i] show ?thesis using True by simp
qed

lemma chunk_start_small:
  assumes "touches d b c"
  shows "u32 b = b" and "get_chunk_start d b < 2 ^ 31" and "b + c < 2 ^ 64" and "end_element d b c = min (dim_stop d) (b + c - 1)"
    and "sub64 (end_element d b c) b = min (dim_stop d) (b + c - 1) - b"
proof -
  have b: "b < 2 ^ 31" "dim_stop d < 2 ^ 31" "c < 2 ^ 31" "dim_stride d < 2 ^ 31" "0 < dim_stride d" "0 < c" "b \<le> dim_stop d"
    using assms by (auto simp: touches_def wf_dim_def)
  then show "u32 b = b" by simp
  have "(b - dim_start d) mod dim_stride d < dim_stride d" using b(5) by simp
  then show "get_chunk_start d b < 2 ^ 31" using b assms by (auto simp: get_chunk_start_def Let_def touches_def wf_dim_def)
  show bc: "b + c < 2 ^ 64" using b by simp
  show e: "end_element d b c = min (dim_stop d) (b + c - 1)"
    using b bc by (auto simp: end_element_def sub64_small Let_def)
  show "sub64 (end_element d b c) b = min (dim_stop d) (b + c - 1) - b"
    unfolding e using b by (intro sub64_small) auto
qed

lemma wanted_index:
  assumes "touches d b c" and "y \<in> wanted d b c"
  shows "sub64 (u64 (source_coord d y - b + b)) (dim_start d) div dim_stride d = y"
proof -
  have y: "b \<le> source_coord d y" "source_coord d y \<le> dim_stop d" "0 < dim_stride d" "dim_stop d < 2 ^ 31"
    using assms source_coord_stop [of d y] by (auto simp: wanted_def touches_def wf_dim_def)
  then have "sub64 (u64 (source_coord d y - b + b)) (dim_start d) = source_coord d y - dim_start d"
    using sub64_small [of "dim_start d" "source_coord d y"] by (simp add: source_coord_def)
  also have "\<dots> = y * dim_stride d" by (simp add: source_coord_def)
  finally have "sub64 (u64 (source_coord d y - b + b)) (dim_start d) = y * dim_stride d" .
  then show ?thesis using y(3) by simp
qed

lemma chunk_indices:
  assumes "touches d b c"
  shows "set (counters (u32 (get_chunk_start d (u32 b))) (sub64 (end_element d b c) b) (dim_stride d))
    = (\<lambda>y. source_coord d y - b) ` wanted d b c"
proof -
  let ?e = "min (dim_stop d) (b + c - 1)"
  have d: "0 < dim_stride d" "b \<le> ?e" "dim_start d \<le> dim_stop d" "dim_c_size d = (dim_stop d - dim_start d) div dim_stride d + 1"
    using assms by (auto simp: touches_def wf_dim_def)
  note small = chunk_start_small [OF assms]
  have "set (counters (u32 (get_chunk_start d (u32 b))) (sub64 (end_element d b c) b) (dim_stride d))
      = {i. i + b \<le> ?e \<and> dim_start d \<le> i + b \<and> dim_stride d dvd i + b - dim_start d}"
    using small(1,2,5) d(2) chunk_start_least [OF d(1), of b] by (auto simp: set_counters [OF d(1)])
  also have "\<dots> = (\<lambda>y. source_coord d y - b) ` wanted d b c"
  proof (intro set_eqI iffI)
    fix i assume "i \<in> {i. i + b \<le> ?e \<and> dim_start d \<le> i + b \<and> dim_stride d dvd i + b - dim_start d}"
    then obtain y where i: "i + b \<le> ?e" "i + b = dim_start d + dim_stride d * y"
      by (auto elim!: dvdE) (metis le_add_diff_inverse)
    have "y * dim_stride d \<le> dim_stop d - dim_start d" using i unfolding mult.commute [of y] by linarith
    then have "y \<le> (dim_stop d - dim_start d) div dim_stride d" using d(1) by (simp add: less_eq_div_iff_mult_less_eq)
    then have "y \<in> wanted d b c" "i = source_coord d y - b"
      using i d assms by (auto simp: wanted_def source_coord_def mult.commute touches_def)
    then show "i \<in> (\<lambda>y. source_coord d y - b) ` wanted d b c" by blast
  next
    fix i assume "i \<in> (\<lambda>y. source_coord d y - b) ` wanted d b c"
    then obtain y where y: "i = source_coord d y - b" "y < dim_c_size d" "b \<le> source_coord d y" "source_coord d y < b + c"
      by (auto simp: wanted_def)
    moreover have "source_coord d y \<le> dim_stop d"
      using source_coord_stop y(2) assms by (simp add: touches_def)
    ultimately show "i \<in> {i. i + b \<le> ?e \<and> dim_start d \<le> i + b \<and> dim_stride d dvd i + b - dim_start d}"
      by (auto simp: source_coord_def)
  qed
  finally show ?thesis .
qed

subsection \<open>Finding the chunks\<close>

text \<open>An array in chunks, and the position of one of its chunks.\<close>

definition chunked :: "dmrpp_array \<Rightarrow> nat list \<Rightarrow> bool" where
  "chunked a bs \<longleftrightarrow> array_dims a \<noteq> [] \<and> list_all wf_dim (array_dims a) \<and> 0 < elem_width a
     \<and> length (chunk_dimension_sizes a) = length (array_dims a)
     \<and> (\<forall>c \<in> set (chunk_dimension_sizes a). 0 < c \<and> c < 2 ^ 31)
     \<and> length bs = length (array_dims a) \<and> (\<forall>b \<in> set bs. b < 2 ^ 31)"

text \<open>What the recursion tests in one dimension; only before the last one it also needs an index.\<close>

definition passes :: "dmrpp_array \<Rightarrow> nat list \<Rightarrow> nat \<Rightarrow> bool" where
  "passes a bs i \<longleftrightarrow>
     (let d = array_dims a ! i; b = bs ! i; c = chunk_dimension_sizes a ! i
      in dim_start d \<le> b + c \<and> b \<le> dim_stop d \<and> get_chunk_start d b \<le> c
         \<and> (Suc i < length (array_dims a) \<longrightarrow> wanted d b c \<noteq> {}))"

lemma chunkedD:
  assumes "chunked a bs" and "i < length (array_dims a)"
  shows "wf_dim (array_dims a ! i)" "0 < chunk_dimension_sizes a ! i" "chunk_dimension_sizes a ! i < 2 ^ 31" "bs ! i < 2 ^ 31"
    "length (chunk_dimension_sizes a) = length (array_dims a)" "length bs = length (array_dims a)"
  using assms by (auto simp: chunked_def list_all_length)

lemma first_true_const: "first_true (\<lambda>_. Some v) xs = Some (xs \<noteq> [] \<and> v)"
  by (induction xs) auto

lemma find_needed_passes:
  assumes "chunked a bs" and "dim < length (array_dims a)"
  shows "find_needed_chunks a bs dim = Some (\<forall>i \<in> {dim ..< length (array_dims a)}. passes a bs i)"
  using assms(2)
proof (induction "length (array_dims a) - dim" arbitrary: dim)
  case 0
  then show ?case by simp
next
  case (Suc m)
  let ?n = "length (array_dims a)"
  let ?d = "array_dims a ! dim" and ?b = "bs ! dim" and ?c = "chunk_dimension_sizes a ! dim"
  note c = chunkedD [OF assms(1) Suc.prems]
  have u: "u32 ?b = ?b" "u64 (?b + ?c) = ?b + ?c" using c by simp_all
  have range: "{dim ..< ?n} = insert dim {Suc dim ..< ?n}" using Suc.prems by auto
  show ?case
  proof (cases "dim_start ?d \<le> ?b + ?c \<and> ?b \<le> dim_stop ?d \<and> get_chunk_start ?d ?b \<le> ?c")
    case False
    then have "find_needed_chunks a bs dim = Some False"
      using Suc.prems c u by (auto simp: find_needed_chunks.simps [of a bs dim] Let_def)
    moreover have "\<not> passes a bs dim" using False by (auto simp: passes_def Let_def)
    ultimately show ?thesis using range by auto
  next
    case True
    then have t: "touches ?d ?b ?c" using c by (simp add: touches_def)
    show ?thesis
    proof (cases "Suc dim = ?n")
      case last: True
      then have "find_needed_chunks a bs dim = Some True"
        using Suc.prems c u True by (auto simp: find_needed_chunks.simps [of a bs dim] Let_def)
      moreover have "{dim ..< ?n} = {dim}" using last by auto
      ultimately show ?thesis using True last by (simp add: passes_def Let_def)
    next
      case False
      let ?v = "\<forall>i \<in> {Suc dim ..< ?n}. passes a bs i"
      let ?xs = "counters (u32 (get_chunk_start ?d ?b)) (sub64 (end_element ?d ?b ?c) ?b) (dim_stride ?d)"
      have next_dim: "Suc dim < ?n" "dim \<noteq> ?n - 1" using Suc.prems False by simp_all
      have "find_needed_chunks a bs (Suc dim) = Some ?v"
        using Suc.hyps next_dim by simp
      then have "find_needed_chunks a bs dim = first_true (\<lambda>_. Some ?v) ?xs"
        using Suc.prems c u True next_dim by (simp add: find_needed_chunks.simps [of a bs dim] Let_def)
      moreover have "?xs = [] \<longleftrightarrow> wanted ?d ?b ?c = {}"
        using chunk_indices [OF t] u(1) by (metis image_is_empty set_empty)
      ultimately show ?thesis
        using True next_dim(1) unfolding range first_true_const by (auto simp: passes_def Let_def)
    qed
  qed
qed

lemma wanted_passes: "chunked a bs \<Longrightarrow> i < length (array_dims a) \<Longrightarrow>
    wanted (array_dims a ! i) (bs ! i) (chunk_dimension_sizes a ! i) \<noteq> {} \<Longrightarrow> passes a bs i"
proof -
  assume a: "chunked a bs" "i < length (array_dims a)"
  let ?d = "array_dims a ! i" and ?b = "bs ! i" and ?c = "chunk_dimension_sizes a ! i"
  note c = chunkedD [OF a]
  assume "wanted ?d ?b ?c \<noteq> {}"
  then obtain y where y: "y < dim_c_size ?d" "?b \<le> source_coord ?d y" "source_coord ?d y < ?b + ?c"
    by (auto simp: wanted_def)
  have "source_coord ?d y \<le> dim_stop ?d" by (rule source_coord_stop [OF c(1) y(1)])
  moreover have "get_chunk_start ?d ?b \<le> source_coord ?d y - ?b"
  proof -
    have "dim_start ?d \<le> source_coord ?d y - ?b + ?b" "dim_stride ?d dvd source_coord ?d y - ?b + ?b - dim_start ?d"
      using y(2) by (simp_all add: source_coord_def)
    then show ?thesis using chunk_start_least [of ?d ?b "source_coord ?d y - ?b"] c(1) by (simp add: wf_dim_def)
  qed
  moreover have "dim_start ?d \<le> source_coord ?d y" by (simp add: source_coord_def)
  ultimately show ?thesis using y \<open>wanted ?d ?b ?c \<noteq> {}\<close> by (simp add: passes_def Let_def)
qed

subsection \<open>Inserting a chunk\<close>

text \<open>The places of the constrained array whose source lies in a chunk, in all dimensions.\<close>

fun selected :: "dimension list \<Rightarrow> nat list \<Rightarrow> nat list \<Rightarrow> nat list \<Rightarrow> bool" where
  "selected [] [] [] [] = True"
| "selected (d # ds) (b # bs) (c # cs) (y # ys) \<longleftrightarrow> y \<in> wanted d b c \<and> selected ds bs cs ys"
| "selected _ _ _ _ = False"

definition sel_region :: "nat list \<Rightarrow> dimension list \<Rightarrow> nat list \<Rightarrow> nat list \<Rightarrow> nat list \<Rightarrow> nat set" where
  "sel_region tp ds bs cs shape = {row_major (tp @ y) shape | y. selected ds bs cs y}"

lemma sel_region_Nil: "sel_region tp [] [] [] shape = {row_major tp shape}"
proof -
  have "selected [] [] [] y \<longleftrightarrow> y = []" for y by (cases y) simp_all
  then show ?thesis by (simp add: sel_region_def)
qed

lemma sel_region_Cons:
  "sel_region tp (d # ds) (b # bs) (c # cs) shape = (\<Union>y \<in> wanted d b c. sel_region (tp @ [y]) ds bs cs shape)"
proof (intro set_eqI iffI)
  fix k assume "k \<in> sel_region tp (d # ds) (b # bs) (c # cs) shape"
  then obtain y where y: "k = row_major (tp @ y) shape" "selected (d # ds) (b # bs) (c # cs) y"
    by (auto simp: sel_region_def)
  then obtain i z where "y = i # z" by (cases y) auto
  then have "i \<in> wanted d b c" "k \<in> sel_region (tp @ [i]) ds bs cs shape"
    using y by (auto simp: sel_region_def)
  then show "k \<in> (\<Union>y \<in> wanted d b c. sel_region (tp @ [y]) ds bs cs shape)" by blast
next
  fix k assume "k \<in> (\<Union>y \<in> wanted d b c. sel_region (tp @ [y]) ds bs cs shape)"
  then obtain i z where "i \<in> wanted d b c" "selected ds bs cs z" "k = row_major ((tp @ [i]) @ z) shape"
    by (auto simp: sel_region_def)
  then have "k = row_major (tp @ i # z) shape" "selected (d # ds) (b # bs) (c # cs) (i # z)" by simp_all
  then show "k \<in> sel_region tp (d # ds) (b # bs) (c # cs) shape" unfolding sel_region_def by blast
qed

text \<open>
  The situation in the recursion at dimension \<open>dim\<close>; the last clause says that the chunk holds what \<open>F\<close> asks for.
  Byte offsets of the strided copy are \<^verbatim>\<open>unsigned int\<close>.
\<close>

definition ic_pre ::
  "dmrpp_array \<Rightarrow> nat list \<Rightarrow> 'b list \<Rightarrow> nat \<Rightarrow> nat list \<Rightarrow> nat list \<Rightarrow> 'b list \<Rightarrow> (nat \<Rightarrow> 'b list) \<Rightarrow> bool" where
  "ic_pre a bs rbuf dim tea cea t F \<longleftrightarrow>
     chunked a bs \<and> (\<forall>i < length (array_dims a). touches (array_dims a ! i) (bs ! i) (chunk_dimension_sizes a ! i))
     \<and> length tea = length (array_dims a) \<and> length cea = length (array_dims a)
     \<and> list_all2 (<) (take dim tea) (take dim (c_sizes (array_dims a))) \<and> list_all2 (<) (take dim cea) (take dim (chunk_dimension_sizes a))
     \<and> length t = prod_list (c_sizes (array_dims a)) * elem_width a \<and> length rbuf = prod_list (chunk_dimension_sizes a) * elem_width a
     \<and> length t < 2 ^ 64 \<and> length rbuf < 2 ^ 64
     \<and> (dim_stride (last (array_dims a)) = 1 \<or> length t \<le> 2 ^ 32 \<and> length rbuf \<le> 2 ^ 32)
     \<and> (\<forall>y. selected (drop dim (array_dims a)) (drop dim bs) (drop dim (chunk_dimension_sizes a)) y \<longrightarrow>
          F (row_major (take dim tea @ y) (c_sizes (array_dims a)))
          = elem (elem_width a) rbuf (row_major (take dim cea @ map2 (-) (source_of (drop dim (array_dims a)) y) (drop dim bs))
              (chunk_dimension_sizes a)))"

lemma ic_pre_next:
  assumes pre: "ic_pre a bs rbuf dim tea cea t F" and dim: "dim < length (array_dims a)"
    and y: "y \<in> wanted (array_dims a ! dim) (bs ! dim) (chunk_dimension_sizes a ! dim)" and "length t' = length t"
  shows "ic_pre a bs rbuf (Suc dim) (tea[dim := y]) (cea[dim := source_coord (array_dims a ! dim) y - bs ! dim]) t' F"
proof -
  let ?d = "array_dims a ! dim" and ?b = "bs ! dim" and ?c = "chunk_dimension_sizes a ! dim"
  let ?ds = "drop (Suc dim) (array_dims a)" and ?bs = "drop (Suc dim) bs" and ?cs = "drop (Suc dim) (chunk_dimension_sizes a)"
  have len: "length (chunk_dimension_sizes a) = length (array_dims a)" "length bs = length (array_dims a)"
      "length tea = length (array_dims a)" "length cea = length (array_dims a)"
    using pre by (auto simp: ic_pre_def chunked_def)
  have drops: "drop dim (array_dims a) = ?d # ?ds" "drop dim bs = ?b # ?bs" "drop dim (chunk_dimension_sizes a) = ?c # ?cs"
    using dim len by (simp_all flip: Cons_nth_drop_Suc)
  have takes: "take (Suc dim) (tea[dim := v]) = take dim tea @ [v]" "take (Suc dim) (cea[dim := v]) = take dim cea @ [v]"
      "take (Suc dim) (c_sizes (array_dims a)) = take dim (c_sizes (array_dims a)) @ [dim_c_size ?d]"
      "take (Suc dim) (chunk_dimension_sizes a) = take dim (chunk_dimension_sizes a) @ [?c]" for v
    using dim len by (simp_all add: take_Suc_conv_app_nth)
  have "y < dim_c_size ?d" "source_coord ?d y - ?b < ?c" using y by (auto simp: wanted_def)
  then have "list_all2 (<) (take dim tea @ [y]) (take dim (c_sizes (array_dims a)) @ [dim_c_size ?d])"
      "list_all2 (<) (take dim cea @ [source_coord ?d y - ?b]) (take dim (chunk_dimension_sizes a) @ [?c])"
    using pre unfolding ic_pre_def by (auto intro!: list_all2_appendI)
  moreover have "F (row_major ((take dim tea @ [y]) @ z) (c_sizes (array_dims a)))
      = elem (elem_width a) rbuf (row_major ((take dim cea @ [source_coord ?d y - ?b]) @ map2 (-) (source_of ?ds z) ?bs)
          (chunk_dimension_sizes a))" if z: "selected ?ds ?bs ?cs z" for z
  proof -
    have "selected (?d # ?ds) (?b # ?bs) (?c # ?cs) (y # z)" using y z by simp
    then have "F (row_major (take dim tea @ (y # z)) (c_sizes (array_dims a)))
        = elem (elem_width a) rbuf (row_major (take dim cea @ map2 (-) (source_of (?d # ?ds) (y # z)) (?b # ?bs)) (chunk_dimension_sizes a))"
      using pre unfolding ic_pre_def drops by blast
    then show ?thesis by simp
  qed
  ultimately show ?thesis
    using pre unfolding ic_pre_def takes length_list_update assms(4) by blast
qed

lemma ic_prods:
  assumes "ic_pre a bs rbuf dim tea cea t F"
  shows "prod_list (c_sizes (array_dims a)) < 2 ^ 64" "prod_list (chunk_dimension_sizes a) < 2 ^ 64" "0 < elem_width a"
proof -
  show w: "0 < elem_width a" using assms by (simp add: ic_pre_def chunked_def)
  show "prod_list (c_sizes (array_dims a)) < 2 ^ 64" "prod_list (chunk_dimension_sizes a) < 2 ^ 64"
    using assms mult_less_left [OF w] by (auto simp: ic_pre_def)
qed

lemma copy_one:
  assumes pre: "ic_pre a bs rbuf (length (array_dims a)) tea cea t F" and "dim_stride (last (array_dims a)) \<noteq> 1"
  shows "\<exists>t'. copy_run a rbuf tea cea (c_sizes (array_dims a)) u32 (elem_width a) t = Some t'
     \<and> filled (elem_width a) F {row_major tea (c_sizes (array_dims a))} t t'"
proof -
  let ?w = "elem_width a"
  let ?ti = "row_major tea (c_sizes (array_dims a))" and ?ci = "row_major cea (chunk_dimension_sizes a)"
  note w = ic_prods [OF pre]
  have len: "length tea = length (array_dims a)" "length cea = length (array_dims a)" "length bs = length (array_dims a)"
      "length (chunk_dimension_sizes a) = length (array_dims a)" "array_dims a \<noteq> []"
    using pre by (auto simp: ic_pre_def chunked_def)
  have l2: "list_all2 (<) tea (c_sizes (array_dims a))" "list_all2 (<) cea (chunk_dimension_sizes a)"
    using pre len by (auto simp: ic_pre_def)
  have idx: "get_index tea (c_sizes (array_dims a)) = Some ?ti" "get_index cea (chunk_dimension_sizes a) = Some ?ci"
    using l2 len w by (auto intro!: get_index_row_major)
  have size: "length t = prod_list (c_sizes (array_dims a)) * ?w" "length rbuf = prod_list (chunk_dimension_sizes a) * ?w"
      "length t \<le> 2 ^ 32" "length rbuf \<le> 2 ^ 32"
    using pre assms(2) by (auto simp: ic_pre_def)
  have b: "(?ti + 1) * ?w \<le> length t" "(?ci + 1) * ?w \<le> length rbuf"
    unfolding size(1,2) by (rule scaled_le [OF row_major_bound le_refl], rule l2)+
  have lt: "?ti * ?w < 2 ^ 32" "?ci * ?w < 2 ^ 32" using b w(3) size(3,4) by auto
  have "F ?ti = elem ?w rbuf ?ci"
    using pre len by (auto simp: ic_pre_def dest!: spec [of _ "[]"])
  then have "\<exists>t'. memcpy t (?ti * ?w) rbuf (?ci * ?w) (1 * ?w) = Some t' \<and> filled ?w F {?ti ..< ?ti + 1} t t'"
    using b by (intro memcpy_filled) auto
  moreover have "{?ti ..< ?ti + 1} = {?ti}" by auto
  moreover have "u32 (u64 (?ti * ?w)) = ?ti * ?w" "u32 (u64 (?ci * ?w)) = ?ci * ?w" using lt by simp_all
  ultimately show ?thesis by (simp add: copy_run_def idx)
qed

lemma wanted_run:
  assumes "touches d b c" and "dim_stride d = 1"
  defines "s \<equiv> get_chunk_start d b" and "e \<equiv> min (dim_stop d) (b + c - 1)"
  shows "dim_start d \<le> b + s" and "b + s \<le> e + 1" and "s \<le> c" and "b + s - dim_start d < dim_c_size d"
    and "wanted d b c = {b + s - dim_start d ..< e + 1 - dim_start d}"
proof -
  have d: "b \<le> dim_stop d" "dim_start d \<le> b + c" "0 < c" "dim_start d \<le> dim_stop d" "dim_c_size d = dim_stop d - dim_start d + 1"
    using assms by (auto simp: touches_def wf_dim_def)
  have s: "s = (if dim_start d < b then 0 else dim_start d - b)" using assms(2) by (simp add: s_def get_chunk_start_def)
  show "dim_start d \<le> b + s" "b + s \<le> e + 1" "s \<le> c" "b + s - dim_start d < dim_c_size d"
    using d unfolding s e_def by (auto simp: min_def)
  show "wanted d b c = {b + s - dim_start d ..< e + 1 - dim_start d}"
    using d unfolding wanted_def source_coord_def assms(2) s e_def by (auto simp: min_def)
qed

lemma run_length:
  assumes "se \<le> e + 1" and "e < 2 ^ 63"
  shows "u64 (sub64 e se + 1) = e + 1 - se"
proof (cases "se \<le> e")
  case True
  then show ?thesis using assms by (simp add: sub64_small)
next
  case False
  then have "se = e + 1" using assms(1) by simp
  moreover have "sub64 e (e + 1) = 2 ^ 64 - 1" using assms(2) by (simp add: sub64_def u64_def)
  ultimately show ?thesis by (simp add: u64_def)
qed

lemma row_last: "length xs = length ns \<Longrightarrow> row_major (xs @ [i]) (ns @ [n]) = row_major xs ns * n + i"
  by (simp add: row_major_append)

lemma last_row_bound:
  assumes "list_all2 (<) xs ns" and "k \<le> n"
  shows "row_major xs ns * n + k \<le> prod_list (ns @ [n])"
proof -
  have "row_major xs ns + 1 \<le> prod_list ns" using row_major_bound [OF assms(1)] by simp
  then have "(row_major xs ns + 1) * n \<le> prod_list ns * n" by (rule mult_le_mono1)
  then show ?thesis using assms(2) by simp
qed

lemma snoc_take: "length xs = Suc k \<Longrightarrow> xs = take k xs @ [xs ! k]"
  by (metis lessI order_refl take_Suc_conv_app_nth take_all)

lemma ic_last_run:
  assumes pre: "ic_pre a bs rbuf dim tea cea t F" and dim: "Suc dim = length (array_dims a)" and stride: "dim_stride (array_dims a ! dim) = 1"
  shows "\<exists>t'. insert_chunk a (c_sizes (array_dims a)) bs rbuf dim tea cea t = Some t'
     \<and> filled (elem_width a) F (sel_region (take dim tea) (drop dim (array_dims a)) (drop dim bs) (drop dim (chunk_dimension_sizes a))
          (c_sizes (array_dims a))) t t'"
proof -
  let ?w = "elem_width a" and ?d = "array_dims a ! dim" and ?b = "bs ! dim" and ?c = "chunk_dimension_sizes a ! dim"
  let ?tp = "take dim tea" and ?cp = "take dim cea" and ?N = "take dim (c_sizes (array_dims a))" and ?C = "take dim (chunk_dimension_sizes a)"
  let ?s = "get_chunk_start ?d ?b" and ?e = "min (dim_stop ?d) (?b + ?c - 1)"
  let ?y = "?b + ?s - dim_start ?d" and ?n = "?e + 1 - (?b + ?s)"
  have len: "length tea = Suc dim" "length cea = Suc dim" "length bs = Suc dim" "length (chunk_dimension_sizes a) = Suc dim"
    and t: "touches ?d ?b ?c"
    using pre dim by (auto simp: ic_pre_def chunked_def)
  have "c_sizes (array_dims a) = ?N @ [c_sizes (array_dims a) ! dim]" using dim by (intro snoc_take) simp
  moreover have "c_sizes (array_dims a) ! dim = dim_c_size ?d" using dim by simp
  ultimately have shapes: "c_sizes (array_dims a) = ?N @ [dim_c_size ?d]" "chunk_dimension_sizes a = ?C @ [?c]"
    "drop dim (array_dims a) = [?d]" "drop dim bs = [?b]" "drop dim (chunk_dimension_sizes a) = [?c]"
    "tea[dim := v] = ?tp @ [v]" "cea[dim := v] = ?cp @ [v]" for v
    using snoc_take [OF len(4)] dim [symmetric] len by (simp_all add: upd_conv_take_nth_drop flip: Cons_nth_drop_Suc)
  have l2: "list_all2 (<) ?tp ?N" "list_all2 (<) ?cp ?C" using pre by (auto simp: ic_pre_def)
  note lens = l2 [THEN list_all2_lengthD]
  note small = chunk_start_small [OF t] and run = wanted_run [OF t stride] and prods = ic_prods [OF pre]
  let ?ti = "row_major ?tp ?N * dim_c_size ?d + ?y" and ?ci = "row_major ?cp ?C * ?c + ?s"
  have e: "?e < 2 ^ 31" using t by (auto simp: touches_def wf_dim_def)
  have idx: "get_index (?tp @ [?y]) (c_sizes (array_dims a)) = Some ?ti" "get_index (?cp @ [?s]) (chunk_dimension_sizes a) = Some ?ci"
    using get_index_snoc [OF l2(1) less_imp_le [OF run(4)]] get_index_snoc [OF l2(2) run(3)] prods shapes(1,2) row_last [OF lens(1)] row_last [OF lens(2)]
    by metis+
  have yn: "?y + ?n \<le> dim_c_size ?d" "?s + ?n \<le> ?c"
    using run(1,2) t stride by (auto simp: touches_def wf_dim_def)
  have bnd: "(?ti + ?n) * ?w \<le> length t" "(?ci + ?n) * ?w \<le> length rbuf"
    using mult_le_mono1 [OF last_row_bound [OF l2(1) yn(1)], of ?w] mult_le_mono1 [OF last_row_bound [OF l2(2) yn(2)], of ?w] pre
    unfolding ic_pre_def by (metis add.assoc shapes(1), metis add.assoc shapes(2))
  have F: "elem ?w rbuf (?ci + j) = F (?ti + j)" if j: "j < ?n" for j
  proof -
    have "?y + j \<in> wanted ?d ?b ?c" "source_coord ?d (?y + j) - ?b = ?s + j"
      using j run(1) unfolding run(5) by (auto simp: source_coord_def stride)
    then have "selected [?d] [?b] [?c] [?y + j]" "map2 (-) (source_of [?d] [?y + j]) [?b] = [?s + j]" by simp_all
    then have "F (row_major (?tp @ [?y + j]) (c_sizes (array_dims a))) = elem ?w rbuf (row_major (?cp @ [?s + j]) (chunk_dimension_sizes a))"
      using pre unfolding ic_pre_def shapes(3-5) by metis
    then show ?thesis using row_last [OF lens(1)] row_last [OF lens(2)] shapes(1,2) by (metis add.assoc)
  qed
  have "\<exists>t'. memcpy t (?ti * ?w) rbuf (?ci * ?w) (?n * ?w) = Some t' \<and> filled ?w F {?ti ..< ?ti + ?n} t t'"
    using bnd F by (intro memcpy_filled) auto
  moreover have "{?ti ..< ?ti + ?n} = sel_region ?tp [?d] [?b] [?c] (c_sizes (array_dims a))"
  proof -
    have "sel_region ?tp [?d] [?b] [?c] (c_sizes (array_dims a)) = (\<lambda>y. row_major ?tp ?N * dim_c_size ?d + y) ` wanted ?d ?b ?c"
      unfolding sel_region_Cons sel_region_Nil UNION_singleton_eq_range
      using row_last [OF lens(1)] shapes(1) by (metis (no_types, lifting))
    also have "\<dots> = {?ti ..< row_major ?tp ?N * dim_c_size ?d + (?e + 1 - dim_start ?d)}"
      unfolding run(5) image_add_atLeastLessThan by (simp only: add.commute)
    also have "row_major ?tp ?N * dim_c_size ?d + (?e + 1 - dim_start ?d) = ?ti + ?n" using run(1,2) by simp
    finally show ?thesis ..
  qed
  moreover have "u64 (?ti * ?w) = ?ti * ?w" "u64 (?ci * ?w) = ?ci * ?w" "u64 (?n * ?w) = ?n * ?w"
    using bnd pre by (auto intro!: u64_small simp: ic_pre_def algebra_simps)
  moreover have "insert_chunk a (c_sizes (array_dims a)) bs rbuf dim tea cea t
      = copy_run a rbuf (?tp @ [?y]) (?cp @ [?s]) (c_sizes (array_dims a)) id (u64 (?n * ?w)) t"
  proof -
    have "u64 (?b + ?s) = ?b + ?s" "sub64 (?b + ?s) (dim_start ?d) = ?y" "u64 (sub64 ?e (?b + ?s) + 1) = ?n"
      using run(1,2) e run_length [OF run(2)] by (auto simp: sub64_small)
    then show ?thesis
      using dim [symmetric] len small stride by (simp add: insert_chunk.simps [of a _ bs] Let_def shapes(6,7))
  qed
  ultimately show ?thesis by (simp add: copy_run_def idx shapes(3-5))
qed

text \<open>The loop over the indices of one dimension, for whatever is done with each of them.\<close>

lemma ic_loop:
  assumes pre: "ic_pre a bs rbuf dim tea cea t F" and dim: "dim < length (array_dims a)"
  defines "d \<equiv> array_dims a ! dim" and "b \<equiv> bs ! dim" and "c \<equiv> chunk_dimension_sizes a ! dim"
  assumes step: "\<And>y t1. y \<in> wanted d b c \<Longrightarrow> length t1 = length t \<Longrightarrow>
      \<exists>t'. f (tea[dim := y]) (cea[dim := source_coord d y - b]) t1 = Some t' \<and> filled w F (S y) t1 t'"
  shows "\<exists>t'. for_each (\<lambda>i. f (tea[dim := sub64 (u64 (i + b)) (dim_start d) div dim_stride d]) (cea[dim := i]))
        (counters (u32 (get_chunk_start d (u32 b))) (sub64 (end_element d b c) b) (dim_stride d)) t = Some t'
     \<and> filled w F (\<Union>y \<in> wanted d b c. S y) t t'"
proof -
  let ?is = "counters (u32 (get_chunk_start d (u32 b))) (sub64 (end_element d b c) b) (dim_stride d)"
  let ?y = "\<lambda>i. sub64 (u64 (i + b)) (dim_start d) div dim_stride d"
  let ?f = "\<lambda>i. f (tea[dim := ?y i]) (cea[dim := i])"
  have t: "touches d b c" using pre dim by (simp add: ic_pre_def d_def b_def c_def)
  have ys: "?y (source_coord d y - b) = y" if "y \<in> wanted d b c" for y by (rule wanted_index [OF t that])
  have "\<forall>i \<in> set ?is. \<forall>t1. length t1 = length t \<longrightarrow> (\<exists>t'. ?f i t1 = Some t' \<and> filled w F (S (?y i)) t1 t')"
  proof (intro ballI allI impI)
    fix i and t1 :: "'a list" assume "i \<in> set ?is" "length t1 = length t"
    then obtain y where y: "y \<in> wanted d b c" "i = source_coord d y - b" unfolding chunk_indices [OF t] by auto
    then show "\<exists>t'. ?f i t1 = Some t' \<and> filled w F (S (?y i)) t1 t'"
      using step [OF y(1) \<open>length t1 = length t\<close>] ys [OF y(1)] by simp
  qed
  from for_each_filled [OF this refl]
  have "\<exists>t'. for_each ?f ?is t = Some t' \<and> filled w F (\<Union>i \<in> set ?is. S (?y i)) t t'" .
  moreover have "(\<Union>i \<in> set ?is. S (?y i)) = (\<Union>y \<in> wanted d b c. S y)"
    unfolding chunk_indices [OF t] using ys by auto
  ultimately show ?thesis by simp
qed

lemma ic_filled:
  assumes "ic_pre a bs rbuf dim tea cea t F" and "dim < length (array_dims a)"
  shows "\<exists>t'. insert_chunk a (c_sizes (array_dims a)) bs rbuf dim tea cea t = Some t'
     \<and> filled (elem_width a) F (sel_region (take dim tea) (drop dim (array_dims a)) (drop dim bs) (drop dim (chunk_dimension_sizes a))
          (c_sizes (array_dims a))) t t'"
  using assms
proof (induction "length (array_dims a) - dim" arbitrary: dim tea cea t)
  case 0
  then show ?case by simp
next
  case (Suc m)
  let ?w = "elem_width a" and ?d = "array_dims a ! dim" and ?b = "bs ! dim" and ?c = "chunk_dimension_sizes a ! dim"
  let ?ds = "drop (Suc dim) (array_dims a)" and ?bs = "drop (Suc dim) bs" and ?cs = "drop (Suc dim) (chunk_dimension_sizes a)"
  let ?N = "c_sizes (array_dims a)"
  let ?S = "\<lambda>y. sel_region (take dim tea @ [y]) ?ds ?bs ?cs ?N"
  have len: "length (chunk_dimension_sizes a) = length (array_dims a)" "length bs = length (array_dims a)"
      "length tea = length (array_dims a)" "length cea = length (array_dims a)"
    using Suc.prems(1) by (auto simp: ic_pre_def chunked_def)
  have drops: "drop dim (array_dims a) = ?d # ?ds" "drop dim bs = ?b # ?bs" "drop dim (chunk_dimension_sizes a) = ?c # ?cs"
    using Suc.prems(2) len by (simp_all flip: Cons_nth_drop_Suc)
  have take_y: "take (Suc dim) (tea[dim := y]) = take dim tea @ [y]" for y
    using Suc.prems(2) len by (simp add: take_Suc_conv_app_nth)
  show ?case
  proof (cases "Suc dim = length (array_dims a)")
    case last: True
    show ?thesis
    proof (cases "dim_stride ?d = 1")
      case True
      then show ?thesis by (rule ic_last_run [OF Suc.prems(1) last])
    next
      case False
      have "last (array_dims a) = ?d" using last by (metis diff_Suc_1 last_conv_nth list.size(3) nat.distinct(1))
      then have st: "dim_stride (last (array_dims a)) \<noteq> 1" using False by simp
      have "\<exists>t'. copy_run a rbuf (tea[dim := y]) (cea[dim := source_coord ?d y - ?b]) ?N u32 ?w t1 = Some t'
          \<and> filled ?w F (?S y) t1 t'"
        if y: "y \<in> wanted ?d ?b ?c" "length t1 = length t" for y t1
      proof -
        have "ic_pre a bs rbuf (length (array_dims a)) (tea[dim := y]) (cea[dim := source_coord ?d y - ?b]) t1 F"
          using ic_pre_next [OF Suc.prems y] last by simp
        from copy_one [OF this st] show ?thesis
          using last len take_y [of y] by (simp add: sel_region_Nil)
      qed
      from ic_loop [OF Suc.prems, where f = "\<lambda>ta ca. copy_run a rbuf ta ca ?N u32 ?w" and S = ?S, OF this] show ?thesis
        unfolding drops sel_region_Cons using Suc.prems(2) last [symmetric] len False
        by (simp add: insert_chunk.simps [of a ?N bs rbuf dim] Let_def)
    qed
  next
    case False
    have next_dim: "Suc dim < length (array_dims a)" "dim \<noteq> length (array_dims a) - 1" using Suc.prems(2) False by simp_all
    have "\<exists>t'. insert_chunk a ?N bs rbuf (dim + 1) (tea[dim := y]) (cea[dim := source_coord ?d y - ?b]) t1 = Some t'
        \<and> filled ?w F (?S y) t1 t'"
      if y: "y \<in> wanted ?d ?b ?c" "length t1 = length t" for y t1
    proof -
      have "ic_pre a bs rbuf (Suc dim) (tea[dim := y]) (cea[dim := source_coord ?d y - ?b]) t1 F"
        by (rule ic_pre_next [OF Suc.prems y])
      from Suc.hyps(1) [OF _ this next_dim(1)] show ?thesis using Suc.hyps(2) take_y [of y] by simp
    qed
    from ic_loop [OF Suc.prems, where f = "insert_chunk a ?N bs rbuf (dim + 1)" and S = ?S, OF this] show ?thesis
      unfolding drops sel_region_Cons using Suc.prems(2) next_dim len
      by (simp add: insert_chunk.simps [of a ?N bs rbuf dim] Let_def)
  qed
qed

subsection \<open>Reading from chunks\<close>

text \<open>The buffer of a chunk holds the values of the array at its position.\<close>

definition holds_chunk :: "dmrpp_array \<Rightarrow> 'b list \<Rightarrow> nat list \<Rightarrow> 'b list \<Rightarrow> bool" where
  "holds_chunk a whole bs rbuf \<longleftrightarrow> length rbuf = prod_list (chunk_dimension_sizes a) * elem_width a
     \<and> (\<forall>x. in_box bs (chunk_dimension_sizes a) (sizes (array_dims a)) x \<longrightarrow>
          elem (elem_width a) rbuf (row_major (map2 (-) x bs) (chunk_dimension_sizes a))
          = elem (elem_width a) whole (row_major x (sizes (array_dims a))))"

lemma selected_in_box:
  "list_all wf_dim ds \<Longrightarrow> selected ds bs cs y \<Longrightarrow> in_box bs cs (sizes ds) (source_of ds y) \<and> list_all2 (<) y (c_sizes ds)"
proof (induction ds bs cs y rule: selected.induct)
  case (2 d ds b bs c cs y ys)
  have "source_coord d y < dim_size d"
    using source_coord_stop [of d y] "2.prems" by (simp add: wf_dim_def wanted_def)
  then show ?case using 2 by (simp add: wanted_def)
qed auto

lemma in_box_selected:
  "list_all2 (<) y (c_sizes ds) \<Longrightarrow> in_box bs cs (sizes ds) (source_of ds y) \<Longrightarrow> selected ds bs cs y"
proof (induction ds arbitrary: bs cs y)
  case Nil
  then show ?case by (cases bs; cases cs) auto
next
  case (Cons d ds)
  then obtain i ys where "y = i # ys" by (cases y) auto
  with Cons show ?case by (cases bs; cases cs) (auto simp: wanted_def)
qed

lemma selected_wanted:
  "selected ds bs cs y \<Longrightarrow> i < length ds \<Longrightarrow> wanted (ds ! i) (bs ! i) (cs ! i) \<noteq> {}"
proof (induction ds bs cs y arbitrary: i rule: selected.induct)
  case (2 d ds b bs c cs y ys)
  then show ?case by (cases i) auto
qed auto

text \<open>No chunk that holds a requested element is skipped.\<close>

lemma selected_needed:
  assumes "chunked a bs" and "selected (array_dims a) bs (chunk_dimension_sizes a) y"
  shows "find_needed_chunks a bs 0 = Some True"
proof -
  have "0 < length (array_dims a)" using assms(1) by (simp add: chunked_def)
  then have "find_needed_chunks a bs 0 = Some (\<forall>i \<in> {0 ..< length (array_dims a)}. passes a bs i)"
    by (rule find_needed_passes [OF assms(1)])
  moreover have "passes a bs i" if "i < length (array_dims a)" for i
    using wanted_passes [OF assms(1) that] selected_wanted [OF assms(2) that] by simp
  ultimately show ?thesis by simp
qed

lemma needed_touches:
  assumes "chunked a bs" and "find_needed_chunks a bs 0 = Some True" and "i < length (array_dims a)"
  shows "touches (array_dims a ! i) (bs ! i) (chunk_dimension_sizes a ! i)"
proof -
  have "0 < length (array_dims a)" using assms(1) by (simp add: chunked_def)
  from find_needed_passes [OF assms(1) this] have "passes a bs i" using assms(2,3) by simp
  then show ?thesis using chunkedD [OF assms(1,3)] by (simp add: passes_def touches_def Let_def)
qed

lemma insert_chunk_filled:
  assumes ch: "chunked a bs" and need: "find_needed_chunks a bs 0 = Some True" and holds: "holds_chunk a whole bs rbuf"
    and size: "length t = prod_list (c_sizes (array_dims a)) * elem_width a" "length t < 2 ^ 64" "length rbuf < 2 ^ 64"
      "dim_stride (last (array_dims a)) = 1 \<or> length t \<le> 2 ^ 32 \<and> length rbuf \<le> 2 ^ 32"
  shows "\<exists>t'. insert_chunk a (c_sizes (array_dims a)) bs rbuf 0 bs (replicate (length (array_dims a)) 0) t = Some t'
     \<and> filled (elem_width a) (hyperslab (elem_width a) (array_dims a) whole)
          (sel_region [] (array_dims a) bs (chunk_dimension_sizes a) (c_sizes (array_dims a))) t t'"
proof -
  let ?w = "elem_width a" and ?ds = "array_dims a" and ?cs = "chunk_dimension_sizes a"
  have wf: "list_all wf_dim ?ds" "length bs = length ?ds" "0 < length ?ds" using ch by (auto simp: chunked_def)
  have "hyperslab ?w ?ds whole (row_major y (c_sizes ?ds)) = elem ?w rbuf (row_major (map2 (-) (source_of ?ds y) bs) ?cs)"
    if "selected ?ds bs ?cs y" for y
    using selected_in_box [OF wf(1) that] holds by (simp add: hyperslab_row_major holds_chunk_def)
  then have "ic_pre a bs rbuf 0 bs (replicate (length ?ds) 0) t (hyperslab ?w ?ds whole)"
    using ch size wf holds needed_touches [OF ch need] by (simp add: ic_pre_def holds_chunk_def)
  from ic_filled [OF this wf(3)] show ?thesis by simp
qed

text \<open>The chunks cover the array.\<close>

definition covers :: "dmrpp_array \<Rightarrow> nat list set \<Rightarrow> bool" where
  "covers a B \<longleftrightarrow> (\<forall>x. list_all2 (<) x (sizes (array_dims a)) \<longrightarrow> (\<exists>bs \<in> B. in_box bs (chunk_dimension_sizes a) (sizes (array_dims a)) x))"

lemma covers_selected:
  assumes "covers a B" and "list_all wf_dim (array_dims a)" and "k < prod_list (c_sizes (array_dims a))"
  obtains bs where "bs \<in> B" and "k \<in> sel_region [] (array_dims a) bs (chunk_dimension_sizes a) (c_sizes (array_dims a))"
    and "\<exists>y. selected (array_dims a) bs (chunk_dimension_sizes a) y"
proof -
  let ?y = "coords k (c_sizes (array_dims a))"
  have y: "list_all2 (<) ?y (c_sizes (array_dims a))" "row_major ?y (c_sizes (array_dims a)) = k"
    using row_major_coords [OF assms(3)] by auto
  then obtain bs where bs: "bs \<in> B" "in_box bs (chunk_dimension_sizes a) (sizes (array_dims a)) (source_of (array_dims a) ?y)"
    using assms(1) source_of_bound [OF assms(2)] by (auto simp: covers_def)
  have "selected (array_dims a) bs (chunk_dimension_sizes a) ?y" by (rule in_box_selected [OF y(1) bs(2)])
  with bs(1) y(2) show ?thesis using that by (force simp: sel_region_def)
qed

end
