(* ===== verification/Dmrpp_Filters.thy ===== *)
theory Dmrpp_Filters
  imports Dmrpp_Index Bes_Lists Std_Numbers "HOL-Library.Word"
begin

text \<open>
  \<^verbatim>\<open>modules/dmrpp_module/Chunk.cc\<close>, the parts that do not depend on the transfer: the position of a chunk, its
  checksum and the filters that turn the stored bytes into values.  zlib is a parameter.
\<close>

unbundle bit_operations_syntax

type_synonym bytes = "8 word list"

subsection \<open>The position of a chunk\<close>

text \<open>\<^verbatim>\<open>strtoull\<close> accepts a minus sign and negates in 64 bits.\<close>

definition stoull :: "string \<Rightarrow> nat result" where
  "stoull s =
     (let (v, rest) = scan_int s
      in if rest = s then Inl StdInvalidArgument
         else if v \<ge> 2 ^ 64 \<or> v \<le> - (2 ^ 64) then Inl StdOutOfRange
         else Inr (nat (v mod 2 ^ 64)))"

function split_by_comma :: "string \<Rightarrow> nat list result" where
  "split_by_comma s =
     (case str_find_char s (CHR '','') 0 of
        None \<Rightarrow> res_bind (stoull s) (\<lambda>n. Inr [n])
      | Some pos_end \<Rightarrow>
          res_bind (stoull (take pos_end s)) (\<lambda>n. res_bind (split_by_comma (drop (pos_end + 1) s)) (\<lambda>ns. Inr (n # ns))))"
  by pat_completeness auto
termination
proof (relation "measure length", goal_cases)
  case 1
  show ?case by simp
next
  case (2 s pos_end n)
  have "pos_end < length s"
    using find_first_of_SomeD [of s "[CHR '','']" 0 pos_end] 2(1) by (simp add: str_find_char_def find_first_of_def)
  then show ?case by simp
qed

declare split_by_comma.simps [simp del]

definition parse_chunk_position_in_array_string :: "string \<Rightarrow> nat list \<Rightarrow> nat list result" where
  "parse_chunk_position_in_array_string pia cpia_vect =
     (if pia = [] then Inr cpia_vect
      else if CHR ''['' \<notin> set pia \<or> CHR '']'' \<notin> set pia \<or> length pia < 3 then
        Inl (BESInternalError ''while parsing a DMR++, chunk position string malformed'')
      else if find_first_not_of pia ''[]1234567890,'' 0 \<noteq> None then
        Inl (BESInternalError ''while parsing a DMR++, chunk position string illegal character(s)'')
      else
        case split_by_comma (take (length pia - 2) (drop 1 pia)) of
          Inl StdInvalidArgument \<Rightarrow> Inl (BESInternalError (''while parsing a DMR++, chunk position string illegal character(s): '' @ ''stoull''))
        | r \<Rightarrow> r)"

subsection \<open>The checksum\<close>

definition reduce16 :: "32 word \<Rightarrow> 32 word" where
  "reduce16 s = (s AND 0xffff) + drop_bit 16 s"

definition pair_value :: "8 word \<Rightarrow> 8 word \<Rightarrow> 32 word" where
  "pair_value x y = push_bit 8 (ucast x) OR ucast y"

text \<open>At most 360 pairs are added between two reductions.\<close>

fun add_pairs :: "nat \<Rightarrow> bytes \<Rightarrow> 32 word \<times> 32 word \<Rightarrow> 32 word \<times> 32 word" where
  "add_pairs (Suc n) (x # y # rest) (sum1, sum2) =
     (let sum1 = sum1 + pair_value x y in add_pairs n rest (sum1, sum2 + sum1))"
| "add_pairs _ _ s = s"

function sum_blocks :: "nat \<Rightarrow> bytes \<Rightarrow> 32 word \<times> 32 word \<Rightarrow> 32 word \<times> 32 word" where
  "sum_blocks len data s =
     (if len = 0 then s
      else let tlen = (if len > 360 then 360 else len);
               (sum1, sum2) = add_pairs tlen data s
           in sum_blocks (len - tlen) (drop (2 * tlen) data) (reduce16 sum1, reduce16 sum2))"
  by pat_completeness auto
termination
  by (relation "measure (\<lambda>(len, data, s). len)") auto

declare sum_blocks.simps [simp del]

text \<open>\<^const>\<open>None\<close>: the assertion that there are data fails.\<close>

definition checksum_fletcher32 :: "bytes \<Rightarrow> 32 word option" where
  "checksum_fletcher32 data =
     (if data = [] then None else
      let (sum1, sum2) = sum_blocks (length data div 2) data (0, 0);
          (sum1, sum2) =
            (if length data mod 2 = 1
             then let sum1 = sum1 + push_bit 8 (ucast (last data))
                  in (reduce16 sum1, reduce16 (sum2 + sum1))
             else (sum1, sum2))
      in Some (push_bit 16 (reduce16 sum2) OR reduce16 sum1))"

subsection \<open>Shuffled bytes\<close>

text \<open>How often the loop of \<^verbatim>\<open>DUFFS_DEVICE\<close> copies a byte: it is entered at the remainder and then runs in steps of eight.\<close>

definition duffs_copies :: "nat \<Rightarrow> nat" where
  "duffs_copies elems = (if elems mod 8 = 0 then 8 else elems mod 8) + 8 * ((elems + 7) div 8 - 1)"

text \<open>The outer loop counts in 32 bits: it does not end for a width that does not fit.\<close>

definition unshuffle :: "'b list \<Rightarrow> 'b list \<Rightarrow> nat \<Rightarrow> 'b list option" where
  "unshuffle dest src width =
     (if width = 0 then None
      else let elems = length src div width
           in if \<not> (width > 1 \<and> elems > 1) then memcpy dest 0 src 0 (length src)
              else if width \<ge> 2 ^ 32 then None
              else
                Option.bind
                  (for_each (\<lambda>i. for_each (\<lambda>j dest. memcpy dest (i + j * width) src (i * duffs_copies elems + j) 1) [0 ..< duffs_copies elems])
                     [0 ..< width] dest)
                  (\<lambda>dest. let leftover = length src mod width
                     in if leftover > 0 then memcpy dest (duffs_copies elems * width) src (width * duffs_copies elems) leftover else Some dest))"

subsection \<open>The filters of a chunk\<close>

text \<open>
  What the filters need from outside: zlib, and fresh memory.  \<open>zlib avail_out src k\<close> is what the \<open>k\<close>-th call of zlib's
  \<^verbatim>\<open>inflate\<close> on a stream returns, with all of the output so far; it never writes more than \<open>avail_out\<close> bytes.
\<close>

datatype zstatus = Z_OK | Z_STREAM_END | Z_ERROR nat

record filter_env =
  zlib_init :: bool
  zlib :: "nat \<Rightarrow> bytes \<Rightarrow> nat \<Rightarrow> zstatus \<times> bytes"
  fresh :: "nat \<Rightarrow> bytes"

text \<open>The loop around zlib; \<^const>\<open>None\<close> is also that it does not end.\<close>

partial_function (option) inflate_loop :: "(nat \<Rightarrow> zstatus \<times> bytes) \<Rightarrow> nat \<Rightarrow> nat \<Rightarrow> bytes ub_result" where
  "inflate_loop z avail_out k =
     (case z k of
        (Z_STREAM_END, output) \<Rightarrow> Some (Inr output)
      | (Z_OK, output) \<Rightarrow>
          if length output = avail_out then Some (Inl (BESInternalError ''Data buffer is not big enough for uncompressed data.''))
          else inflate_loop z avail_out (k + 1)
      | (Z_ERROR _, _) \<Rightarrow> Some (Inl (BESInternalError ''Failed to inflate data chunk.'')))"

text \<open>zlib counts in 32 bits.\<close>

definition inflate :: "filter_env \<Rightarrow> bytes \<Rightarrow> nat \<Rightarrow> bytes \<Rightarrow> bytes ub_result" where
  "inflate env dest dest_len src =
     (if src = [] \<or> dest_len = 0 then None
      else if \<not> zlib_init env then Some (Inl (BESInternalError ''Failed to initialize inflate software.''))
      else ub_bind (inflate_loop (zlib env (u32 dest_len) (take (u32 (length src)) src)) (u32 dest_len) 0)
             (\<lambda>output. ub_lift (memcpy dest 0 output 0 (length output))))"

definition FLETCHER32_CHECKSUM :: nat where
  "FLETCHER32_CHECKSUM = 4"

text \<open>The little-endian value of four bytes.\<close>

definition uint32_at :: "bytes \<Rightarrow> nat \<Rightarrow> 32 word" where
  "uint32_at b k = ucast (b ! k) OR push_bit 8 (ucast (b ! (k + 1))) OR push_bit 16 (ucast (b ! (k + 2))) OR push_bit 24 (ucast (b ! (k + 3)))"

definition apply_filter :: "filter_env \<Rightarrow> nat \<Rightarrow> nat \<Rightarrow> string \<Rightarrow> bytes \<Rightarrow> bytes ub_result" where
  "apply_filter env chunk_bytes elem_width f buf =
     (if f = ''deflate'' then inflate env (fresh env chunk_bytes) chunk_bytes buf
      else if f = ''shuffle'' then ub_lift (unshuffle (fresh env (length buf)) buf elem_width)
      else if f = ''fletcher32'' then
        (if length buf \<le> FLETCHER32_CHECKSUM then None
         else
           let n = length buf - FLETCHER32_CHECKSUM
           in case checksum_fletcher32 (take n buf) of
                None \<Rightarrow> None
              | Some c \<Rightarrow>
                  if uint32_at buf n \<noteq> c then
                    Some (Inl (BESInternalError ''Data read from the DMR++ handler did not match the Fletcher32 checksum.''))
                  else Some (Inr (take n buf)))
      else Some (Inr buf))"

definition filter_bytes :: "filter_env \<Rightarrow> string \<Rightarrow> nat \<Rightarrow> nat \<Rightarrow> bytes \<Rightarrow> bytes ub_result" where
  "filter_bytes env filters chunk_size elem_width buf =
     ub_each (apply_filter env (u64 (chunk_size * elem_width)) elem_width) (rev (split filters (CHR '' '') True)) buf"

subsection \<open>Shuffling and back\<close>

lemma duffs_copies_elems: "0 < elems \<Longrightarrow> duffs_copies elems = elems"
proof -
  assume "0 < elems"
  have e: "elems = 8 * (elems div 8) + elems mod 8" by simp
  show ?thesis
  proof (cases "elems mod 8 = 0")
    case True
    then have "0 < elems div 8" "(elems + 7) div 8 = elems div 8" using \<open>0 < elems\<close> e by linarith+
    then show ?thesis using True e by (simp add: duffs_copies_def)
  next
    case False
    have "elems mod 8 < 8" by simp
    then have "(elems + 7) div 8 = elems div 8 + 1" using False e by linarith
    then show ?thesis using False e by (simp add: duffs_copies_def)
  qed
qed

text \<open>What the HDF5 library stores: the first bytes of all elements, then the second bytes, and so on.\<close>

definition shuffle :: "nat \<Rightarrow> 'b list \<Rightarrow> 'b list" where
  "shuffle width x =
     (let elems = length x div width
      in if width > 1 \<and> elems > 1
         then map (\<lambda>k. x ! (k mod elems * width + k div elems)) [0 ..< width * elems] @ drop (width * elems) x
         else x)"

lemma length_shuffle [simp]: "length (shuffle width x) = length x"
  by (simp add: shuffle_def Let_def)

lemma elem_1: "k < length x \<Longrightarrow> elem (Suc 0) x k = [x ! k]"
  by (simp add: elem_def take_Suc hd_drop_conv_nth)

lemma filled_1_eq:
  assumes "filled 1 (elem 1 x) S t t'" and "length t = length x" and "{..< length x} \<subseteq> S"
  shows "t' = x"
proof (rule nth_equalityI)
  show len: "length t' = length x" using assms by (simp add: filled_length)
  fix k assume k: "k < length t'"
  then have "elem 1 t' k = elem 1 x k" using assms len by (auto simp: filled_def)
  then show "t' ! k = x ! k" using k len by (simp add: elem_1)
qed

lemma shuffle_nth:
  assumes "1 < width" and "1 < length x div width" and "i < width" and "j < length x div width"
  shows "shuffle width x ! (i * (length x div width) + j) = x ! (i + j * width)"
proof -
  let ?e = "length x div width"
  have "i * ?e + j < (i + 1) * ?e" using assms(4) by simp
  also have "\<dots> \<le> width * ?e" using assms(3) by (intro mult_le_mono1) simp
  finally have "i * ?e + j < width * ?e" .
  moreover have "(i * ?e + j) mod ?e = j" "(i * ?e + j) div ?e = i" using assms(4) by simp_all
  ultimately show ?thesis using assms(1,2) by (simp add: shuffle_def Let_def nth_append) (simp add: add.commute)
qed

lemma byte_positions:
  assumes "i < width" and "j < (e::nat)"
  shows "i + j * width < e * width" "i * e + j < width * e"
proof -
  have "i + j * width < (j + 1) * width" using assms by simp
  also have "\<dots> \<le> e * width" using assms(2) by (intro mult_le_mono1) simp
  finally show "i + j * width < e * width" .
  have "i * e + j < (i + 1) * e" using assms by simp
  also have "\<dots> \<le> width * e" using assms(1) by (intro mult_le_mono1) simp
  finally show "i * e + j < width * e" .
qed

lemma byte_cover:
  assumes "k < e * width" and "0 < width"
  shows "k \<in> (\<Union>i \<in> set [0 ..< width]. \<Union>j \<in> set [0 ..< e]. {i + j * width})"
proof (intro UN_I)
  show "k mod width \<in> set [0 ..< width]" "k div width \<in> set [0 ..< e]"
    using assms by (simp_all add: less_mult_imp_div_less)
  show "k \<in> {k mod width + k div width * width}" by simp
qed

lemma unshuffle_rows:
  assumes "1 < width" and e: "e = length x div width" "1 < e" and "length dest = length x"
  shows "\<exists>t'. for_each (\<lambda>i. for_each (\<lambda>j t. memcpy t (i + j * width) (shuffle width x) (i * e + j) 1) [0 ..< e]) [0 ..< width] dest = Some t'
    \<and> filled 1 (elem 1 x) (\<Union>i \<in> set [0 ..< width]. \<Union>j \<in> set [0 ..< e]. {i + j * width}) dest t'"
proof (rule for_each_filled [OF _ assms(4)], intro ballI allI impI)
  fix i and t :: "'a list" assume i: "i \<in> set [0 ..< width]" "length t = length x"
  show "\<exists>t'. for_each (\<lambda>j t. memcpy t (i + j * width) (shuffle width x) (i * e + j) 1) [0 ..< e] t = Some t'
      \<and> filled 1 (elem 1 x) (\<Union>j \<in> set [0 ..< e]. {i + j * width}) t t'"
  proof (rule for_each_filled [OF _ i(2)], intro ballI allI impI)
    fix j and t :: "'a list" assume j: "j \<in> set [0 ..< e]" "length t = length x"
    have ij: "i < width" "j < e" using i j by simp_all
    have "e * width \<le> length x" "width * e \<le> length x" by (simp_all add: e mult.commute)
    then have lt: "i + j * width < length x" "i * e + j < length x" using byte_positions [OF ij] by linarith+
    have "elem 1 (shuffle width x) (i * e + j) = elem 1 x (i + j * width)"
      using lt shuffle_nth [of width x i j] assms(1) e ij by (simp add: elem_1)
    then have "\<exists>t'. memcpy t ((i + j * width) * 1) (shuffle width x) ((i * e + j) * 1) (1 * 1) = Some t'
        \<and> filled 1 (elem 1 x) {i + j * width ..< i + j * width + 1} t t'"
      using lt j(2) by (intro memcpy_filled) simp_all
    moreover have "{i + j * width ..< i + j * width + 1} = {i + j * width}" by auto
    ultimately show "\<exists>t'. memcpy t (i + j * width) (shuffle width x) (i * e + j) 1 = Some t' \<and> filled 1 (elem 1 x) {i + j * width} t t'"
      by simp
  qed
qed

lemma unshuffle_leftover:
  assumes "1 < width" and e: "e = length x div width" "1 < e" and "length t = length x"
  shows "\<exists>t'. memcpy t (e * width) (shuffle width x) (width * e) (length x mod width) = Some t'
    \<and> filled 1 (elem 1 x) {e * width ..< e * width + length x mod width} t t'"
proof -
  have len: "e * width + length x mod width = length x" by (simp add: e)
  have "elem 1 (shuffle width x) (width * e + j) = elem 1 x (e * width + j)" if "j < length x mod width" for j
  proof -
    have "e * width + j < length x" using that len by linarith
    then show ?thesis using assms(1) e by (simp add: elem_1 shuffle_def Let_def nth_append mult.commute)
  qed
  then have "\<exists>t'. memcpy t (e * width * 1) (shuffle width x) (width * e * 1) (length x mod width * 1) = Some t'
      \<and> filled 1 (elem 1 x) {e * width ..< e * width + length x mod width} t t'"
    using len assms(4) by (intro memcpy_filled) (simp_all add: mult.commute)
  then show ?thesis by simp
qed

text \<open>
  C16: The byte loops of \<^const>\<open>unshuffle\<close>, with their unrolling and their leftover bytes, undo the shuffling of every
  buffer: for any length, and any element width that fits the 32-bit counter of the outer loop.
\<close>

theorem unshuffle_shuffle:
  assumes "0 < width" and "length dest = length x" and "width < 2 ^ 32"
  shows "unshuffle dest (shuffle width x) width = Some x"
proof (cases "width > 1 \<and> length x div width > 1")
  case False
  then show ?thesis
    using assms by (auto simp: unshuffle_def shuffle_def memcpy_def Let_def)
next
  case True
  define e where "e = length x div width"
  have e: "1 < width" "1 < e" "duffs_copies e = e" using True duffs_copies_elems [of e] by (simp_all add: e_def)
  have len: "e * width + length x mod width = length x" by (simp add: e_def)
  obtain t1 where t1: "for_each (\<lambda>i. for_each (\<lambda>j t. memcpy t (i + j * width) (shuffle width x) (i * e + j) 1) [0 ..< e]) [0 ..< width] dest = Some t1"
    "filled 1 (elem 1 x) (\<Union>i \<in> set [0 ..< width]. \<Union>j \<in> set [0 ..< e]. {i + j * width}) dest t1"
    using unshuffle_rows [OF e(1) e_def e(2) assms(2)] by blast
  have "length t1 = length x" using filled_length [OF t1(2)] assms(2) by simp
  then obtain t2 where t2: "memcpy t1 (e * width) (shuffle width x) (width * e) (length x mod width) = Some t2"
    "filled 1 (elem 1 x) {e * width ..< e * width + length x mod width} t1 t2"
    using unshuffle_leftover [OF e(1) e_def e(2)] by blast
  have "t2 = x"
  proof (rule filled_1_eq [OF filled_trans [OF t1(2) t2(2)] assms(2)])
    show "{..< length x} \<subseteq> (\<Union>i \<in> set [0 ..< width]. \<Union>j \<in> set [0 ..< e]. {i + j * width})
        \<union> {e * width ..< e * width + length x mod width}"
      using byte_cover [OF _ assms(1)] len by fastforce
  qed
  moreover have "t1 = x" if "length x mod width = 0"
    using filled_1_eq [OF t1(2) assms(2)] byte_cover [OF _ assms(1), of _ e] len that by fastforce
  moreover have "unshuffle dest (shuffle width x) width
      = (if length x mod width > 0 then memcpy t1 (e * width) (shuffle width x) (width * e) (length x mod width) else Some t1)"
    using e t1(1) assms(1,3) by (simp add: unshuffle_def Let_def e_def [symmetric])
  ultimately show ?thesis using t2(1) by auto
qed

theorem unshuffle_shuffle_witness:
  "unshuffle [0, 0, 0, 0, 0, 0, 0 :: nat] (shuffle 2 [1, 2, 3, 4, 5, 6, 7]) 2 = Some [1, 2, 3, 4, 5, 6, 7]"
  using unshuffle_shuffle [of 2 "[0, 0, 0, 0, 0, 0, 0 :: nat]" "[1, 2, 3, 4, 5, 6, 7]"] by simp

subsection \<open>The checksum without overflow\<close>

text \<open>The 16-bit numbers of the data, an odd last byte being the high half of one, and their two running sums.\<close>

fun words16 :: "bytes \<Rightarrow> nat list" where
  "words16 (x # y # rest) = (256 * unat x + unat y) # words16 rest"
| "words16 [x] = [256 * unat x]"
| "words16 [] = []"

fun sums :: "nat list \<Rightarrow> nat \<times> nat \<Rightarrow> nat \<times> nat" where
  "sums [] s = s"
| "sums (w # ws) (s1, s2) = sums ws (s1 + w, s2 + (s1 + w))"

lemma sums_append: "sums (ws @ vs) s = sums vs (sums ws s)"
  by (induction ws s rule: sums.induct) auto

lemma sums_mono: "snd s \<le> snd (sums ws s) \<and> fst s \<le> fst (sums ws s)"
  by (induction ws s rule: sums.induct) auto

lemma sums_bound:
  "\<forall>w \<in> set ws. w \<le> m \<Longrightarrow> fst (sums ws (s1, s2)) \<le> s1 + length ws * m
   \<and> 2 * snd (sums ws (s1, s2)) \<le> 2 * s2 + 2 * (length ws * s1) + m * (length ws * (length ws + 1))"
proof (induction ws arbitrary: s1 s2)
  case Nil
  then show ?case by simp
next
  case (Cons w ws)
  let ?n = "length ws"
  have w: "w \<le> m" using Cons.prems by simp
  have "fst (sums ws (s1 + w, s2 + (s1 + w))) \<le> s1 + w + ?n * m
      \<and> 2 * snd (sums ws (s1 + w, s2 + (s1 + w))) \<le> 2 * (s2 + (s1 + w)) + 2 * (?n * (s1 + w)) + m * (?n * (?n + 1))"
    using Cons.IH [of "s1 + w" "s2 + (s1 + w)"] Cons.prems by simp
  moreover have "2 * (?n * w) + 2 * w \<le> 2 * (?n * m) + 2 * m" using w by (simp add: add_mono)
  ultimately show ?case using w by (simp add: algebra_simps)
qed

lemma sums_cong:
  "s1 mod m = r1 mod m \<Longrightarrow> s2 mod m = r2 mod m \<Longrightarrow>
   fst (sums ws (s1, s2)) mod m = fst (sums ws (r1, r2)) mod m \<and> snd (sums ws (s1, s2)) mod m = snd (sums ws (r1, r2)) mod m"
proof (induction ws arbitrary: s1 s2 r1 r2)
  case Nil
  then show ?case by simp
next
  case (Cons w ws)
  have 1: "(s1 + w) mod m = (r1 + w) mod m" using Cons.prems(1) by (rule mod_add_cong [OF _ refl])
  have "(s2 + (s1 + w)) mod m = (r2 + (r1 + w)) mod m" by (rule mod_add_cong [OF Cons.prems(2) 1])
  from Cons.IH [OF 1 this] show ?case by simp
qed

lemma unat_less_8: "unat (x :: 8 word) < 256"
  using unsigned_less [of x] by simp

lemma unat_less_32: "unat (x :: 32 word) < 2 ^ 32"
  using unsigned_less [of x] by simp

lemma unat_ucast_8_32: "unat (ucast (x :: 8 word) :: 32 word) = unat x"
proof -
  have "unat x < 2 ^ 32" using unat_less_8 [of x] by simp
  then show ?thesis by (simp add: unsigned_ucast_eq take_bit_eq_mod)
qed

lemma unat_pair_value: "unat (pair_value x y) = 256 * unat x + unat y"
proof -
  have "push_bit 8 (ucast x :: 32 word) AND ucast y = 0"
    by (rule bit_word_eqI) (auto simp: bit_simps dest: bit_imp_le_length)
  then have "pair_value x y = push_bit 8 (ucast x) + ucast y"
    unfolding pair_value_def by (rule disjunctive_add_eq_or [symmetric])
  moreover have "unat (push_bit 8 (ucast x :: 32 word)) = 256 * unat x"
    using unat_less_8 [of x] by (simp add: push_bit_eq_mult unat_word_ariths unat_ucast_8_32)
  moreover have "256 * unat x + unat y < 2 ^ 32" using unat_less_8 [of x] unat_less_8 [of y] by simp
  ultimately show ?thesis by (simp add: unat_word_ariths unat_ucast_8_32)
qed

lemma unat_reduce16: "unat (reduce16 s) = unat s mod 65536 + unat s div 65536"
proof -
  have m: "s AND 0xffff = take_bit 16 s" by (simp add: take_bit_eq_mask mask_numeral)
  have "unat s div 65536 < 65536" using unat_less_32 [of s] by (simp add: less_mult_imp_div_less)
  moreover have "unat s mod 65536 < 65536" by simp
  ultimately have "unat s mod 65536 + unat s div 65536 < 2 ^ 32" by simp
  then show ?thesis
    by (simp add: reduce16_def m unat_word_ariths unsigned_take_bit_eq unat_drop_bit_eq take_bit_eq_mod drop_bit_eq_div)
qed

lemma reduce_cong: "(n mod 65536 + n div 65536) mod 65535 = n mod (65535::nat)"
proof -
  have "n = n mod 65536 + n div 65536 + 65535 * (n div 65536)" by simp
  then show ?thesis by (metis mod_mult_self2)
qed

text \<open>While the second sum stays below \<open>2 ^ 32\<close>, adding pairs of bytes in 32 bits is adding numbers.\<close>

lemma add_pairs_sums:
  assumes "2 * n \<le> length data" and "snd (sums (take n (words16 data)) (unat s1, unat s2)) < 2 ^ 32"
  shows "map_prod unat unat (add_pairs n data (s1, s2)) = sums (take n (words16 data)) (unat s1, unat s2)"
  using assms
proof (induction n arbitrary: data s1 s2)
  case 0
  then show ?case by simp
next
  case (Suc n)
  then obtain x y rest where data: "data = x # y # rest" by (cases data; cases "tl data") auto
  let ?w = "256 * unat x + unat y"
  have le: "unat s2 + (unat s1 + ?w) < 2 ^ 32"
    using Suc.prems(2) sums_mono [of "(unat s1 + ?w, unat s2 + (unat s1 + ?w))" "take n (words16 rest)"]
    by (simp add: data)
  then have u: "unat (s1 + pair_value x y) = unat s1 + ?w" "unat (s2 + (s1 + pair_value x y)) = unat s2 + (unat s1 + ?w)"
    by (simp_all add: unat_word_ariths unat_pair_value)
  show ?case
    using Suc.IH [of rest "s1 + pair_value x y" "s2 + (s1 + pair_value x y)"] Suc.prems by (simp add: data u Let_def)
qed

text \<open>The bounds between two blocks; 360 pairs are the most that cannot overflow from there.\<close>

definition fl_inv :: "32 word \<times> 32 word \<Rightarrow> bool" where
  "fl_inv s \<longleftrightarrow> unat (fst s) \<le> 65896 \<and> unat (snd s) \<le> 131070"

lemma words16_bound: "w \<in> set (words16 data) \<Longrightarrow> w \<le> 65535"
proof (induction data rule: words16.induct)
  case (1 x y rest)
  then show ?case using unat_less_8 [of x] unat_less_8 [of y] by auto
next
  case (2 x)
  then show ?case using unat_less_8 [of x] by auto
qed auto

lemma words16_take_drop:
  "2 * n \<le> length data \<Longrightarrow> words16 data = take n (words16 data) @ words16 (drop (2 * n) data) \<and> length (take n (words16 data)) = n"
proof (induction n arbitrary: data)
  case 0
  then show ?case by simp
next
  case (Suc n)
  then obtain x y rest where data: "data = x # y # rest" by (cases data; cases "tl data") auto
  then show ?case using Suc.IH [of rest] Suc.prems by simp
qed

lemma block_step:
  assumes inv: "fl_inv (s1, s2)" and n: "n \<le> 360" "2 * n \<le> length data"
    and r: "add_pairs n data (s1, s2) = (r1, r2)" and v: "sums (take n (words16 data)) (unat s1, unat s2) = (v1, v2)"
  shows "fl_inv (reduce16 r1, reduce16 r2)" and "unat (reduce16 r1) mod 65535 = v1 mod 65535" and "unat (reduce16 r2) mod 65535 = v2 mod 65535"
proof -
  let ?ws = "take n (words16 data)"
  have len: "length ?ws = n" using words16_take_drop [OF n(2)] by simp
  have "\<forall>w \<in> set ?ws. w \<le> 65535" using words16_bound by (auto dest: in_set_takeD)
  from sums_bound [OF this, of "unat s1" "unat s2"] len v
  have b: "v1 \<le> unat s1 + n * 65535" "2 * v2 \<le> 2 * unat s2 + 2 * (n * unat s1) + 65535 * (n * (n + 1))" by simp_all
  have s: "unat s1 \<le> 65896" "unat s2 \<le> 131070" using inv by (simp_all add: fl_inv_def)
  have "n * unat s1 \<le> 360 * 65896" using n(1) s(1) by (rule mult_le_mono)
  moreover have "n * (n + 1) \<le> 360 * 361" using n(1) by (intro mult_le_mono) simp_all
  then have "65535 * (n * (n + 1)) \<le> 65535 * (360 * 361)" by (rule mult_le_mono2)
  ultimately have v2: "v2 < 2 ^ 32" using b(2) s(2) by simp
  have "map_prod unat unat (add_pairs n data (s1, s2)) = (v1, v2)"
    using add_pairs_sums [OF n(2)] v2 v by simp
  then have u: "unat r1 = v1" "unat r2 = v2" using r by simp_all
  then show "unat (reduce16 r1) mod 65535 = v1 mod 65535" "unat (reduce16 r2) mod 65535 = v2 mod 65535"
    by (simp_all add: unat_reduce16 reduce_cong)
  have "v1 \<le> 65896 + 360 * 65535" using b(1) s(1) n(1) by linarith
  then have "v1 div 65536 \<le> 361" using div_le_mono [of v1 "65896 + 360 * 65535" 65536] by simp
  moreover have "v2 div 65536 < 65536" using v2 by (simp add: less_mult_imp_div_less)
  moreover have "v1 mod 65536 < 65536" "v2 mod 65536 < 65536" by simp_all
  ultimately show "fl_inv (reduce16 r1, reduce16 r2)" unfolding fl_inv_def fst_conv snd_conv unat_reduce16 u by linarith
qed

definition fl_rel :: "32 word \<times> 32 word \<Rightarrow> nat \<times> nat \<Rightarrow> bool" where
  "fl_rel s v \<longleftrightarrow> fl_inv s \<and> unat (fst s) mod 65535 = fst v mod 65535 \<and> unat (snd s) mod 65535 = snd v mod 65535"

lemma fl_rel_sums:
  assumes "fl_rel s v" and "fl_rel r (sums ws (unat (fst s), unat (snd s)))"
  shows "fl_rel r (sums ws v)"
  using assms sums_cong [of "unat (fst s)" 65535 "fst v" "unat (snd s)" "snd v" ws] by (simp add: fl_rel_def)

lemma sum_blocks_sums:
  "2 * len \<le> length data \<Longrightarrow> fl_rel s v \<Longrightarrow> fl_rel (sum_blocks len data s) (sums (take len (words16 data)) v)"
proof (induction len data s arbitrary: v rule: sum_blocks.induct)
  case (1 len data s)
  show ?case
  proof (cases "len = 0")
    case True
    then show ?thesis using "1.prems" by (simp add: sum_blocks.simps [of 0])
  next
    case False
    define n where "n = (if len > 360 then 360 else len)"
    obtain r1 r2 where r: "add_pairs n data s = (r1, r2)" by (cases "add_pairs n data s")
    obtain s1 s2 where s: "s = (s1, s2)" by (cases s)
    have n: "n \<le> 360" "2 * n \<le> length data" "n \<le> len" using "1.prems"(1) by (auto simp: n_def)
    let ?A = "take n (words16 data)" and ?B = "words16 (drop (2 * n) data)"
    obtain w1 w2 where w: "sums ?A (unat s1, unat s2) = (w1, w2)" by (cases "sums ?A (unat s1, unat s2)")
    have "fl_inv (s1, s2)" using "1.prems"(2) s by (simp add: fl_rel_def)
    from block_step [OF this n(1,2) r [unfolded s] w]
    have "fl_rel (reduce16 r1, reduce16 r2) (sums ?A (unat (fst s), unat (snd s)))"
      unfolding s fl_rel_def fst_conv snd_conv w by simp
    then have rel: "fl_rel (reduce16 r1, reduce16 r2) (sums ?A v)"
      by (rule fl_rel_sums [OF "1.prems"(2)])
    have W: "words16 data = ?A @ ?B" "length ?A = n" using words16_take_drop [OF n(2)] by blast+
    have "take len (?A @ ?B) = ?A @ take (len - n) ?B" using n(3) unfolding take_append W(2) by simp
    then have tk: "take len (words16 data) = ?A @ take (len - n) ?B" by (simp only: W(1) [symmetric])
    have "fl_rel (sum_blocks (len - n) (drop (2 * n) data) (reduce16 r1, reduce16 r2)) (sums (take (len - n) ?B) (sums ?A v))"
      by (rule "1.IH" [OF False n_def r [symmetric] refl _ rel]) (use "1.prems"(1) in auto)
    moreover have "sum_blocks len data s = sum_blocks (len - n) (drop (2 * n) data) (reduce16 r1, reduce16 r2)"
      using False r by (subst sum_blocks.simps) (simp only: Let_def n_def [symmetric] if_False prod.case)
    ultimately show ?thesis unfolding tk sums_append by (simp only:)
  qed
qed

lemma final_reduce: "unat s \<le> 131070 \<Longrightarrow> unat (reduce16 s) < 65536"
proof -
  assume s: "unat s \<le> 131070"
  have "unat s = unat s div 65536 * 65536 + unat s mod 65536" "unat s mod 65536 < 65536" by simp_all
  then have "unat s mod 65536 + unat s div 65536 < 65536" using s by linarith
  then show ?thesis by (simp add: unat_reduce16)
qed

lemma odd_byte:
  assumes "fl_rel (s1, s2) v"
  shows "fl_rel (reduce16 (s1 + push_bit 8 (ucast x)), reduce16 (s2 + (s1 + push_bit 8 (ucast (x :: 8 word))))) (sums [256 * unat x] v)"
proof -
  have s: "unat s1 \<le> 65896" "unat s2 \<le> 131070" using assms by (simp_all add: fl_rel_def fl_inv_def)
  have x: "unat x < 256" by (rule unat_less_8)
  have "unat (push_bit 8 (ucast x :: 32 word)) = 256 * unat x"
    using x by (simp add: push_bit_eq_mult unat_word_ariths unat_ucast_8_32)
  then have u: "unat (s1 + push_bit 8 (ucast x)) = unat s1 + 256 * unat x"
      "unat (s2 + (s1 + push_bit 8 (ucast x))) = unat s2 + (unat s1 + 256 * unat x)"
    using s x by (simp_all add: unat_word_ariths)
  have "(unat s1 + 256 * unat x) div 65536 \<le> 2" "(unat s2 + (unat s1 + 256 * unat x)) div 65536 \<le> 4"
    using s x by (simp_all add: div_le_mono [THEN order_trans])
  moreover have "(unat s1 + 256 * unat x) mod 65536 < 65536" "(unat s2 + (unat s1 + 256 * unat x)) mod 65536 < 65536" by simp_all
  ultimately have "fl_rel (reduce16 (s1 + push_bit 8 (ucast x)), reduce16 (s2 + (s1 + push_bit 8 (ucast x)))) (sums [256 * unat x] (unat s1, unat s2))"
    unfolding fl_rel_def fl_inv_def fst_conv snd_conv unat_reduce16 u reduce_cong sums.simps by linarith
  then show ?thesis using fl_rel_sums [OF assms, of _ "[256 * unat x]"] by simp
qed

text \<open>
  C17: The Fletcher checksum never overflows its 32-bit sums: its two halves are, modulo 65535, the sum of the 16-bit
  numbers of the data and the sum of their running sums, for data of any length except none.
\<close>

theorem checksum_fletcher32_sums:
  assumes "data \<noteq> []"
  shows "\<exists>c c1 c2. checksum_fletcher32 data = Some c \<and> unat c = c2 * 65536 + c1 \<and> c1 < 65536 \<and> c2 < 65536
     \<and> c1 mod 65535 = fst (sums (words16 data) (0, 0)) mod 65535
     \<and> c2 mod 65535 = snd (sums (words16 data) (0, 0)) mod 65535"
proof -
  let ?n = "length data div 2"
  obtain s1 s2 where s: "sum_blocks ?n data (0, 0) = (s1, s2)" by (cases "sum_blocks ?n data (0, 0)")
  have n: "2 * ?n \<le> length data" by simp
  have "fl_rel (0, 0) (0, 0)" by (simp add: fl_rel_def fl_inv_def)
  from sum_blocks_sums [OF n this] have rel: "fl_rel (s1, s2) (sums (take ?n (words16 data)) (0, 0))" by (simp add: s)
  define r where "r = (if length data mod 2 = 1
    then (reduce16 (s1 + push_bit 8 (ucast (last data))), reduce16 (s2 + (s1 + push_bit 8 (ucast (last data))))) else (s1, s2))"
  have r: "fl_rel r (sums (words16 data) (0, 0))"
  proof (cases "length data mod 2 = 1")
    case True
    then have odd: "length data = 2 * ?n + 1" by (metis mult_div_mod_eq)
    then have "drop (2 * ?n) data = [last data]" by (metis add_diff_cancel_left' append_butlast_last_id append_eq_conv_conj length_butlast list.size(3) nat.distinct(1) Suc_eq_plus1 diff_Suc_1)
    then have "words16 data = take ?n (words16 data) @ [256 * unat (last data)]"
      using words16_take_drop [OF n] by (metis words16.simps(2))
    then have "sums (words16 data) (0, 0) = sums [256 * unat (last data)] (sums (take ?n (words16 data)) (0, 0))"
      by (metis sums_append)
    then show ?thesis using odd_byte [OF rel] True by (simp only: r_def if_True simp_thms)
  next
    case False
    then have "length data = 2 * ?n" by (metis mult_div_mod_eq mod2_eq_if add.right_neutral)
    then have "words16 data = take ?n (words16 data)"
      using words16_take_drop [OF n] by (metis append.right_neutral drop_all order_refl words16.simps(3))
    then show ?thesis using rel False by (simp add: r_def)
  qed
  obtain t1 t2 where t: "r = (t1, t2)" by (cases r)
  let ?c1 = "reduce16 t1" and ?c2 = "reduce16 t2"
  have c: "unat ?c1 < 65536" "unat ?c2 < 65536" using r t by (auto intro!: final_reduce simp: fl_rel_def fl_inv_def)
  have sum: "checksum_fletcher32 data = Some (push_bit 16 ?c2 OR ?c1)"
    using t assms by (simp add: checksum_fletcher32_def s r_def Let_def split: if_splits)
  have "push_bit 16 ?c2 OR ?c1 = push_bit 16 ?c2 + ?c1"
  proof (rule disjunctive_add_eq_or [symmetric])
    have "?c1 = take_bit 16 ?c1"
      using c(1) unfolding word_unat_eq_iff unsigned_take_bit_eq by (simp add: take_bit_eq_mod)
    then have "k < 16" if "bit ?c1 k" for k using that by (metis bit_take_bit_iff)
    then show "push_bit 16 ?c2 AND ?c1 = 0"
      by (intro bit_word_eqI) (auto simp: bit_and_iff bit_push_bit_iff dest: leD)
  qed
  then have "unat (push_bit 16 ?c2 OR ?c1) = unat ?c2 * 65536 + unat ?c1"
    using c by (simp add: push_bit_eq_mult unat_word_ariths)
  moreover have "unat ?c1 mod 65535 = fst (sums (words16 data) (0, 0)) mod 65535" "unat ?c2 mod 65535 = snd (sums (words16 data) (0, 0)) mod 65535"
    using r t by (simp_all add: unat_reduce16 reduce_cong fl_rel_def)
  ultimately show ?thesis using c sum by blast
qed

theorem checksum_fletcher32_sums_witness:
  "\<exists>c c1 c2. checksum_fletcher32 [1, 2, 3] = Some c \<and> unat c = c2 * 65536 + c1 \<and> c1 < 65536 \<and> c2 < 65536
     \<and> c1 mod 65535 = fst (sums (words16 [1, 2, 3]) (0, 0)) mod 65535
     \<and> c2 mod 65535 = snd (sums (words16 [1, 2, 3]) (0, 0)) mod 65535"
  by (rule checksum_fletcher32_sums) simp

end
