(* ===== verification/Http_Curl.thy ===== *)
theory Http_Curl
  imports Bes_Act Bes_Util Std_Numbers
begin

text \<open>
  \<^verbatim>\<open>http/CurlUtils.cc\<close>, the part that decides whether a transfer succeeded, failed or is tried again.  libcurl and the
  server are the world: for every attempt they give the header lines and the pieces of the body that libcurl hands to the
  callbacks, and the codes it returns afterwards.  The delays between two attempts and the log are left out, and messages
  are shortened to their fixed text.
\<close>

datatype curl_code =
    CURLE_OK
  | CURLE_SSL_CONNECT_ERROR
  | CURLE_SSL_CACERT_BADFILE
  | CURLE_GOT_NOTHING
  | CURLE_OTHER nat

record 'b attempt =
  header_lines :: "string list"
  body_pieces :: "'b list list"
  perform_code :: curl_code
  getinfo_code :: curl_code
  http_code :: int
  last_accessed_url :: string

text \<open>A callback may throw, or have undefined behaviour.\<close>

datatype failure = Throws bes_error | Undefined

definition throw_bes :: "bes_error \<Rightarrow> (failure, 's, 'a) eact" where
  "throw_bes e = act_throw (Throws e)"

definition act_result :: "'a result \<Rightarrow> (failure, 's, 'a) eact" where
  "act_result r = (case r of Inl e \<Rightarrow> throw_bes e | Inr a \<Rightarrow> act_return a)"

definition act_option :: "'a option \<Rightarrow> (failure, 's, 'a) eact" where
  "act_option r = (case r of None \<Rightarrow> act_throw Undefined | Some a \<Rightarrow> act_return a)"

text \<open>The configuration: the \<^verbatim>\<open>Http.No.Retry.BESRegex\<close> keys, and the length of a match of a regular expression.\<close>

record http_env =
  no_retry_regexs :: "string list"
  regex_match :: "string \<Rightarrow> string \<Rightarrow> int"

definition retry_limit :: nat where
  "retry_limit = 10"

definition FILE_PROTOCOL :: string where
  "FILE_PROTOCOL = ''file://''"

definition HTTP_PROTOCOL :: string where
  "HTTP_PROTOCOL = ''http://''"

definition HTTPS_PROTOCOL :: string where
  "HTTPS_PROTOCOL = ''https://''"

definition is_retryable :: "http_env \<Rightarrow> string \<Rightarrow> bool" where
  "is_retryable env target_url = (\<forall>r \<in> set (no_retry_regexs env). regex_match env r target_url \<noteq> int (length target_url))"

definition eval_curl_easy_perform_code :: "curl_code \<Rightarrow> bool result" where
  "eval_curl_easy_perform_code c =
     (case c of
        CURLE_OK \<Rightarrow> Inr True
      | CURLE_SSL_CONNECT_ERROR \<Rightarrow> Inr False
      | CURLE_SSL_CACERT_BADFILE \<Rightarrow> Inr False
      | CURLE_GOT_NOTHING \<Rightarrow> Inr False
      | CURLE_OTHER _ \<Rightarrow> Inl (BESInternalError ''ERROR - Problem with data transfer.''))"

definition eval_http_status :: "http_env \<Rightarrow> string \<Rightarrow> string \<Rightarrow> int \<Rightarrow> bool result" where
  "eval_http_status env last_url requested_url status =
     (let msg = ''The response had an HTTP status of '' @ int_text status
      in if status = 0 then
           (if str_find requested_url FILE_PROTOCOL 0 \<noteq> Some 0 then Inl (BESInternalError msg) else Inr True)
         else if status = 200 \<or> status = 206 then Inr True
         else if status = 400 then Inl (BESSyntaxUserError msg)
         else if status = 401 \<or> status = 402 \<or> status = 403 then Inl (BESForbiddenError msg)
         else if status = 404 then Inl (BESNotFoundError msg)
         else if status = 408 then Inl (BESTimeoutError msg)
         else if status = 422 \<or> status = 500 \<or> status = 502 \<or> status = 503 \<or> status = 504 then
           (if is_retryable env last_url then Inr False else Inl (BESInternalError msg))
         else Inl (BESInternalError msg))"

definition eval_http_get_response :: "http_env \<Rightarrow> 'b attempt \<Rightarrow> string \<Rightarrow> bool result" where
  "eval_http_get_response env att requested_url =
     (case getinfo_code att of
        CURLE_GOT_NOTHING \<Rightarrow> Inr False
      | CURLE_OK \<Rightarrow> eval_http_status env (last_accessed_url att) requested_url (http_code att)
      | _ \<Rightarrow> Inl (BESInternalError ''Error acquiring HTTP response code: ''))"

definition curl_easy_perform ::
  "(string \<Rightarrow> (failure, 's, unit) eact) \<Rightarrow> ('b list \<Rightarrow> (failure, 's, unit) eact) \<Rightarrow> 'b attempt \<Rightarrow> (failure, 's, unit) eact" where
  "curl_easy_perform on_header on_body att =
     act_then (act_each on_header (header_lines att)) (act_each on_body (body_pieces att))"

text \<open>Both tests after an attempt: nothing obvious went wrong with libcurl, and then with HTTP.\<close>

definition eval_attempt :: "http_env \<Rightarrow> string \<Rightarrow> 'b attempt \<Rightarrow> bool result" where
  "eval_attempt env target_url att =
     res_bind (eval_curl_easy_perform_code (perform_code att)) (\<lambda>success.
       if success then eval_http_get_response env att target_url else Inr False)"

text \<open>The loop, with the number of attempts that are left; attempts are numbered from 1.\<close>

fun perform_loop ::
  "http_env \<Rightarrow> (string \<Rightarrow> (failure, 's, unit) eact) \<Rightarrow> ('b list \<Rightarrow> (failure, 's, unit) eact) \<Rightarrow> string \<Rightarrow> (nat \<Rightarrow> 'b attempt)
   \<Rightarrow> nat \<Rightarrow> (failure, 's, unit) eact" where
  "perform_loop env on_header on_body target_url world 0 =
     throw_bes (BESInternalError (''ERROR - Made 10 failed attempts to retrieve the URL '' @ target_url
       @ '' The retry limit has been exceeded. Giving up!''))"
| "perform_loop env on_header on_body target_url world (Suc left) =
     (let att = world (retry_limit - left)
      in act_then (curl_easy_perform on_header on_body att)
           (act_bind (act_result (eval_attempt env target_url att)) (\<lambda>success.
              if success then act_return () else perform_loop env on_header on_body target_url world left)))"

definition super_easy_perform ::
  "http_env \<Rightarrow> (string \<Rightarrow> (failure, 's, unit) eact) \<Rightarrow> ('b list \<Rightarrow> (failure, 's, unit) eact) \<Rightarrow> string \<Rightarrow> (nat \<Rightarrow> 'b attempt)
   \<Rightarrow> (failure, 's, unit) eact" where
  "super_easy_perform env on_header on_body target_url world =
     (if target_url = [] then throw_bes (BESInternalError ''URL acquisition failed.'')
      else perform_loop env on_header on_body target_url world retry_limit)"

definition get_range_arg_string :: "nat \<Rightarrow> nat \<Rightarrow> string" where
  "get_range_arg_string offset sz = nat_text offset @ ''-'' @ nat_text ((offset + sz + (2 ^ 64 - 1)) mod 2 ^ 64)"

subsection \<open>When a transfer succeeds\<close>

lemma act_each_append: "act_each f (xs @ ys) = act_then (act_each f xs) (act_each f ys)"
proof (induction xs)
  case Nil
  then show ?case by (simp add: act_then_def act_bind_def act_return_def fun_eq_iff)
next
  case (Cons x xs)
  then show ?case by (simp add: act_then_def act_bind_def fun_eq_iff split: prod.splits sum.splits)
qed

text \<open>An attempt after which the code tries again.\<close>

definition retried :: "http_env \<Rightarrow> string \<Rightarrow> 'b attempt \<Rightarrow> bool" where
  "retried env url att \<longleftrightarrow> eval_attempt env url att = Inr False"

definition accepted :: "http_env \<Rightarrow> string \<Rightarrow> 'b attempt \<Rightarrow> bool" where
  "accepted env url att \<longleftrightarrow> eval_attempt env url att = Inr True"

lemma perform_loop_retry:
  assumes "retried env url (world (retry_limit - left))"
    and "curl_easy_perform h b (world (retry_limit - left)) s = (Inr (), s')"
  shows "perform_loop env h b url world (Suc left) s = perform_loop env h b url world left s'"
  using assms by (simp add: retried_def act_then_def act_bind_def act_result_def act_return_def Let_def)

lemma perform_loop_done:
  assumes "accepted env url (world (retry_limit - left))"
    and "curl_easy_perform h b (world (retry_limit - left)) s = (Inr (), s')"
  shows "perform_loop env h b url world (Suc left) s = (Inr (), s')"
  using assms by (simp add: accepted_def act_then_def act_bind_def act_result_def act_return_def Let_def)

lemma perform_loop_error:
  assumes "curl_easy_perform h b (world (retry_limit - left)) s = (Inl e, s')"
  shows "perform_loop env h b url world (Suc left) s = (Inl e, s')"
  using assms by (simp add: act_then_def act_bind_def Let_def)

text \<open>
  An accepted attempt gives what it delivers, when the attempts before it keep \<open>P\<close>.  \<open>k\<close> is the number of those attempts.
\<close>

lemma perform_loop_succeeds:
  assumes "k < left" and "left \<le> retry_limit" and "P s"
    and "\<forall>j < k. retried env url (world (retry_limit - left + j + 1))
           \<and> (\<forall>s. P s \<longrightarrow> (\<exists>s'. curl_easy_perform h b (world (retry_limit - left + j + 1)) s = (Inr (), s') \<and> P s'))"
    and "accepted env url (world (retry_limit - left + k + 1))"
    and "\<forall>s. P s \<longrightarrow> (\<exists>s'. curl_easy_perform h b (world (retry_limit - left + k + 1)) s = (Inr (), s') \<and> Q s')"
  shows "\<exists>s'. perform_loop env h b url world left s = (Inr (), s') \<and> Q s'"
  using assms
proof (induction k arbitrary: left s)
  case 0
  from 0(1) obtain l where l: "left = Suc l" by (cases left) simp_all
  then have e: "retry_limit - left + 0 + 1 = retry_limit - l" using 0(2) by simp
  obtain s' where "curl_easy_perform h b (world (retry_limit - l)) s = (Inr (), s')" "Q s'"
    using 0(3) 0(6) [rule_format] unfolding e by blast
  moreover have "accepted env url (world (retry_limit - l))" using 0(5) unfolding e .
  ultimately show ?case using perform_loop_done [of env url world l h b s s'] unfolding l by blast
next
  case (Suc k)
  from Suc.prems(1) obtain l where l: "left = Suc l" by (cases left) simp_all
  have e: "retry_limit - left + 0 + 1 = retry_limit - l" "retry_limit - left + Suc j + 1 = retry_limit - l + j + 1" for j
    using Suc.prems(1,2) by (simp_all add: l)
  note before = Suc.prems(4) [rule_format]
  have first: "retried env url (world (retry_limit - l))"
      "\<exists>s'. curl_easy_perform h b (world (retry_limit - l)) s = (Inr (), s') \<and> P s'"
    using before [of 0] Suc.prems(3) unfolding e(1) by simp_all
  then obtain s1 where s1: "curl_easy_perform h b (world (retry_limit - l)) s = (Inr (), s1)" "P s1" by blast
  have "perform_loop env h b url world left s = perform_loop env h b url world l s1"
    unfolding l using perform_loop_retry [of env url world l h b s s1] first(1) s1(1) by blast
  moreover have "\<exists>s'. perform_loop env h b url world l s1 = (Inr (), s') \<and> Q s'"
  proof (rule Suc.IH)
    show "k < l" "l \<le> retry_limit" "P s1" using Suc.prems(1,2) l s1 by simp_all
    show "\<forall>j < k. retried env url (world (retry_limit - l + j + 1))
         \<and> (\<forall>s. P s \<longrightarrow> (\<exists>s'. curl_easy_perform h b (world (retry_limit - l + j + 1)) s = (Inr (), s') \<and> P s'))"
      using before [of "Suc j" for j] unfolding e(2) by simp
    show "accepted env url (world (retry_limit - l + k + 1))"
      using Suc.prems(5) unfolding e(2) .
    show "\<forall>s. P s \<longrightarrow> (\<exists>s'. curl_easy_perform h b (world (retry_limit - l + k + 1)) s = (Inr (), s') \<and> Q s')"
      using Suc.prems(6) unfolding e(2) .
  qed
  ultimately show ?case by simp
qed

lemma super_easy_perform_succeeds:
  assumes "url \<noteq> []" and "k < retry_limit" and "P s"
    and "\<And>j. j < k \<Longrightarrow> retried env url (world (j + 1))"
    and "\<And>j s. j < k \<Longrightarrow> P s \<Longrightarrow> \<exists>s'. curl_easy_perform h b (world (j + 1)) s = (Inr (), s') \<and> P s'"
    and "accepted env url (world (k + 1))"
    and "\<And>s. P s \<Longrightarrow> \<exists>s'. curl_easy_perform h b (world (k + 1)) s = (Inr (), s') \<and> Q s'"
  shows "\<exists>s'. super_easy_perform env h b url world s = (Inr (), s') \<and> Q s'"
proof -
  have "\<exists>s'. perform_loop env h b url world retry_limit s = (Inr (), s') \<and> Q s'"
  proof (rule perform_loop_succeeds [of k retry_limit P s])
    show "k < retry_limit" "retry_limit \<le> retry_limit" "P s" by (simp_all add: assms)
    show "\<forall>j < k. retried env url (world (retry_limit - retry_limit + j + 1))
         \<and> (\<forall>s. P s \<longrightarrow> (\<exists>s'. curl_easy_perform h b (world (retry_limit - retry_limit + j + 1)) s = (Inr (), s') \<and> P s'))"
      using assms(4,5) by simp
  qed (use assms(6,7) in simp_all)
  then show ?thesis using assms(1) by (simp add: super_easy_perform_def)
qed

end
