(* ===== verification/Dmrpp_Chunk.thy ===== *)
theory Dmrpp_Chunk
  imports Dmrpp_Filters Http_Curl
begin

text \<open>
  \<^verbatim>\<open>modules/dmrpp_module/Chunk.cc\<close> and \<^verbatim>\<open>CurlHandlePool.cc\<close>: the transfer of the bytes of a chunk and what is done
  with them.  A chunk writes to memory of its own or to a part of the buffer of the super chunk it belongs to.  libcurl, the
  server, zlib, the effective URLs, the allowed hosts, the parser of S3 errors and the text to float conversions are
  parameters.  \<^verbatim>\<open>ENABLE_TRACKING_QUERY_PARAMETER\<close> is 0, so there are no query markers.
\<close>

subsection \<open>Chunks\<close>

datatype dods_type =
    dods_int8_c | dods_int16_c | dods_int32_c | dods_int64_c
  | dods_uint8_c | dods_byte_c | dods_uint16_c | dods_uint32_c | dods_uint64_c
  | dods_float32_c | dods_float64_c | dods_str_c | dods_url_c | dods_null_c

text \<open>\<^verbatim>\<open>d_read_buffer\<close> with \<^verbatim>\<open>d_read_buffer_is_mine\<close>: a shared buffer is given by where it starts in that of the super chunk.\<close>

datatype read_buffer = Nullptr | Mine bytes | Shared nat

record chunk =
  c_data_url :: "string option"
  c_byte_order :: string
  c_fill_value :: string
  c_size :: nat
  c_offset :: nat
  c_uses_fill_value :: bool
  c_fill_value_type :: dods_type
  c_position :: "nat list"
  c_read_buffer :: read_buffer
  c_bytes_read :: nat
  c_read_buffer_size :: nat
  c_is_read :: bool
  c_is_inflated :: bool
  c_response_content_type :: string

definition new_chunk :: "string option \<Rightarrow> string \<Rightarrow> nat \<Rightarrow> nat \<Rightarrow> nat list \<Rightarrow> chunk" where
  "new_chunk data_url order sz offset pia =
     \<lparr>c_data_url = data_url, c_byte_order = order, c_fill_value = [], c_size = sz, c_offset = offset, c_uses_fill_value = False,
      c_fill_value_type = dods_null_c, c_position = pia, c_read_buffer = Nullptr, c_bytes_read = 0, c_read_buffer_size = 0,
      c_is_read = False, c_is_inflated = False, c_response_content_type = []\<rparr>"

definition new_fill_chunk :: "string \<Rightarrow> string \<Rightarrow> dods_type \<Rightarrow> nat \<Rightarrow> nat list \<Rightarrow> chunk" where
  "new_fill_chunk order value fv_type chunk_size pia =
     (new_chunk None order chunk_size 0 pia)\<lparr>c_fill_value := value, c_uses_fill_value := True, c_fill_value_type := fv_type\<rparr>"

text \<open>
  The parameters.  \<open>world url range k\<close> is the \<open>k\<close>-th attempt to get a range of a URL, and \<open>setup_error\<close> what setting up a
  handle throws, if anything.
\<close>

record s3_document =
  s3_root :: "string option"
  s3_code :: string
  s3_message :: string

record dmrpp_env = filter_env +
  http :: http_env
  effective_url :: "string \<Rightarrow> string"
  is_allowed :: "string \<Rightarrow> bool"
  setup_error :: "string \<Rightarrow> bes_error option"
  world :: "string \<Rightarrow> string \<Rightarrow> nat \<Rightarrow> 8 word attempt"
  s3_parse :: "string \<Rightarrow> s3_document option"
  float_bytes :: "string \<Rightarrow> bytes result"
  double_bytes :: "string \<Rightarrow> bytes result"

text \<open>The state a chunk is read in: which handles are in use, the chunk and the buffer it may share.\<close>

record transfer =
  handles :: "bool list"
  the_chunk :: chunk
  shared :: bytes

type_synonym 'a reading = "(failure, transfer, 'a) eact"

definition with_chunk :: "(chunk \<Rightarrow> chunk) \<Rightarrow> unit reading" where
  "with_chunk f = act_modify (\<lambda>s. s\<lparr>the_chunk := f (the_chunk s)\<rparr>)"

definition is_mine :: "chunk \<Rightarrow> bool" where
  "is_mine c = (case c_read_buffer c of Shared _ \<Rightarrow> False | _ \<Rightarrow> True)"

definition set_read_buffer :: "read_buffer \<Rightarrow> nat \<Rightarrow> nat \<Rightarrow> chunk \<Rightarrow> chunk" where
  "set_read_buffer buf buf_size bytes_read c = c\<lparr>c_read_buffer := buf, c_read_buffer_size := buf_size, c_bytes_read := bytes_read\<rparr>"

definition set_rbuf_to_size :: "'z dmrpp_env_scheme \<Rightarrow> chunk \<Rightarrow> chunk" where
  "set_rbuf_to_size env c = set_read_buffer (Mine (fresh env (c_size c))) (c_size c) 0 c"

text \<open>The bytes of the read buffer.\<close>

definition rbuf :: "bytes \<Rightarrow> chunk \<Rightarrow> bytes" where
  "rbuf sh c = (case c_read_buffer c of
      Nullptr \<Rightarrow> [] | Mine b \<Rightarrow> take (c_read_buffer_size c) b | Shared k \<Rightarrow> take (c_read_buffer_size c) (drop k sh))"

definition write_rbuf :: "nat \<Rightarrow> bytes \<Rightarrow> unit reading" where
  "write_rbuf pos src s =
     (case c_read_buffer (the_chunk s) of
        Nullptr \<Rightarrow> act_throw Undefined s
      | Mine b \<Rightarrow> act_bind (act_option (memcpy b pos src 0 (length src)))
          (\<lambda>b. with_chunk (\<lambda>c. c\<lparr>c_read_buffer := Mine b\<rparr>)) s
      | Shared k \<Rightarrow> act_bind (act_option (memcpy (shared s) (k + pos) src 0 (length src)))
          (\<lambda>b. act_modify (\<lambda>s. s\<lparr>shared := b\<rparr>)) s)"

definition set_bytes_read :: "nat \<Rightarrow> unit reading" where
  "set_bytes_read n = with_chunk (\<lambda>c. c\<lparr>c_bytes_read := n\<rparr>)"

definition get_data_url :: "'z dmrpp_env_scheme \<Rightarrow> chunk \<Rightarrow> string option" where
  "get_data_url env c = map_option (effective_url env) (c_data_url c)"

subsection \<open>The handles\<close>

definition release_handle :: "nat \<Rightarrow> unit reading" where
  "release_handle i = act_modify (\<lambda>s. s\<lparr>handles := (handles s)[i := False]\<rparr>)"

definition release_all_handles :: "unit reading" where
  "release_all_handles = act_modify (\<lambda>s. s\<lparr>handles := replicate (length (handles s)) False\<rparr>)"

definition get_easy_handle :: "'z dmrpp_env_scheme \<Rightarrow> nat option reading" where
  "get_easy_handle env =
     act_bind (act_gets the_chunk) (\<lambda>c.
     act_bind (act_option (get_data_url env c)) (\<lambda>url.
       if \<not> is_allowed env url then
         throw_bes (BESForbiddenError (''ERROR! The chunk url '' @ url @ '' was rejected because: ''
           @ ''The requested resource does not match any of the AllowedHost rules.''))
       else
         act_bind (act_gets handles) (\<lambda>hs.
           case find_idx Not hs of
             None \<Rightarrow> act_return None
           | Some i \<Rightarrow>
               act_then (act_modify (\<lambda>s. s\<lparr>handles := (handles s)[i := True]\<rparr>))
                 (case setup_error env url of Some e \<Rightarrow> throw_bes e | None \<Rightarrow> act_return (Some i)))))"

subsection \<open>What libcurl calls\<close>

definition chunk_header_callback :: "string \<Rightarrow> unit reading" where
  "chunk_header_callback buffer =
     (if length buffer < 2 then act_throw Undefined
      else
        let header = take (length buffer - 2) buffer
        in if str_find header ''Content-Type'' 0 = None then act_return ()
           else with_chunk (\<lambda>c. c\<lparr>c_response_content_type :=
                  drop (case find_last_of header (CHR '' '') of None \<Rightarrow> 0 | Some i \<Rightarrow> i + 1) header\<rparr>))"

definition process_s3_error_response :: "'z dmrpp_env_scheme \<Rightarrow> string \<Rightarrow> string \<Rightarrow> bes_error" where
  "process_s3_error_response env data_url xml_message =
     (case s3_parse env xml_message of
        None \<Rightarrow> BESInternalError ''The underlying data store returned an unintelligible error message.''
      | Some doc \<Rightarrow>
          if s3_root doc \<noteq> Some ''Error'' then BESInternalError ''The underlying data store returned a bogus error message.''
          else if s3_code doc = ''AccessDenied'' then
            BESForbiddenError (''ACCESS DENIED - The underlying object store has refused access to: '' @ data_url
              @ '' Object Store Message: '' @ s3_message doc)
          else
            BESInternalError (''ERROR - The underlying object store returned an error. (Tried: '' @ data_url
              @ '') Object Store Message: '' @ s3_message doc))"

text \<open>\<^verbatim>\<open>reinterpret_cast<const char *>(buffer)\<close> as a \<^verbatim>\<open>string\<close>: up to the first zero byte, which libcurl does not add.\<close>

definition c_string :: "bytes \<Rightarrow> string option" where
  "c_string b = (if 0 \<in> set b then Some (map (\<lambda>x. char_of (unat x)) (takeWhile (\<lambda>x. x \<noteq> 0) b)) else None)"

definition chunk_write_data :: "'z dmrpp_env_scheme \<Rightarrow> bytes \<Rightarrow> unit reading" where
  "chunk_write_data env buffer =
     act_bind (act_gets the_chunk) (\<lambda>chunk.
     act_bind (act_option (get_data_url env chunk)) (\<lambda>data_url.
       if str_find (c_response_content_type chunk) ''application/xml'' 0 \<noteq> None then
         act_bind (act_option (c_string buffer)) (\<lambda>msg.
           throw_bes (process_s3_error_response env data_url
             (take (case find_last_not_of msg ([CHR 0x09, CHR 0x0A, CHR 0x0B, CHR 0x0C, CHR 0x0D] @ '' 0'') of None \<Rightarrow> 0 | Some i \<Rightarrow> i + 1) msg)))
       else if u64 (c_bytes_read chunk + length buffer) > c_read_buffer_size chunk then
         act_then release_all_handles
           (throw_bes (BESInternalError ''ERROR! The number of bytes_read plus the number of bytes to read is larger than the target buffer size''))
       else act_then (write_rbuf (c_bytes_read chunk) buffer) (set_bytes_read (u64 (c_bytes_read chunk + length buffer)))))"

subsection \<open>Reading a chunk\<close>

definition protocol_of :: "string \<Rightarrow> string" where
  "protocol_of url = lowercase (case str_find url ''://'' 0 of None \<Rightarrow> url | Some i \<Rightarrow> take (i + 3) url)"

definition is_http :: "string \<Rightarrow> bool" where
  "is_http url \<longleftrightarrow> protocol_of url = HTTPS_PROTOCOL \<or> protocol_of url = HTTP_PROTOCOL"

definition read_data :: "'z dmrpp_env_scheme \<Rightarrow> unit reading" where
  "read_data env =
     act_bind (act_gets the_chunk) (\<lambda>c.
     act_bind (act_option (get_data_url env c)) (\<lambda>url.
       let w = world env url (get_range_arg_string (c_offset c) (c_size c))
       in act_then
            (if is_http url
             then super_easy_perform (http env) chunk_header_callback (chunk_write_data env) url w
             else act_then (curl_easy_perform chunk_header_callback (chunk_write_data env) (w 1))
                    (if perform_code (w 1) \<noteq> CURLE_OK then throw_bes (BESInternalError ''ERROR - Data transfer error: '') else act_return ()))
            (with_chunk (\<lambda>c. c\<lparr>c_is_read := True\<rparr>))))"

definition act_finally :: "('e, 's, 'a) eact \<Rightarrow> ('e, 's, unit) eact \<Rightarrow> ('e, 's, 'a) eact" where
  "act_finally m f s = (case m s of (r, s') \<Rightarrow> (r, snd (f s')))"

definition transfer_chunk :: "'z dmrpp_env_scheme \<Rightarrow> unit reading" where
  "transfer_chunk env =
     act_bind (get_easy_handle env) (\<lambda>handle.
       case handle of
         None \<Rightarrow> throw_bes (BESInternalError ''No more libcurl handles.'')
       | Some i \<Rightarrow> act_finally (read_data env) (release_handle i))"

text \<open>The bytes of a number in memory, on a little-endian host.\<close>

definition le_bytes :: "nat \<Rightarrow> int \<Rightarrow> bytes" where
  "le_bytes n v = map (\<lambda>k. word_of_int (v div 256 ^ k)) [0 ..< n]"

definition text_int :: "int \<Rightarrow> int \<Rightarrow> string \<Rightarrow> int result" where
  "text_int lo hi s =
     (let (v, rest) = scan_int s
      in if rest = s then Inl StdInvalidArgument else if v < lo \<or> hi < v then Inl StdOutOfRange else Inr v)"

definition stoi :: "string \<Rightarrow> int result" where
  "stoi = text_int (- (2 ^ 31)) (2 ^ 31 - 1)"

definition stoll :: "string \<Rightarrow> int result" where
  "stoll = text_int LONG_MIN LONG_MAX"

text \<open>\<^verbatim>\<open>strtoul\<close> accepts a minus sign and negates in 64 bits.\<close>

definition stoul :: "string \<Rightarrow> int result" where
  "stoul s = text_int (- (2 ^ 64 - 1)) (2 ^ 64 - 1) s"

definition get_value_size :: "dods_type \<Rightarrow> nat result" where
  "get_value_size t =
     (if t \<in> {dods_int8_c, dods_uint8_c, dods_byte_c} then Inr 1
      else if t \<in> {dods_int16_c, dods_uint16_c} then Inr 2
      else if t \<in> {dods_int32_c, dods_uint32_c, dods_float32_c} then Inr 4
      else if t \<in> {dods_int64_c, dods_uint64_c, dods_float64_c} then Inr 8
      else Inl (BESInternalError ''Unknown fill value type.''))"

definition get_value_ptr :: "'z dmrpp_env_scheme \<Rightarrow> dods_type \<Rightarrow> string \<Rightarrow> bytes result" where
  "get_value_ptr env t v =
     (if t \<in> {dods_int8_c, dods_uint8_c, dods_byte_c} then res_bind (stoi v) (\<lambda>i. Inr (le_bytes 1 i))
      else if t \<in> {dods_int16_c, dods_uint16_c} then res_bind (stoi v) (\<lambda>i. Inr (le_bytes 2 i))
      else if t = dods_int32_c then res_bind (stoi v) (\<lambda>i. Inr (le_bytes 4 i))
      else if t = dods_uint32_c then res_bind (stoul v) (\<lambda>i. Inr (le_bytes 4 i))
      else if t = dods_int64_c then res_bind (stoll v) (\<lambda>i. Inr (le_bytes 8 i))
      else if t = dods_uint64_c then res_bind (stoul v) (\<lambda>i. Inr (le_bytes 8 i))
      else if t = dods_float32_c then float_bytes env v
      else if t = dods_float64_c then double_bytes env v
      else Inl (BESInternalError ''Unknown fill value type.''))"

text \<open>The counter of the loop is an \<^verbatim>\<open>int\<close>.\<close>

definition load_fill_values :: "'z dmrpp_env_scheme \<Rightarrow> unit reading" where
  "load_fill_values env =
     act_bind (act_gets the_chunk) (\<lambda>c.
     act_bind (act_result (get_value_ptr env (c_fill_value_type c) (c_fill_value c))) (\<lambda>value.
     act_bind (act_result (get_value_size (c_fill_value_type c))) (\<lambda>value_size.
       if c_read_buffer_size c div value_size \<ge> 2 ^ 31 then act_throw Undefined
       else act_then (act_each (\<lambda>i. write_rbuf (i * value_size) (take value_size value)) [0 ..< c_read_buffer_size c div value_size])
              (set_bytes_read (c_read_buffer_size c)))))"

definition read_chunk :: "'z dmrpp_env_scheme \<Rightarrow> unit reading" where
  "read_chunk env =
     act_bind (act_gets the_chunk) (\<lambda>c.
       if c_is_read c then act_return ()
       else
         act_then (if is_mine c then with_chunk (set_rbuf_to_size env) else act_return ())
        (act_then (if c_uses_fill_value c then load_fill_values env else transfer_chunk env)
        (act_bind (act_gets the_chunk) (\<lambda>c.
           if c_size c \<noteq> c_bytes_read c then throw_bes (BESInternalError ''Wrong number of bytes read for chunk'')
           else with_chunk (\<lambda>c. c\<lparr>c_is_read := True\<rparr>)))))"

definition act_ub :: "'a ub_result \<Rightarrow> (failure, 's, 'a) eact" where
  "act_ub r = act_bind (act_option r) act_result"

definition filter_step :: "'z dmrpp_env_scheme \<Rightarrow> nat \<Rightarrow> nat \<Rightarrow> string \<Rightarrow> unit reading" where
  "filter_step env chunk_bytes elem_width f =
     act_bind (act_gets (\<lambda>s. rbuf (shared s) (the_chunk s))) (\<lambda>buf.
     act_bind (act_ub (apply_filter (filter_env.truncate env) chunk_bytes elem_width f buf)) (\<lambda>out.
       with_chunk (\<lambda>c.
         if f = ''deflate'' then set_read_buffer (Mine out) chunk_bytes chunk_bytes c
         else if f = ''shuffle'' then set_read_buffer (Mine out) (c_read_buffer_size c) (c_read_buffer_size c) c
         else if f = ''fletcher32'' then c\<lparr>c_read_buffer_size := c_read_buffer_size c - FLETCHER32_CHECKSUM\<rparr>
         else c)))"

definition filter_chunk :: "'z dmrpp_env_scheme \<Rightarrow> string \<Rightarrow> nat \<Rightarrow> nat \<Rightarrow> unit reading" where
  "filter_chunk env filters chunk_size elem_width =
     act_bind (act_gets the_chunk) (\<lambda>c.
       if c_is_inflated c then act_return ()
       else act_then (act_each (filter_step env (u64 (chunk_size * elem_width)) elem_width) (rev (split filters (CHR '' '') True)))
              (with_chunk (\<lambda>c. c\<lparr>c_is_inflated := True\<rparr>)))"

subsection \<open>Writing to the buffer\<close>

definition buffer_ok :: "transfer \<Rightarrow> bool" where
  "buffer_ok s \<longleftrightarrow> (case c_read_buffer (the_chunk s) of
      Nullptr \<Rightarrow> False
    | Mine b \<Rightarrow> c_read_buffer_size (the_chunk s) \<le> length b
    | Shared k \<Rightarrow> k + c_read_buffer_size (the_chunk s) \<le> length (shared s))"

definition overwrite :: "bytes \<Rightarrow> nat \<Rightarrow> bytes \<Rightarrow> bytes" where
  "overwrite b pos d = take pos b @ d @ drop (pos + length d) b"

definition poke :: "nat \<Rightarrow> bytes \<Rightarrow> transfer \<Rightarrow> transfer" where
  "poke pos d s =
     (case c_read_buffer (the_chunk s) of
        Nullptr \<Rightarrow> s
      | Mine b \<Rightarrow> s\<lparr>the_chunk := (the_chunk s)\<lparr>c_read_buffer := Mine (overwrite b pos d)\<rparr>\<rparr>
      | Shared k \<Rightarrow> s\<lparr>shared := overwrite (shared s) (k + pos) d\<rparr>)"

lemma length_overwrite: "pos + length d \<le> length b \<Longrightarrow> length (overwrite b pos d) = length b"
  by (simp add: overwrite_def)

lemma overwrite_overwrite:
  "pos + length d + length e \<le> length b \<Longrightarrow> overwrite (overwrite b pos d) (pos + length d) e = overwrite b pos (d @ e)"
  by (simp add: overwrite_def algebra_simps)

lemma memcpy_overwrite: "pos + length d \<le> length b \<Longrightarrow> memcpy b pos d 0 (length d) = Some (overwrite b pos d)"
  by (simp add: memcpy_def overwrite_def)

lemma poke_frame [simp]:
  "handles (poke pos d s) = handles s"
  "c_read_buffer_size (the_chunk (poke pos d s)) = c_read_buffer_size (the_chunk s)"
  "c_bytes_read (the_chunk (poke pos d s)) = c_bytes_read (the_chunk s)"
  "c_size (the_chunk (poke pos d s)) = c_size (the_chunk s)"
  "c_data_url (the_chunk (poke pos d s)) = c_data_url (the_chunk s)"
  "c_response_content_type (the_chunk (poke pos d s)) = c_response_content_type (the_chunk s)"
  by (simp_all add: poke_def split: read_buffer.splits)

lemma write_rbuf_poke:
  "buffer_ok s \<Longrightarrow> pos + length d \<le> c_read_buffer_size (the_chunk s) \<Longrightarrow> write_rbuf pos d s = (Inr (), poke pos d s)"
  by (auto simp: buffer_ok_def write_rbuf_def poke_def memcpy_overwrite act_simps act_option_def with_chunk_def
      split: read_buffer.splits)

lemma buffer_ok_poke:
  "buffer_ok s \<Longrightarrow> pos + length d \<le> c_read_buffer_size (the_chunk s) \<Longrightarrow> buffer_ok (poke pos d s)"
  by (auto simp: buffer_ok_def poke_def length_overwrite split: read_buffer.splits)

lemma poke_poke:
  "buffer_ok s \<Longrightarrow> pos + length d + length e \<le> c_read_buffer_size (the_chunk s)
   \<Longrightarrow> poke (pos + length d) e (poke pos d s) = poke pos (d @ e) s"
  by (auto simp: buffer_ok_def poke_def overwrite_overwrite add.assoc [symmetric] split: read_buffer.splits)

lemma poke_Nil: "buffer_ok s \<Longrightarrow> poke pos [] s = s"
  by (auto simp: poke_def overwrite_def split: read_buffer.splits)

lemma rbuf_poke_all:
  assumes "buffer_ok s" and "length d = c_read_buffer_size (the_chunk s)"
  shows "rbuf (shared (poke 0 d s)) (the_chunk (poke 0 d s)) = d"
proof -
  have "take (length d) (drop k (overwrite b k d)) = d" if "k + length d \<le> length b" for k b
    using that by (simp add: overwrite_def)
  then show ?thesis
    using assms by (auto simp: buffer_ok_def poke_def rbuf_def overwrite_def split: read_buffer.splits)
qed

subsection \<open>A transfer that succeeds\<close>

definition on_chunk :: "(chunk \<Rightarrow> chunk) \<Rightarrow> transfer \<Rightarrow> transfer" where
  "on_chunk f s = s\<lparr>the_chunk := f (the_chunk s)\<rparr>"

lemma on_chunk_simps [simp]:
  "the_chunk (on_chunk f s) = f (the_chunk s)" "handles (on_chunk f s) = handles s" "shared (on_chunk f s) = shared s"
  "on_chunk f (on_chunk g s) = on_chunk (\<lambda>c. f (g c)) s"
  by (simp_all add: on_chunk_def)

lemma with_chunk_run: "with_chunk f s = (Inr (), on_chunk f s)"
  by (simp add: with_chunk_def act_modify_def on_chunk_def)

abbreviation bytes_read_now :: "nat \<Rightarrow> transfer \<Rightarrow> transfer" where
  "bytes_read_now n \<equiv> on_chunk (\<lambda>c. c\<lparr>c_bytes_read := n\<rparr>)"

abbreviation content_type_now :: "string \<Rightarrow> transfer \<Rightarrow> transfer" where
  "content_type_now ct \<equiv> on_chunk (\<lambda>c. c\<lparr>c_response_content_type := ct\<rparr>)"

lemma poke_on_chunk:
  "poke pos d (bytes_read_now n s) = bytes_read_now n (poke pos d s)"
  "poke pos d (content_type_now ct s) = content_type_now ct (poke pos d s)"
  by (simp_all add: poke_def on_chunk_def split: read_buffer.splits)

lemma buffer_ok_on_chunk [simp]:
  "buffer_ok (bytes_read_now n s) = buffer_ok s" "buffer_ok (content_type_now ct s) = buffer_ok s"
  by (simp_all add: buffer_ok_def on_chunk_def split: read_buffer.splits)

definition no_xml :: "transfer \<Rightarrow> bool" where
  "no_xml s \<longleftrightarrow> str_find (c_response_content_type (the_chunk s)) ''application/xml'' 0 = None"

lemma chunk_write_data_ok:
  assumes "buffer_ok s" and "c_data_url (the_chunk s) \<noteq> None" and "no_xml s"
    and "c_bytes_read (the_chunk s) + length d \<le> c_read_buffer_size (the_chunk s)" and "c_read_buffer_size (the_chunk s) < 2 ^ 64"
  shows "chunk_write_data env d s
    = (Inr (), bytes_read_now (c_bytes_read (the_chunk s) + length d) (poke (c_bytes_read (the_chunk s)) d s))"
proof -
  obtain url where "c_data_url (the_chunk s) = Some url" using assms(2) by blast
  moreover have "u64 (c_bytes_read (the_chunk s) + length d) = c_bytes_read (the_chunk s) + length d"
    using assms(4,5) by (intro u64_small) linarith
  ultimately show ?thesis
    using assms(1,3,4) write_rbuf_poke [of s "c_bytes_read (the_chunk s)" d]
    by (simp add: chunk_write_data_def get_data_url_def act_bind_def act_then_def act_gets_def act_option_def act_return_def
        set_bytes_read_def with_chunk_run no_xml_def)
qed

lemma no_xml_frame [simp]:
  "no_xml (bytes_read_now n s) = no_xml s" "no_xml (poke pos d s) = no_xml s"
  by (simp_all add: no_xml_def)

lemma bytes_read_twice: "bytes_read_now n (bytes_read_now m s) = bytes_read_now n s"
  by (simp add: on_chunk_def)

lemma write_pieces:
  assumes "buffer_ok s" and "c_data_url (the_chunk s) \<noteq> None" and "no_xml s" and "b = c_bytes_read (the_chunk s)"
    and "b + length (concat ps) \<le> c_read_buffer_size (the_chunk s)" and "c_read_buffer_size (the_chunk s) < 2 ^ 64"
  shows "act_each (chunk_write_data env) ps s = (Inr (), bytes_read_now (b + length (concat ps)) (poke b (concat ps) s))"
  using assms
proof (induction ps arbitrary: s b)
  case Nil
  then show ?case by (simp add: act_return_def poke_Nil on_chunk_def)
next
  case (Cons p ps)
  let ?s = "bytes_read_now (b + length p) (poke b p s)"
  have bp: "b + length p \<le> c_read_buffer_size (the_chunk s)" using Cons.prems(5) by simp
  have first: "chunk_write_data env p s = (Inr (), ?s)"
    using chunk_write_data_ok [OF Cons.prems(1,2,3), of p env] Cons.prems(4,6) bp by simp
  have "act_each (chunk_write_data env) ps ?s
      = (Inr (), bytes_read_now (b + length p + length (concat ps)) (poke (b + length p) (concat ps) ?s))"
    by (rule Cons.IH) (use Cons.prems buffer_ok_poke [OF Cons.prems(1) bp] in simp_all)
  also have "poke (b + length p) (concat ps) ?s = bytes_read_now (b + length p) (poke b (p @ concat ps) s)"
    using poke_poke [OF Cons.prems(1), of b p "concat ps"] Cons.prems(5) by (simp add: poke_on_chunk)
  finally show ?case
    using first by (simp add: act_then_def act_bind_def bytes_read_twice add.assoc)
qed

text \<open>A header line that does not announce an error document.\<close>

definition benign :: "string \<Rightarrow> bool" where
  "benign h \<longleftrightarrow> 2 \<le> length h
     \<and> (let header = take (length h - 2) h
        in str_find header ''Content-Type'' 0 = None
           \<or> str_find (drop (case find_last_of header (CHR '' '') of None \<Rightarrow> 0 | Some i \<Rightarrow> i + 1) header) ''application/xml'' 0 = None)"

text \<open>The same state but for the content type, which is not that of an error.\<close>

definition same_but_type :: "transfer \<Rightarrow> transfer \<Rightarrow> bool" where
  "same_but_type s s' \<longleftrightarrow> (\<exists>ct. s' = content_type_now ct s) \<and> no_xml s'"

lemma content_type_twice: "content_type_now ct (content_type_now ct' s) = content_type_now ct s"
  by (simp add: on_chunk_def)

lemma same_but_type_refl: "no_xml s \<Longrightarrow> same_but_type s s"
proof -
  assume "no_xml s"
  moreover have "s = content_type_now (c_response_content_type (the_chunk s)) s" by (simp add: on_chunk_def)
  ultimately show ?thesis unfolding same_but_type_def by blast
qed

lemma header_ok:
  assumes "benign h" and "same_but_type s0 s"
  shows "\<exists>s'. chunk_header_callback h s = (Inr (), s') \<and> same_but_type s0 s'"
proof -
  obtain ct where s: "s = content_type_now ct s0" using assms(2) by (auto simp: same_but_type_def)
  show ?thesis
  proof (cases "str_find (take (length h - 2) h) ''Content-Type'' 0 = None")
    case True
    then show ?thesis using assms by (auto simp: chunk_header_callback_def benign_def Let_def act_return_def)
  next
    case False
    let ?ct = "drop (case find_last_of (take (length h - 2) h) (CHR '' '') of None \<Rightarrow> 0 | Some i \<Rightarrow> i + 1) (take (length h - 2) h)"
    have "chunk_header_callback h s = (Inr (), content_type_now ?ct s)" "no_xml (content_type_now ?ct s)"
      using assms(1) False by (auto simp: chunk_header_callback_def benign_def Let_def with_chunk_run no_xml_def)
    then show ?thesis unfolding s content_type_twice same_but_type_def by blast
  qed
qed

lemma headers_ok:
  "\<forall>h \<in> set hs. benign h \<Longrightarrow> same_but_type s0 s \<Longrightarrow> \<exists>s'. act_each chunk_header_callback hs s = (Inr (), s') \<and> same_but_type s0 s'"
proof (induction hs arbitrary: s)
  case Nil
  then show ?case by (auto simp: act_return_def)
next
  case (Cons h hs)
  then obtain s1 where "chunk_header_callback h s = (Inr (), s1)" "same_but_type s0 s1"
    using header_ok [of h s0 s] by auto
  with Cons show ?case by (simp add: act_then_def act_bind_def)
qed

text \<open>What an attempt leaves: a state like the first one, but for the bytes that came and the content type.\<close>

definition received :: "transfer \<Rightarrow> bytes \<Rightarrow> transfer \<Rightarrow> bool" where
  "received s0 d s' \<longleftrightarrow> (\<exists>ct. s' = content_type_now ct (bytes_read_now (length d) (poke 0 d s0)))"

lemma attempt_ok:
  assumes s0: "buffer_ok s0" "c_data_url (the_chunk s0) \<noteq> None" "c_bytes_read (the_chunk s0) = 0"
    and size: "length (concat (body_pieces att)) \<le> c_read_buffer_size (the_chunk s0)" "c_read_buffer_size (the_chunk s0) < 2 ^ 64"
    and headers: "\<forall>h \<in> set (header_lines att). benign h" and s: "same_but_type s0 s"
  shows "\<exists>s'. curl_easy_perform chunk_header_callback (chunk_write_data env) att s = (Inr (), s')
    \<and> received s0 (concat (body_pieces att)) s' \<and> no_xml s' \<and> (body_pieces att = [] \<longrightarrow> same_but_type s0 s')"
proof -
  let ?d = "concat (body_pieces att)"
  obtain s1 where s1: "act_each chunk_header_callback (header_lines att) s = (Inr (), s1)" "same_but_type s0 s1"
    using headers_ok [OF headers s] by blast
  then obtain ct where ct: "s1 = content_type_now ct s0" "no_xml s1" by (auto simp: same_but_type_def)
  have "act_each (chunk_write_data env) (body_pieces att) s1 = (Inr (), bytes_read_now (0 + length ?d) (poke 0 ?d s1))"
    using s0 size ct by (intro write_pieces) simp_all
  moreover have "received s0 ?d (bytes_read_now (length ?d) (poke 0 ?d s1))"
    unfolding received_def ct(1) poke_on_chunk by (rule exI [of _ ct]) (simp add: on_chunk_def)
  moreover have "bytes_read_now 0 (poke 0 [] s1) = s1"
    using ct(1) s0 by (simp add: poke_Nil)
  moreover have "no_xml (bytes_read_now (length ?d) (poke 0 ?d s1))" using ct(2) by simp
  ultimately show ?thesis using s1 by (auto simp: curl_easy_perform_def act_then_def act_bind_def act_return_def)
qed

text \<open>
  What the server and the network have to do for a range of a URL to arrive: perhaps after attempts that deliver nothing and
  may be tried again, one attempt delivers exactly these bytes and is accepted.  Without HTTP there is one attempt.
\<close>

definition gives :: "8 word attempt \<Rightarrow> bytes \<Rightarrow> bool" where
  "gives att d \<longleftrightarrow> (\<forall>h \<in> set (header_lines att). benign h) \<and> concat (body_pieces att) = d"

definition quiet :: "8 word attempt \<Rightarrow> bool" where
  "quiet att \<longleftrightarrow> (\<forall>h \<in> set (header_lines att). benign h) \<and> body_pieces att = []"

definition delivers :: "'z dmrpp_env_scheme \<Rightarrow> string \<Rightarrow> nat \<Rightarrow> bytes \<Rightarrow> bool" where
  "delivers env url offset d \<longleftrightarrow>
     (let w = world env url (get_range_arg_string offset (length d))
      in url \<noteq> [] \<and> is_allowed env url \<and> setup_error env url = None
         \<and> (if is_http url
            then \<exists>k < retry_limit. (\<forall>j < k. retried (http env) url (w (j + 1)) \<and> quiet (w (j + 1)))
                   \<and> accepted (http env) url (w (k + 1)) \<and> gives (w (k + 1)) d
            else perform_code (w 1) = CURLE_OK \<and> gives (w 1) d))"

lemma read_data_ok:
  assumes s0: "buffer_ok s0" "c_bytes_read (the_chunk s0) = 0" "no_xml s0"
    and size: "length d = c_read_buffer_size (the_chunk s0)" "length d = c_size (the_chunk s0)" "length d < 2 ^ 64"
    and url: "get_data_url env (the_chunk s0) = Some url" and del: "delivers env url (c_offset (the_chunk s0)) d"
  shows "\<exists>s1. read_data env s0 = (Inr (), on_chunk (\<lambda>c. c\<lparr>c_is_read := True\<rparr>) s1) \<and> received s0 d s1"
proof -
  let ?w = "world env url (get_range_arg_string (c_offset (the_chunk s0)) (c_size (the_chunk s0)))"
  let ?h = "chunk_header_callback" and ?b = "chunk_write_data env"
  have w: "?w = world env url (get_range_arg_string (c_offset (the_chunk s0)) (length d))" using size by simp
  have u: "c_data_url (the_chunk s0) \<noteq> None" using url by (auto simp: get_data_url_def)
  have given: "\<exists>s'. curl_easy_perform ?h ?b att s = (Inr (), s') \<and> received s0 d s'" if "gives att d" "same_but_type s0 s" for att s
    using attempt_ok [OF s0(1) u s0(2), of att s env] that size by (auto simp: gives_def)
  have "\<exists>s1. (if is_http url then super_easy_perform (http env) ?h ?b url ?w s0 = (Inr (), s1)
      else curl_easy_perform ?h ?b (?w 1) s0 = (Inr (), s1)) \<and> received s0 d s1"
  proof (cases "is_http url")
    case False
    then have "gives (?w 1) d" using del by (simp add: delivers_def Let_def w)
    then show ?thesis using False given [OF _ same_but_type_refl [OF s0(3)]] by simp
  next
    case True
    then obtain k where k: "k < retry_limit" "\<forall>j < k. retried (http env) url (?w (j + 1)) \<and> quiet (?w (j + 1))"
        "accepted (http env) url (?w (k + 1))" "gives (?w (k + 1)) d"
      using del unfolding delivers_def Let_def w by (metis (no_types, lifting))
    have "url \<noteq> []" using del by (simp add: delivers_def Let_def)
    have "\<exists>s1. super_easy_perform (http env) ?h ?b url ?w s0 = (Inr (), s1) \<and> received s0 d s1"
    proof (rule super_easy_perform_succeeds [OF \<open>url \<noteq> []\<close> k(1), where P = "same_but_type s0"])
      show "same_but_type s0 s0" by (rule same_but_type_refl [OF s0(3)])
      show "retried (http env) url (?w (j + 1))" if "j < k" for j using k(2) that by simp
      show "\<exists>s'. curl_easy_perform ?h ?b (?w (j + 1)) s = (Inr (), s') \<and> same_but_type s0 s'"
        if "j < k" "same_but_type s0 s" for j s
        using attempt_ok [OF s0(1) u s0(2), of "?w (j + 1)" s env] that k(2) size by (auto simp: quiet_def)
      show "accepted (http env) url (?w (k + 1))" by (rule k(3))
      show "\<exists>s'. curl_easy_perform ?h ?b (?w (k + 1)) s = (Inr (), s') \<and> received s0 d s'" if "same_but_type s0 s" for s
        by (rule given [OF k(4) that])
    qed
    then show ?thesis using True by simp
  qed
  then obtain s1 where s1: "if is_http url then super_easy_perform (http env) ?h ?b url ?w s0 = (Inr (), s1)
      else curl_easy_perform ?h ?b (?w 1) s0 = (Inr (), s1)" "received s0 d s1" by blast
  have "perform_code (?w 1) = CURLE_OK" if "\<not> is_http url"
    using del that by (simp add: delivers_def Let_def w)
  then have "read_data env s0 = (Inr (), on_chunk (\<lambda>c. c\<lparr>c_is_read := True\<rparr>) s1)"
    using s1(1) url by (cases "is_http url") (simp_all add: read_data_def Let_def act_bind_def act_then_def act_gets_def
        act_option_def act_return_def with_chunk_run)
  then show ?thesis using s1(2) by blast
qed

lemma find_free:
  assumes "False \<in> set hs"
  obtains i where "find_idx Not hs = Some i" "i < length hs" "hs[i := False] = hs"
proof -
  obtain i where i: "find_idx Not hs = Some i"
    using assms by (cases "find_idx Not hs") (auto simp: find_idx_None_iff)
  then have "i < length hs" "hs ! i = False" using find_idx_SomeD [OF i] by simp_all
  then show ?thesis using that [OF i] by (metis list_update_id)
qed

lemma poke_handles: "poke pos d (s\<lparr>handles := hs\<rparr>) = (poke pos d s)\<lparr>handles := hs\<rparr>"
  by (simp add: poke_def split: read_buffer.splits)

lemma transfer_chunk_ok:
  assumes s0: "buffer_ok s0" "c_bytes_read (the_chunk s0) = 0" "no_xml s0"
    and size: "length d = c_read_buffer_size (the_chunk s0)" "length d = c_size (the_chunk s0)" "length d < 2 ^ 64"
    and url: "get_data_url env (the_chunk s0) = Some url" and del: "delivers env url (c_offset (the_chunk s0)) d"
    and free: "False \<in> set (handles s0)"
  shows "\<exists>s1. transfer_chunk env s0 = (Inr (), on_chunk (\<lambda>c. c\<lparr>c_is_read := True\<rparr>) s1) \<and> received s0 d s1"
proof -
  obtain i where i: "find_idx Not (handles s0) = Some i" "i < length (handles s0)" "(handles s0)[i := False] = handles s0"
    using find_free [OF free] by blast
  let ?s = "s0\<lparr>handles := (handles s0)[i := True]\<rparr>"
  have "buffer_ok ?s" "no_xml ?s" using s0 by (auto simp: buffer_ok_def no_xml_def split: read_buffer.splits)
  then obtain s1 where s1: "read_data env ?s = (Inr (), on_chunk (\<lambda>c. c\<lparr>c_is_read := True\<rparr>) s1)" "received ?s d s1"
    using read_data_ok [of ?s d env url] s0(2) size url del by auto
  then obtain ct where ct: "s1 = content_type_now ct (bytes_read_now (length d) (poke 0 d ?s))"
    by (auto simp: received_def)
  let ?s1 = "content_type_now ct (bytes_read_now (length d) (poke 0 d s0))"
  have "get_easy_handle env s0 = (Inr (Some i), ?s)"
    using url del i(1) by (simp add: get_easy_handle_def delivers_def Let_def act_simps act_option_def)
  then have "transfer_chunk env s0 = (Inr (), snd (release_handle i (on_chunk (\<lambda>c. c\<lparr>c_is_read := True\<rparr>) s1)))"
    using s1(1) by (simp add: transfer_chunk_def act_bind_def act_finally_def)
  also have "snd (release_handle i (on_chunk (\<lambda>c. c\<lparr>c_is_read := True\<rparr>) s1)) = on_chunk (\<lambda>c. c\<lparr>c_is_read := True\<rparr>) ?s1"
    unfolding ct poke_handles using i(3) by (simp add: release_handle_def act_modify_def on_chunk_def)
  finally show ?thesis unfolding received_def by blast
qed

text \<open>A chunk with memory of its own that has been read; the content type does not matter any more.\<close>

definition read_own :: "bytes \<Rightarrow> chunk \<Rightarrow> chunk \<Rightarrow> bool" where
  "read_own d c c' \<longleftrightarrow> (\<exists>ct. c' = c\<lparr>c_read_buffer := Mine d, c_read_buffer_size := length d, c_bytes_read := length d,
     c_is_read := True, c_response_content_type := ct\<rparr>)"

lemma read_chunk_own:
  assumes c: "the_chunk s = c" "\<not> c_is_read c" "is_mine c" "\<not> c_uses_fill_value c"
      "str_find (c_response_content_type c) ''application/xml'' 0 = None"
    and mem: "\<forall>n. length (fresh env n) = n" and size: "c_size c = length d" "length d < 2 ^ 64"
    and url: "get_data_url env c = Some url" and del: "delivers env url (c_offset c) d" and free: "False \<in> set (handles s)"
  shows "\<exists>c'. read_chunk env s = (Inr (), s\<lparr>the_chunk := c'\<rparr>) \<and> read_own d c c'"
proof -
  let ?s = "on_chunk (set_rbuf_to_size env) s"
  have ch: "the_chunk ?s = c\<lparr>c_read_buffer := Mine (fresh env (length d)), c_read_buffer_size := length d, c_bytes_read := 0\<rparr>"
    using c(1) size by (simp add: set_rbuf_to_size_def set_read_buffer_def)
  have "buffer_ok ?s" "no_xml ?s" using mem c(5) unfolding buffer_ok_def no_xml_def ch by simp_all
  moreover have "get_data_url env (the_chunk ?s) = Some url" unfolding ch using url by (simp add: get_data_url_def)
  ultimately obtain s1 where s1: "transfer_chunk env ?s = (Inr (), on_chunk (\<lambda>c. c\<lparr>c_is_read := True\<rparr>) s1)" "received ?s d s1"
    using transfer_chunk_ok [of ?s d env url] size del free unfolding ch by auto
  then obtain ct where ct: "s1 = content_type_now ct (bytes_read_now (length d) (poke 0 d ?s))" by (auto simp: received_def)
  let ?c = "c\<lparr>c_read_buffer := Mine d, c_read_buffer_size := length d, c_bytes_read := length d, c_is_read := True, c_response_content_type := ct\<rparr>"
  have "poke 0 d ?s = s\<lparr>the_chunk := c\<lparr>c_read_buffer := Mine d, c_read_buffer_size := length d, c_bytes_read := 0\<rparr>\<rparr>"
    unfolding poke_def ch using mem by (simp add: overwrite_def on_chunk_def)
  then have fin: "on_chunk (\<lambda>c. c\<lparr>c_is_read := True\<rparr>) s1 = s\<lparr>the_chunk := ?c\<rparr>" unfolding ct by (simp add: on_chunk_def)
  have "read_chunk env s = (Inr (), s\<lparr>the_chunk := ?c\<rparr>)"
    using c s1(1) fin size
    by (simp add: read_chunk_def act_bind_def act_then_def act_gets_def act_return_def with_chunk_run)
  then show ?thesis unfolding read_own_def by blast
qed

subsection \<open>Fill values\<close>

text \<open>A buffer full of copies of a value.\<close>

definition fill_bytes :: "nat \<Rightarrow> bytes \<Rightarrow> bytes" where
  "fill_bytes n value = concat (replicate n value)"

lemma length_fill_bytes [simp]: "length (fill_bytes n value) = n * length value"
  by (simp add: fill_bytes_def length_concat sum_list_replicate)

lemma fill_loop:
  assumes "buffer_ok s" and "n * length value \<le> c_read_buffer_size (the_chunk s)"
  shows "act_each (\<lambda>i. write_rbuf (i * length value) value) [0 ..< n] s = (Inr (), poke 0 (fill_bytes n value) s)"
  using assms(2)
proof (induction n)
  case 0
  then show ?case using assms(1) by (simp add: act_return_def fill_bytes_def poke_Nil)
next
  case (Suc n)
  let ?d = "fill_bytes n value"
  have le: "n * length value + length value \<le> c_read_buffer_size (the_chunk s)" using Suc.prems by simp
  have "buffer_ok (poke 0 ?d s)" using assms(1) le by (intro buffer_ok_poke) simp_all
  then have "write_rbuf (n * length value) value (poke 0 ?d s) = (Inr (), poke (0 + length ?d) value (poke 0 ?d s))"
    using le by (simp add: write_rbuf_poke)
  also have "poke (0 + length ?d) value (poke 0 ?d s) = poke 0 (?d @ value) s"
    using le by (intro poke_poke [OF assms(1)]) simp
  also have "?d @ value = fill_bytes (Suc n) value"
    unfolding fill_bytes_def by (simp only: replicate_Suc replicate_append_same [symmetric] concat_append concat.simps append_Nil2)
  finally show ?case
    using Suc by (simp add: act_each_append act_then_def act_bind_def act_return_def)
qed

lemma load_fill_values_ok:
  assumes "buffer_ok s" and "get_value_ptr env (c_fill_value_type (the_chunk s)) (c_fill_value (the_chunk s)) = Inr value"
    and "get_value_size (c_fill_value_type (the_chunk s)) = Inr (length value)"
    and "c_read_buffer_size (the_chunk s) = n * length value" and "n < 2 ^ 31" and "value \<noteq> []"
  shows "load_fill_values env s = (Inr (), bytes_read_now (n * length value) (poke 0 (fill_bytes n value) s))"
  using assms fill_loop [OF assms(1), of n "value"]
  by (simp add: load_fill_values_def act_bind_def act_then_def act_gets_def act_result_def act_return_def set_bytes_read_def with_chunk_run)

lemma read_chunk_fill:
  assumes c: "\<not> c_is_read (the_chunk s)" "\<not> is_mine (the_chunk s)" "c_uses_fill_value (the_chunk s)" and "buffer_ok s"
    and "get_value_ptr env (c_fill_value_type (the_chunk s)) (c_fill_value (the_chunk s)) = Inr value"
    and "get_value_size (c_fill_value_type (the_chunk s)) = Inr (length value)"
    and "c_read_buffer_size (the_chunk s) = n * length value" and "c_size (the_chunk s) = n * length value" and "n < 2 ^ 31" and "value \<noteq> []"
  shows "read_chunk env s = (Inr (), on_chunk (\<lambda>c. c\<lparr>c_bytes_read := n * length value, c_is_read := True\<rparr>) (poke 0 (fill_bytes n value) s))"
  using c load_fill_values_ok [OF assms(4-7) assms(9,10)] assms(8)
  by (simp add: read_chunk_def act_bind_def act_then_def act_gets_def act_return_def with_chunk_run)

lemma read_chunk_fill_own:
  assumes c: "the_chunk s = c" "\<not> c_is_read c" "is_mine c" "c_uses_fill_value c"
    and v: "get_value_ptr env (c_fill_value_type c) (c_fill_value c) = Inr value" "get_value_size (c_fill_value_type c) = Inr (length value)"
      "c_size c = n * length value" "n < 2 ^ 31" "value \<noteq> []" and mem: "length (fresh env (c_size c)) = c_size c"
  shows "read_chunk env s = (Inr (), s\<lparr>the_chunk := c\<lparr>c_read_buffer := Mine (fill_bytes n value), c_read_buffer_size := c_size c,
    c_bytes_read := c_size c, c_is_read := True\<rparr>\<rparr>)"
proof -
  let ?s = "on_chunk (set_rbuf_to_size env) s"
  have ch: "the_chunk ?s = c\<lparr>c_read_buffer := Mine (fresh env (c_size c)), c_read_buffer_size := c_size c, c_bytes_read := 0\<rparr>"
    using c(1) by (simp add: set_rbuf_to_size_def set_read_buffer_def)
  have "buffer_ok ?s" unfolding buffer_ok_def ch using mem by simp
  then have "load_fill_values env ?s = (Inr (), bytes_read_now (n * length value) (poke 0 (fill_bytes n value) ?s))"
    using load_fill_values_ok [of ?s env "value" n] v unfolding ch by simp
  moreover have "poke 0 (fill_bytes n value) ?s = s\<lparr>the_chunk := c\<lparr>c_read_buffer := Mine (fill_bytes n value), c_read_buffer_size := c_size c, c_bytes_read := 0\<rparr>\<rparr>"
    unfolding poke_def ch using mem v(3) by (simp add: overwrite_def on_chunk_def length_fill_bytes)
  ultimately show ?thesis
    using c v(3) by (simp add: read_chunk_def act_bind_def act_then_def act_gets_def act_return_def with_chunk_run on_chunk_def)
qed

subsection \<open>Filtering\<close>

lemma ub_bind_Inr: "ub_bind m f = Some (Inr b) \<longleftrightarrow> (\<exists>a. m = Some (Inr a) \<and> f a = Some (Inr b))"
  by (auto simp: ub_bind_def split: option.splits sum.splits)

lemma inflate_length: "inflate env dest n src = Some (Inr out) \<Longrightarrow> length out = length dest"
  by (auto simp: inflate_def ub_bind_Inr ub_lift_def memcpy_def split: if_splits)

lemma memcpy_length: "memcpy dest d src s n = Some t \<Longrightarrow> length t = length dest"
  by (auto simp: memcpy_def split: if_splits)

lemma for_each_length:
  "(\<And>i t t'. i \<in> set is \<Longrightarrow> f i t = Some t' \<Longrightarrow> length t' = length t) \<Longrightarrow> for_each f is t = Some t' \<Longrightarrow> length t' = length (t :: 'b list)"
proof (induction "is" arbitrary: t)
  case Nil
  then show ?case by simp
next
  case (Cons i "is")
  then obtain u where u: "f i t = Some u" "for_each f is u = Some t'" by (cases "f i t") auto
  have "length u = length t" by (rule Cons.prems(1) [OF _ u(1)]) simp
  moreover have "length t' = length u" by (rule Cons.IH [OF _ u(2)]) (use Cons.prems(1) in auto)
  ultimately show ?case by simp
qed

lemma unshuffle_length: "unshuffle dest src w = Some out \<Longrightarrow> length out = length dest"
proof -
  assume u: "unshuffle dest src w = Some out"
  let ?e = "length src div w"
  show ?thesis
  proof (cases "w > 1 \<and> ?e > 1")
    case False
    then show ?thesis using u by (auto simp: unshuffle_def Let_def memcpy_length split: if_splits)
  next
    case True
    then obtain t where t: "for_each (\<lambda>i. for_each (\<lambda>j dest. memcpy dest (i + j * w) src (i * duffs_copies ?e + j) 1) [0 ..< duffs_copies ?e]) [0 ..< w] dest = Some t"
      and t': "(if length src mod w > 0 then memcpy t (duffs_copies ?e * w) src (w * duffs_copies ?e) (length src mod w) else Some t) = Some out"
      using u by (auto simp: unshuffle_def Let_def bind_eq_Some_conv split: if_splits)
    have "length t = length dest"
      by (rule for_each_length [OF for_each_length t]) (auto dest: memcpy_length)
    then show ?thesis using t' memcpy_length by (fastforce split: if_splits)
  qed
qed

lemma apply_filter_length:
  assumes "\<forall>n. length (fresh env n) = n" and "apply_filter env cb w f buf = Some (Inr out)"
  shows "length out = (if f = ''deflate'' then cb else if f = ''fletcher32'' then length buf - FLETCHER32_CHECKSUM else length buf)"
  using assms(2) assms(1)
  by (auto simp: apply_filter_def Let_def ub_lift_def dest: inflate_length unshuffle_length split: if_splits option.splits)

lemma length_rbuf: "buffer_ok s \<Longrightarrow> length (rbuf (shared s) (the_chunk s)) = c_read_buffer_size (the_chunk s)"
  by (auto simp: buffer_ok_def rbuf_def split: read_buffer.splits)

text \<open>Filters change nothing but the buffer of the chunk.\<close>

definition buffer_change :: "transfer \<Rightarrow> transfer \<Rightarrow> bool" where
  "buffer_change s s' \<longleftrightarrow> (\<exists>b n m. s' = on_chunk (\<lambda>c. c\<lparr>c_read_buffer := b, c_read_buffer_size := n, c_bytes_read := m\<rparr>) s)"

lemma buffer_changeI:
  "s' = on_chunk (\<lambda>c. c\<lparr>c_read_buffer := b, c_read_buffer_size := n, c_bytes_read := m\<rparr>) s \<Longrightarrow> buffer_change s s'"
  unfolding buffer_change_def by blast

lemma buffer_change_refl: "buffer_change s s"
  by (rule buffer_changeI [where b = "c_read_buffer (the_chunk s)" and n = "c_read_buffer_size (the_chunk s)" and m = "c_bytes_read (the_chunk s)"])
    (simp add: on_chunk_def)

lemma buffer_change_set: "buffer_change s (on_chunk (set_read_buffer b n m) s)"
  by (rule buffer_changeI [where b = b and n = n and m = m]) (simp add: on_chunk_def set_read_buffer_def)

lemma buffer_change_size: "buffer_change s (on_chunk (\<lambda>c. c\<lparr>c_read_buffer_size := n\<rparr>) s)"
  by (rule buffer_changeI [where b = "c_read_buffer (the_chunk s)" and n = n and m = "c_bytes_read (the_chunk s)"]) (simp add: on_chunk_def)

lemma buffer_change_trans: "buffer_change s s1 \<Longrightarrow> buffer_change s1 s2 \<Longrightarrow> buffer_change s s2"
proof -
  assume "buffer_change s s1" "buffer_change s1 s2"
  then obtain b n m b' n' m' where "s1 = on_chunk (\<lambda>c. c\<lparr>c_read_buffer := b, c_read_buffer_size := n, c_bytes_read := m\<rparr>) s"
    "s2 = on_chunk (\<lambda>c. c\<lparr>c_read_buffer := b', c_read_buffer_size := n', c_bytes_read := m'\<rparr>) s1" by (auto simp: buffer_change_def)
  then show ?thesis by (intro buffer_changeI [where b = b' and n = n' and m = m']) (simp add: on_chunk_def)
qed

definition rebuffered :: "bytes \<Rightarrow> transfer \<Rightarrow> transfer \<Rightarrow> bool" where
  "rebuffered out s s' \<longleftrightarrow> buffer_ok s' \<and> rbuf (shared s') (the_chunk s') = out \<and> buffer_change s s'"

lemma rebuffered_refl: "buffer_ok s \<Longrightarrow> rebuffered (rbuf (shared s) (the_chunk s)) s s"
  by (simp add: rebuffered_def buffer_change_refl)

lemma rebuffered_trans: "rebuffered a s s1 \<Longrightarrow> rebuffered b s1 s2 \<Longrightarrow> rebuffered b s s2"
  unfolding rebuffered_def by (blast intro: buffer_change_trans)

lemma rebuffered_mine: "rebuffered out s (on_chunk (set_read_buffer (Mine out) (length out) m) s)"
  unfolding rebuffered_def by (simp add: buffer_change_set) (simp add: buffer_ok_def rbuf_def set_read_buffer_def)

lemma rebuffered_shorter:
  assumes "buffer_ok s" and "n \<le> c_read_buffer_size (the_chunk s)"
  shows "rebuffered (take n (rbuf (shared s) (the_chunk s))) s (on_chunk (\<lambda>c. c\<lparr>c_read_buffer_size := n\<rparr>) s)"
proof -
  have "buffer_ok (on_chunk (\<lambda>c. c\<lparr>c_read_buffer_size := n\<rparr>) s)"
    using assms by (auto simp: buffer_ok_def split: read_buffer.splits)
  moreover have "rbuf (shared s) (the_chunk s\<lparr>c_read_buffer_size := n\<rparr>) = take n (rbuf (shared s) (the_chunk s))"
    using assms(2) by (auto simp: rbuf_def min_def split: read_buffer.splits)
  ultimately show ?thesis by (simp add: rebuffered_def buffer_change_size)
qed

definition filter_update :: "nat \<Rightarrow> string \<Rightarrow> bytes \<Rightarrow> chunk \<Rightarrow> chunk" where
  "filter_update cb f out c =
     (if f = ''deflate'' then set_read_buffer (Mine out) cb cb c
      else if f = ''shuffle'' then set_read_buffer (Mine out) (c_read_buffer_size c) (c_read_buffer_size c) c
      else if f = ''fletcher32'' then c\<lparr>c_read_buffer_size := c_read_buffer_size c - FLETCHER32_CHECKSUM\<rparr> else c)"

lemma filter_step_run:
  "apply_filter (filter_env.truncate env) cb w f (rbuf (shared s) (the_chunk s)) = Some (Inr out)
   \<Longrightarrow> filter_step env cb w f s = (Inr (), on_chunk (filter_update cb f out) s)"
  by (simp add: filter_step_def filter_update_def [abs_def] act_bind_def act_gets_def act_ub_def act_option_def act_result_def
      act_return_def with_chunk_run)

lemma fletcher_out: "apply_filter env cb w ''fletcher32'' buf = Some (Inr out) \<Longrightarrow> out = take (length buf - FLETCHER32_CHECKSUM) buf"
  by (simp add: apply_filter_def Let_def split: if_splits option.splits)

lemma no_filter_out: "f \<noteq> ''deflate'' \<Longrightarrow> f \<noteq> ''shuffle'' \<Longrightarrow> f \<noteq> ''fletcher32'' \<Longrightarrow> apply_filter env cb w f buf = Some (Inr out) \<Longrightarrow> out = buf"
  by (simp add: apply_filter_def)

lemma filter_step_ok:
  assumes ok: "buffer_ok s" and mem: "\<forall>n. length (fresh env n) = n"
    and f: "apply_filter (filter_env.truncate env) cb w f (rbuf (shared s) (the_chunk s)) = Some (Inr out)"
  shows "\<exists>s'. filter_step env cb w f s = (Inr (), s') \<and> rebuffered out s s'"
proof -
  let ?buf = "rbuf (shared s) (the_chunk s)" and ?n = "c_read_buffer_size (the_chunk s)"
  have "\<forall>n. length (fresh (filter_env.truncate env) n) = n" using mem by (simp add: filter_env.defs)
  note len = apply_filter_length [OF this f] length_rbuf [OF ok]
  consider "f = ''deflate''" | "f = ''shuffle''" | "f = ''fletcher32''" | "f \<noteq> ''deflate''" "f \<noteq> ''shuffle''" "f \<noteq> ''fletcher32''"
    by blast
  then have "rebuffered out s (on_chunk (filter_update cb f out) s)"
  proof cases
    case 1
    then have "cb = length out" using len(1) by simp
    then have "on_chunk (filter_update cb f out) s = on_chunk (set_read_buffer (Mine out) (length out) (length out)) s"
      using 1 by (simp add: on_chunk_def filter_update_def)
    then show ?thesis using rebuffered_mine [of out s "length out"] by simp
  next
    case 2
    then have "length out = ?n" using len by simp
    then have "on_chunk (filter_update cb f out) s = on_chunk (set_read_buffer (Mine out) (length out) (length out)) s"
      using 2 by (simp add: on_chunk_def filter_update_def)
    then show ?thesis using rebuffered_mine [of out s "length out"] by simp
  next
    case 3
    have "on_chunk (filter_update cb f out) s = on_chunk (\<lambda>c. c\<lparr>c_read_buffer_size := ?n - FLETCHER32_CHECKSUM\<rparr>) s"
      using 3 by (simp add: on_chunk_def filter_update_def)
    moreover have "out = take (?n - FLETCHER32_CHECKSUM) ?buf"
      using fletcher_out [of "filter_env.truncate env" cb w ?buf out] f 3 len(2) by simp
    ultimately show ?thesis using rebuffered_shorter [OF ok, of "?n - FLETCHER32_CHECKSUM"] by simp
  next
    case 4
    then have "on_chunk (filter_update cb f out) s = s" by (simp add: on_chunk_def filter_update_def)
    then show ?thesis using rebuffered_refl [OF ok] no_filter_out [OF 4 f] by simp
  qed
  then show ?thesis using filter_step_run [OF f] by blast
qed

lemma filter_steps_ok:
  assumes "buffer_ok s" and mem: "\<forall>n. length (fresh env n) = n"
    and "ub_each (apply_filter (filter_env.truncate env) cb w) fs (rbuf (shared s) (the_chunk s)) = Some (Inr out)"
  shows "\<exists>s'. act_each (filter_step env cb w) fs s = (Inr (), s') \<and> rebuffered out s s'"
  using assms(1,3)
proof (induction fs arbitrary: s)
  case Nil
  then show ?case using rebuffered_refl [OF Nil(1)] by (auto simp: act_return_def)
next
  case (Cons f fs)
  then obtain mid where mid: "apply_filter (filter_env.truncate env) cb w f (rbuf (shared s) (the_chunk s)) = Some (Inr mid)"
      "ub_each (apply_filter (filter_env.truncate env) cb w) fs mid = Some (Inr out)"
    by (auto simp: ub_bind_Inr)
  obtain s1 where s1: "filter_step env cb w f s = (Inr (), s1)" "rebuffered mid s s1"
    using filter_step_ok [OF Cons.prems(1) mem mid(1)] by blast
  then have "buffer_ok s1" "rbuf (shared s1) (the_chunk s1) = mid" by (simp_all add: rebuffered_def)
  then obtain s2 where s2: "act_each (filter_step env cb w) fs s1 = (Inr (), s2)" "rebuffered out s1 s2"
    using Cons.IH [of s1] mid(2) by auto
  then show ?case using s1 rebuffered_trans [OF s1(2) s2(2)] by (simp add: act_then_def act_bind_def)
qed

lemma filter_chunk_ok:
  assumes "buffer_ok s" and "\<not> c_is_inflated (the_chunk s)" and mem: "\<forall>n. length (fresh env n) = n"
    and "filter_bytes (filter_env.truncate env) filters n w (rbuf (shared s) (the_chunk s)) = Some (Inr out)"
  shows "\<exists>s'. filter_chunk env filters n w s = (Inr (), on_chunk (\<lambda>c. c\<lparr>c_is_inflated := True\<rparr>) s') \<and> rebuffered out s s'"
proof -
  obtain s' where "act_each (filter_step env (u64 (n * w)) w) (rev (split filters (CHR '' '') True)) s = (Inr (), s')" "rebuffered out s s'"
    using filter_steps_ok [OF assms(1) mem] assms(4) unfolding filter_bytes_def by blast
  then show ?thesis
    using assms(2) by (auto simp: filter_chunk_def act_bind_def act_then_def act_gets_def with_chunk_run)
qed


subsection \<open>A transfer that is repeated after a body\<close>

text \<open>
  A retry keeps the bytes of the failed attempt: \<^verbatim>\<open>d_bytes_read\<close> is not reset.  So the good answer does not fit any more.
\<close>

definition overflow_error :: bes_error where
  "overflow_error = BESInternalError ''ERROR! The number of bytes_read plus the number of bytes to read is larger than the target buffer size''"

lemma chunk_write_data_overflow:
  assumes "c_data_url (the_chunk s) \<noteq> None" and "no_xml s"
    and "c_read_buffer_size (the_chunk s) < c_bytes_read (the_chunk s) + length d" and "c_bytes_read (the_chunk s) + length d < 2 ^ 64"
  shows "chunk_write_data env d s = (Inl (Throws overflow_error), s\<lparr>handles := replicate (length (handles s)) False\<rparr>)"
  using assms
  by (auto simp: chunk_write_data_def get_data_url_def act_bind_def act_then_def act_gets_def act_option_def act_return_def
      no_xml_def release_all_handles_def act_modify_def throw_bes_def act_throw_def overflow_error_def u64_small)

lemma write_pieces_overflow:
  assumes "buffer_ok s" and "c_data_url (the_chunk s) \<noteq> None" and "no_xml s" and "b = c_bytes_read (the_chunk s)"
    and "b \<le> c_read_buffer_size (the_chunk s)" and "c_read_buffer_size (the_chunk s) < b + length (concat ps)" and "b + length (concat ps) < 2 ^ 64"
  shows "\<exists>s'. act_each (chunk_write_data env) ps s = (Inl (Throws overflow_error), s') \<and> handles s' = replicate (length (handles s)) False"
  using assms
proof (induction ps arbitrary: s b)
  case (Cons p ps)
  show ?case
  proof (cases "b + length p \<le> c_read_buffer_size (the_chunk s)")
    case True
    let ?s = "bytes_read_now (b + length p) (poke b p s)"
    have over: "c_read_buffer_size (the_chunk s) < b + length p + length (concat ps)" "b + length p + length (concat ps) < 2 ^ 64"
      using Cons.prems(6,7) by (simp_all only: concat.simps length_append add.assoc)
    have "chunk_write_data env p s = (Inr (), ?s)"
      using chunk_write_data_ok [OF Cons.prems(1,2,3), of p env] Cons.prems(4,6,7) True by simp
    moreover have "\<exists>s'. act_each (chunk_write_data env) ps ?s = (Inl (Throws overflow_error), s') \<and> handles s' = replicate (length (handles ?s)) False"
      by (rule Cons.IH) (use Cons.prems(1-4) over buffer_ok_poke [OF Cons.prems(1) True] True in simp_all)
    ultimately show ?thesis by (simp add: act_then_def act_bind_def)
  next
    case False
    then have "chunk_write_data env p s = (Inl (Throws overflow_error), s\<lparr>handles := replicate (length (handles s)) False\<rparr>)"
      using Cons.prems by (intro chunk_write_data_overflow) simp_all
    then show ?thesis by (simp add: act_then_def act_bind_def)
  qed
qed simp

definition first_states :: "transfer \<Rightarrow> bool" where
  "first_states s \<longleftrightarrow> buffer_ok s \<and> c_bytes_read (the_chunk s) = 0 \<and> no_xml s \<and> c_read_buffer_size (the_chunk s) = c_size (the_chunk s)"

lemma attempt_overflow:
  assumes "buffer_ok s" and "c_data_url (the_chunk s) \<noteq> None" and "no_xml s" and "0 < c_bytes_read (the_chunk s)"
    and "c_bytes_read (the_chunk s) \<le> c_read_buffer_size (the_chunk s)" and "gives att d" and "length d = c_read_buffer_size (the_chunk s)"
    and "c_bytes_read (the_chunk s) + length d < 2 ^ 64"
  shows "\<exists>s'. curl_easy_perform chunk_header_callback (chunk_write_data env) att s = (Inl (Throws overflow_error), s')
    \<and> handles s' = replicate (length (handles s)) False"
proof -
  obtain s1 where s1: "act_each chunk_header_callback (header_lines att) s = (Inr (), s1)" "same_but_type s s1"
    using headers_ok [of "header_lines att" s s] assms(3,6) same_but_type_refl by (auto simp: gives_def)
  then obtain ct where ct: "s1 = content_type_now ct s" "no_xml s1" by (auto simp: same_but_type_def)
  have "\<exists>s'. act_each (chunk_write_data env) (body_pieces att) s1 = (Inl (Throws overflow_error), s') \<and> handles s' = replicate (length (handles s1)) False"
    by (rule write_pieces_overflow) (use assms ct in \<open>simp_all add: gives_def\<close>)
  then show ?thesis using s1(1) ct(1) by (auto simp: curl_easy_perform_def act_then_def act_bind_def)
qed

text \<open>A server that is busy at first and says so in a byte.\<close>

definition busy_env :: dmrpp_env where
  "busy_env =
     \<lparr>zlib_init = True, zlib = (\<lambda>_ _ _. (Z_STREAM_END, [])), fresh = (\<lambda>n. replicate n 0),
      http = \<lparr>no_retry_regexs = [], regex_match = (\<lambda>_ _. -1)\<rparr>, effective_url = id, is_allowed = (\<lambda>_. True), setup_error = (\<lambda>_. None),
      world = (\<lambda>url rng k. \<lparr>header_lines = [], body_pieces = (if k = 1 then [[9]] else [[1, 2]]),
        perform_code = CURLE_OK, getinfo_code = CURLE_OK, http_code = (if k = 1 then 503 else 206), last_accessed_url = url\<rparr>),
      s3_parse = (\<lambda>_. None), float_bytes = (\<lambda>_. Inl StdInvalidArgument), double_bytes = (\<lambda>_. Inl StdInvalidArgument)\<rparr>"

definition waiting_chunk :: transfer where
  "waiting_chunk = \<lparr>handles = [True, True], the_chunk = set_rbuf_to_size busy_env (new_chunk (Some ''http://h/f'') ''LE'' 2 0 [0]), shared = []\<rparr>"

lemma waiting_chunk_simps:
  "first_states waiting_chunk" "get_data_url busy_env (the_chunk waiting_chunk) = Some ''http://h/f''" "handles waiting_chunk = [True, True]"
  "c_size (the_chunk waiting_chunk) = 2" "c_offset (the_chunk waiting_chunk) = 0"
  by (simp_all add: waiting_chunk_def first_states_def buffer_ok_def no_xml_def set_rbuf_to_size_def set_read_buffer_def new_chunk_def
      busy_env_def get_data_url_def str_find_def)

text \<open>
  C19: A transfer that is repeated after a body has arrived always fails, although the second attempt delivers exactly the bytes
  of the chunk: the bytes of the first attempt still count, so the second body overflows the buffer.  Moreover the error
  makes all handles free, also those that other threads use.
\<close>

theorem retry_after_body_fails:
  assumes s: "first_states s" "get_data_url env (the_chunk s) = Some url" "is_http url"
    and first: "gives (world env url (get_range_arg_string (c_offset (the_chunk s)) (c_size (the_chunk s))) 1) d1"
      "retried (http env) url (world env url (get_range_arg_string (c_offset (the_chunk s)) (c_size (the_chunk s))) 1)"
      "d1 \<noteq> []" "length d1 \<le> c_size (the_chunk s)"
    and second: "gives (world env url (get_range_arg_string (c_offset (the_chunk s)) (c_size (the_chunk s))) 2) d2"
      "length d2 = c_size (the_chunk s)" "c_size (the_chunk s) < 2 ^ 63"
  shows "\<exists>s'. read_data env s = (Inl (Throws overflow_error), s') \<and> handles s' = replicate (length (handles s)) False"
proof -
  let ?w = "world env url (get_range_arg_string (c_offset (the_chunk s)) (c_size (the_chunk s)))"
  let ?h = "chunk_header_callback" and ?b = "chunk_write_data env"
  have u: "c_data_url (the_chunk s) \<noteq> None" using s(2) by (auto simp: get_data_url_def)
  have ne: "url \<noteq> []" using s(3) by (auto simp: is_http_def protocol_of_def HTTP_PROTOCOL_def HTTPS_PROTOCOL_def str_find_def lowercase_def)
  have init: "buffer_ok s" "c_bytes_read (the_chunk s) = 0" "no_xml s" "c_read_buffer_size (the_chunk s) = c_size (the_chunk s)"
    using s(1) by (simp_all add: first_states_def)
  obtain s1 where s1: "curl_easy_perform ?h ?b (?w 1) s = (Inr (), s1)" "received s d1 s1" "no_xml s1"
    using attempt_ok [OF init(1) u init(2), of "?w 1" s env] first init second(3) same_but_type_refl [OF init(3)] by (auto simp: gives_def)
  then obtain ct where ct: "s1 = content_type_now ct (bytes_read_now (length d1) (poke 0 d1 s))" by (auto simp: received_def)
  have ok: "buffer_ok s1" unfolding ct buffer_ok_on_chunk using buffer_ok_poke [OF init(1), of 0 d1] first(4) init(4) by simp
  have s1': "c_bytes_read (the_chunk s1) = length d1" "c_read_buffer_size (the_chunk s1) = c_size (the_chunk s)"
      "c_data_url (the_chunk s1) \<noteq> None" "handles s1 = handles s" "0 < length d1"
    unfolding ct using init(4) u first(3) by simp_all
  obtain s2 where s2: "curl_easy_perform ?h ?b (?w 2) s1 = (Inl (Throws overflow_error), s2)"
      "handles s2 = replicate (length (handles s)) False"
    using attempt_overflow [OF ok s1'(3) s1(3), of "?w 2" d2 env] s1' first(4) second by auto
  have "super_easy_perform (http env) ?h ?b url ?w s = perform_loop (http env) ?h ?b url ?w (Suc 9) s"
    using ne by (simp add: super_easy_perform_def retry_limit_def)
  also have "\<dots> = perform_loop (http env) ?h ?b url ?w (Suc 8) s1"
    using perform_loop_retry [of "http env" url ?w 9 ?h ?b s s1] first(2) s1(1) by (simp add: retry_limit_def)
  also have "\<dots> = (Inl (Throws overflow_error), s2)"
    using perform_loop_error [of ?h ?b ?w 8 s1 _ s2] s2(1) by (simp add: retry_limit_def)
  finally have "read_data env s = (Inl (Throws overflow_error), s2)"
    using s(2,3) by (simp add: read_data_def Let_def act_bind_def act_then_def act_gets_def act_option_def act_return_def)
  then show ?thesis using s2(2) by blast
qed

theorem retry_after_body_fails_witness:
  "\<exists>s'. read_data busy_env waiting_chunk = (Inl (Throws overflow_error), s') \<and> handles s' = [False, False]"
proof -
  have "is_http ''http://h/f''" by code_simp
  moreover have "gives (world busy_env u r 1) [9]" "gives (world busy_env u r 2) [1, 2]" "retried (http busy_env) u (world busy_env u r 1)" for u r
    by (simp_all add: busy_env_def gives_def retried_def eval_attempt_def eval_curl_easy_perform_code_def
        eval_http_get_response_def eval_http_status_def is_retryable_def)
  ultimately show ?thesis
    using retry_after_body_fails [of waiting_chunk busy_env "''http://h/f''" "[9]" "[1, 2]"] waiting_chunk_simps
    by simp
qed
end
