(* ===== verification/Dmrpp_Super.thy ===== *)
theory Dmrpp_Super
  imports Dmrpp_Slab Dmrpp_Chunk
begin

text \<open>
  \<^verbatim>\<open>modules/dmrpp_module/SuperChunk.cc\<close> and the reading of chunked arrays in \<^verbatim>\<open>DmrppArray.cc\<close>: chunks that follow one
  another in a file are read with one transfer, filtered one by one and put into the array.

  With transfer or compute threads the super chunks of an array, or the chunks of a super chunk, are processed at the same
  time.  They write to different parts of the array and share nothing else but the handles, which a mutex protects; so they
  are run one after the other here, in an order that is a parameter.  Transfers at the same time hold handles at the same time:
  while one of them is run, the others hold as many as \<open>others_hold\<close> says, and when no handle is left the transfer fails as in the
  source.  After an error the array is not used.  How threads are started and joined is in \<^verbatim>\<open>Dmrpp_Threads\<close>.

  The chunks of an array are shared with the super chunks that are made of them; each of them goes to at most one super
  chunk, so that a super chunk holds them by value here.
\<close>

subsection \<open>Threads\<close>

record dmrpp_config =
  use_transfer_threads :: bool
  max_transfer_threads :: nat
  contiguous_concurrent_threshold :: nat
  use_compute_threads :: bool
  transfer_order :: "nat \<Rightarrow> nat list"
  compute_order :: "nat \<Rightarrow> nat list"
  others_hold :: "nat \<Rightarrow> nat"

text \<open>In which order \<open>n\<close> pieces of work are done.\<close>

definition schedule :: "bool \<Rightarrow> (nat \<Rightarrow> nat list) \<Rightarrow> nat \<Rightarrow> nat list" where
  "schedule threads order n = (if threads then order n else [0 ..< n])"

text \<open>How many handles other transfers hold while the \<open>i\<close>-th one is run.\<close>

definition held_by_others :: "dmrpp_config \<Rightarrow> nat \<Rightarrow> nat" where
  "held_by_others cfg i = (if use_transfer_threads cfg then others_hold cfg i else 0)"

text \<open>The others take the first \<open>k\<close> handles that are free, and give them back.\<close>

fun hold :: "nat \<Rightarrow> bool list \<Rightarrow> bool list" where
  "hold (Suc k) (False # hs) = True # hold k hs"
| "hold (Suc k) (True # hs) = True # hold (Suc k) hs"
| "hold _ hs = hs"

definition unhold :: "bool list \<Rightarrow> bool list \<Rightarrow> bool list \<Rightarrow> bool list" where
  "unhold before held after = map2 (\<lambda>(b, h) a. if h \<and> \<not> b then False else a) (zip before held) after"

lemma unhold_same: "unhold hs hs hs = hs"
  by (induction hs) (auto simp: unhold_def)

lemma unhold_hold [simp]: "unhold hs (hold k hs) (hold k hs) = hs"
  by (induction k hs rule: hold.induct) (simp_all add: unhold_same, simp_all add: unhold_def)

definition free_handles :: "bool list \<Rightarrow> nat" where
  "free_handles hs = length (filter Not hs)"

lemma hold_leaves: "k < free_handles hs \<Longrightarrow> False \<in> set (hold k hs)"
  by (induction k hs rule: hold.induct) (auto simp: free_handles_def filter_empty_conv)

subsection \<open>Super chunks\<close>

record super_chunk =
  sc_data_url :: "string option"
  sc_chunks :: "chunk list"
  sc_offset :: nat
  sc_size :: nat
  sc_is_read :: bool
  sc_read_buffer :: "bytes option"
  sc_uses_fill_value :: bool

definition new_super_chunk :: super_chunk where
  "new_super_chunk = \<lparr>sc_data_url = None, sc_chunks = [], sc_offset = 0, sc_size = 0, sc_is_read = False, sc_read_buffer = None,
     sc_uses_fill_value = False\<rparr>"

definition is_contiguous :: "'z dmrpp_env_scheme \<Rightarrow> chunk \<Rightarrow> super_chunk \<Rightarrow> bool option" where
  "is_contiguous env candidate_chunk sc =
     (case (get_data_url env candidate_chunk, sc_data_url sc) of
        (Some u, Some v) \<Rightarrow> Some (u = v \<and> u64 (sc_offset sc + sc_size sc) = c_offset candidate_chunk)
      | _ \<Rightarrow> None)"

definition add_chunk :: "'z dmrpp_env_scheme \<Rightarrow> chunk \<Rightarrow> super_chunk \<Rightarrow> (bool \<times> super_chunk) option" where
  "add_chunk env candidate_chunk sc =
     (if sc_chunks sc = [] then
        Option.bind (if c_uses_fill_value candidate_chunk then Some None else map_option Some (get_data_url env candidate_chunk)) (\<lambda>url.
          Some (True, sc\<lparr>sc_chunks := [candidate_chunk], sc_offset := c_offset candidate_chunk, sc_size := c_size candidate_chunk,
                  sc_uses_fill_value := c_uses_fill_value candidate_chunk, sc_data_url := url\<rparr>))
      else if c_uses_fill_value candidate_chunk then Some (False, sc)
      else Option.bind (is_contiguous env candidate_chunk sc) (\<lambda>contiguous.
        if contiguous then Some (True, sc\<lparr>sc_chunks := sc_chunks sc @ [candidate_chunk], sc_size := u64 (sc_size sc + c_size candidate_chunk)\<rparr>)
        else Some (False, sc)))"

text \<open>The state a super chunk is read in; the last component is the buffer of the array.\<close>

record super_transfer =
  sc_handles :: "bool list"
  the_super :: super_chunk
  sc_values :: bytes

type_synonym 'a super_reading = "(failure, super_transfer, 'a) eact"

definition with_super :: "(super_chunk \<Rightarrow> super_chunk) \<Rightarrow> unit super_reading" where
  "with_super f = act_modify (\<lambda>s. s\<lparr>the_super := f (the_super s)\<rparr>)"

text \<open>Run code of a chunk: of the super chunk's buffer it sees the whole.\<close>

definition run_chunk :: "chunk \<Rightarrow> 'a reading \<Rightarrow> ('a \<times> chunk) super_reading" where
  "run_chunk c m s =
     (case m \<lparr>handles = sc_handles s, the_chunk = c, shared = (case sc_read_buffer (the_super s) of None \<Rightarrow> [] | Some b \<Rightarrow> b)\<rparr> of
        (r, t) \<Rightarrow>
          ((case r of Inl e \<Rightarrow> Inl e | Inr x \<Rightarrow> Inr (x, the_chunk t)),
           s\<lparr>sc_handles := handles t,
             the_super := (the_super s)\<lparr>sc_read_buffer := map_option (\<lambda>_. shared t) (sc_read_buffer (the_super s))\<rparr>\<rparr>))"

definition run_child :: "nat \<Rightarrow> 'a reading \<Rightarrow> 'a super_reading" where
  "run_child i m =
     act_bind (act_gets (\<lambda>s. sc_chunks (the_super s) ! i)) (\<lambda>c.
     act_bind (run_chunk c m) (\<lambda>(x, c').
       act_then (with_super (\<lambda>sc. sc\<lparr>sc_chunks := (sc_chunks sc)[i := c']\<rparr>)) (act_return x)))"

fun map_chunks :: "nat \<Rightarrow> nat \<Rightarrow> chunk list \<Rightarrow> chunk list result" where
  "map_chunks bindex d_size [] = Inr []"
| "map_chunks bindex d_size (c # cs) =
     (if u64 (bindex + c_size c) > d_size
      then Inl (BESInternalError ''ERROR The computed buffer index is larger than expected size of the SuperChunk.'')
      else res_bind (map_chunks (u64 (bindex + c_size c)) d_size cs) (\<lambda>cs. Inr (set_read_buffer (Shared bindex) (c_size c) 0 c # cs)))"

definition map_chunks_to_buffer :: "unit super_reading" where
  "map_chunks_to_buffer =
     act_bind (act_gets the_super) (\<lambda>sc.
     act_bind (act_result (map_chunks 0 (sc_size sc) (sc_chunks sc))) (\<lambda>cs. with_super (\<lambda>sc. sc\<lparr>sc_chunks := cs\<rparr>)))"

definition read_aggregate_bytes :: "'z dmrpp_env_scheme \<Rightarrow> unit super_reading" where
  "read_aggregate_bytes env =
     act_bind (act_gets the_super) (\<lambda>sc.
     act_bind (run_chunk (set_read_buffer (Shared 0) (sc_size sc) 0 (new_chunk (sc_data_url sc) ''NOT_USED'' (sc_size sc) (sc_offset sc) []))
         (transfer_chunk env)) (\<lambda>(_, chunk).
       if sc_size sc \<noteq> c_bytes_read chunk then throw_bes (BESInternalError ''Wrong number of bytes read for chunk'')
       else with_super (\<lambda>sc. sc\<lparr>sc_is_read := True\<rparr>)))"

definition read_fill_value_chunk :: "'z dmrpp_env_scheme \<Rightarrow> unit super_reading" where
  "read_fill_value_chunk env =
     act_bind (act_gets the_super) (\<lambda>sc.
       if length (sc_chunks sc) \<noteq> 1 then
         throw_bes (BESInternalError ''Found a SuperChunk with uses_fill_value true but more than one child chunk.'')
       else run_child 0 (read_chunk env))"

definition retrieve_data :: "'z dmrpp_env_scheme \<Rightarrow> unit super_reading" where
  "retrieve_data env =
     act_bind (act_gets the_super) (\<lambda>sc.
       if sc_is_read sc then act_return ()
       else
         act_then (if sc_read_buffer sc = None then with_super (\<lambda>sc. sc\<lparr>sc_read_buffer := Some (fresh env (sc_size sc))\<rparr>) else act_return ())
        (act_then map_chunks_to_buffer
        (act_then (if sc_uses_fill_value sc then read_fill_value_chunk env else read_aggregate_bytes env)
           (with_super (\<lambda>sc. sc\<lparr>sc_chunks := map (\<lambda>c. c\<lparr>c_is_read := True, c_bytes_read := c_size c\<rparr>) (sc_chunks sc)\<rparr>)))))"

subsection \<open>The array\<close>

record dmrpp_variable = dmrpp_array +
  v_filters :: string
  v_chunks :: "chunk list"
  v_type :: dods_type
  v_twiddle_bytes :: bool
  v_read_p :: bool
  v_values :: bytes

definition get_chunk_size_in_elements :: "'z dmrpp_array_scheme \<Rightarrow> nat" where
  "get_chunk_size_in_elements v = fold (\<lambda>n m. u64 (m * n)) (chunk_dimension_sizes v) 1"

text \<open>
  Both variants of \<^verbatim>\<open>process_one_chunk\<close>: read, filter and insert, where \<open>ins\<close> is given the position of the chunk and its
  bytes.
\<close>

definition process_chunk_with ::
  "'z dmrpp_env_scheme \<Rightarrow> string \<Rightarrow> nat \<Rightarrow> nat \<Rightarrow> (nat list \<Rightarrow> bytes \<Rightarrow> bytes \<Rightarrow> bytes option) \<Rightarrow> nat \<Rightarrow> unit super_reading" where
  "process_chunk_with env filters chunk_size width ins i =
     act_then (run_child i (read_chunk env))
    (act_bind (act_gets (\<lambda>s. sc_chunks (the_super s) ! i)) (\<lambda>c.
     act_then (if \<not> c_uses_fill_value c \<and> filters \<noteq> [] then run_child i (filter_chunk env filters chunk_size width) else act_return ())
    (act_bind (act_gets id) (\<lambda>s.
     act_bind (act_option (ins (c_position (sc_chunks (the_super s) ! i))
         (rbuf (case sc_read_buffer (the_super s) of None \<Rightarrow> [] | Some b \<Rightarrow> b) (sc_chunks (the_super s) ! i)) (sc_values s))) (\<lambda>t.
       act_modify (\<lambda>s. s\<lparr>sc_values := t\<rparr>))))))"

definition process_one_chunk :: "'z dmrpp_env_scheme \<Rightarrow> dmrpp_variable \<Rightarrow> nat list \<Rightarrow> nat \<Rightarrow> unit super_reading" where
  "process_one_chunk env v constrained_array_shape =
     process_chunk_with env (v_filters v) (get_chunk_size_in_elements v) (elem_width v)
       (\<lambda>pos buf. insert_chunk (dmrpp_array.truncate v) constrained_array_shape pos buf 0 pos (replicate (length (array_dims v)) 0))"

definition process_one_chunk_unconstrained :: "'z dmrpp_env_scheme \<Rightarrow> nat list \<Rightarrow> dmrpp_variable \<Rightarrow> nat list \<Rightarrow> nat \<Rightarrow> unit super_reading" where
  "process_one_chunk_unconstrained env chunk_shape v array_shape =
     process_chunk_with env (v_filters v) (get_chunk_size_in_elements v) (elem_width v)
       (\<lambda>pos buf. insert_chunk_unconstrained (dmrpp_array.truncate v) buf 0 0 array_shape 0 chunk_shape pos)"

definition for_each_child :: "dmrpp_config \<Rightarrow> (nat \<Rightarrow> unit super_reading) \<Rightarrow> unit super_reading" where
  "for_each_child cfg f =
     act_bind (act_gets (\<lambda>s. length (sc_chunks (the_super s)))) (\<lambda>n. act_each f (schedule (use_compute_threads cfg) (compute_order cfg) n))"

definition process_child_chunks :: "dmrpp_config \<Rightarrow> 'z dmrpp_env_scheme \<Rightarrow> dmrpp_variable \<Rightarrow> unit super_reading" where
  "process_child_chunks cfg env v =
     act_then (retrieve_data env)
       (for_each_child cfg (process_one_chunk env v (get_shape (dmrpp_array.truncate v) True)))"

definition process_child_chunks_unconstrained :: "dmrpp_config \<Rightarrow> 'z dmrpp_env_scheme \<Rightarrow> dmrpp_variable \<Rightarrow> unit super_reading" where
  "process_child_chunks_unconstrained cfg env v =
     act_then (retrieve_data env)
       (for_each_child cfg (process_one_chunk_unconstrained env (chunk_dimension_sizes v) v (get_shape (dmrpp_array.truncate v) True)))"

definition read_super :: "dmrpp_config \<Rightarrow> 'z dmrpp_env_scheme \<Rightarrow> dmrpp_variable \<Rightarrow> unit super_reading" where
  "read_super cfg env v = act_then (retrieve_data env) (process_child_chunks cfg env v)"

definition read_super_unconstrained :: "dmrpp_config \<Rightarrow> 'z dmrpp_env_scheme \<Rightarrow> dmrpp_variable \<Rightarrow> unit super_reading" where
  "read_super_unconstrained cfg env v = act_then (retrieve_data env) (process_child_chunks_unconstrained cfg env v)"

subsection \<open>Reading an array\<close>

text \<open>
  The loop that makes the super chunks: those that are complete, the current one, and whether a chunk was needed.
\<close>

fun make_super_chunks ::
  "'z dmrpp_env_scheme \<Rightarrow> (chunk \<Rightarrow> bool option) \<Rightarrow> chunk list \<Rightarrow> super_chunk list \<times> super_chunk \<times> bool
   \<Rightarrow> (super_chunk list \<times> super_chunk \<times> bool) ub_result" where
  "make_super_chunks env needed [] st = Some (Inr st)"
| "make_super_chunks env needed (c # cs) (complete, current, found) =
     (case needed c of
        None \<Rightarrow> None
      | Some False \<Rightarrow> make_super_chunks env needed cs (complete, current, found)
      | Some True \<Rightarrow>
          (case add_chunk env c current of
             None \<Rightarrow> None
           | Some (True, sc) \<Rightarrow> make_super_chunks env needed cs (complete, sc, True)
           | Some (False, sc) \<Rightarrow>
               (case add_chunk env c new_super_chunk of
                  None \<Rightarrow> None
                | Some (False, _) \<Rightarrow> Some (Inl (BESInternalError ''Failed to add Chunk to new SuperChunk.''))
                | Some (True, sc') \<Rightarrow> make_super_chunks env needed cs (complete @ [sc], sc', True))))"

text \<open>The handles in use, and the array.\<close>

record array_transfer =
  ar_handles :: "bool list"
  the_var :: dmrpp_variable

type_synonym 'a array_reading = "(failure, array_transfer, 'a) eact"

definition with_var :: "(dmrpp_variable \<Rightarrow> dmrpp_variable) \<Rightarrow> unit array_reading" where
  "with_var f = act_modify (\<lambda>s. s\<lparr>the_var := f (the_var s)\<rparr>)"

text \<open>One super chunk, while other transfers hold \<open>k\<close> handles.\<close>

definition run_super :: "unit super_reading \<Rightarrow> nat \<Rightarrow> super_chunk \<Rightarrow> unit array_reading" where
  "run_super m k sc s =
     (let held = hold k (ar_handles s)
      in case m \<lparr>sc_handles = held, the_super = sc, sc_values = v_values (the_var s)\<rparr> of
           (r, t) \<Rightarrow> (r, s\<lparr>ar_handles := unhold (ar_handles s) held (sc_handles t), the_var := (the_var s)\<lparr>v_values := sc_values t\<rparr>\<rparr>))"

definition reserve_value_capacity :: "'z dmrpp_env_scheme \<Rightarrow> nat \<Rightarrow> unit array_reading" where
  "reserve_value_capacity env n = with_var (\<lambda>v. v\<lparr>v_values := fresh env (n * elem_width v)\<rparr>)"

definition read_super_chunks :: "dmrpp_config \<Rightarrow> unit super_reading \<Rightarrow> super_chunk list \<Rightarrow> unit array_reading" where
  "read_super_chunks cfg m scs =
     act_each (\<lambda>(k, sc). run_super m k sc)
       (map (\<lambda>i. (held_by_others cfg i, scs ! i)) (schedule (use_transfer_threads cfg) (transfer_order cfg) (length scs)))"

definition read_chunks_unconstrained :: "dmrpp_config \<Rightarrow> 'z dmrpp_env_scheme \<Rightarrow> unit array_reading" where
  "read_chunks_unconstrained cfg env =
     act_bind (act_gets the_var) (\<lambda>v.
       if length (v_chunks v) < 2 then throw_bes (BESInternalError ''Expected chunks for variable '')
       else
         act_bind (act_ub (make_super_chunks env (\<lambda>_. Some True) (v_chunks v) ([], new_super_chunk, False))) (\<lambda>(complete, current, _).
         act_then (reserve_value_capacity env (get_size (dmrpp_array.truncate v) False))
        (act_then (read_super_chunks cfg (read_super_unconstrained cfg env v) (complete @ [current]))
           (with_var (\<lambda>v. v\<lparr>v_read_p := True\<rparr>)))))"

definition read_chunks :: "dmrpp_config \<Rightarrow> 'z dmrpp_env_scheme \<Rightarrow> unit array_reading" where
  "read_chunks cfg env =
     act_bind (act_gets the_var) (\<lambda>v.
       if length (v_chunks v) < 2 then throw_bes (BESInternalError ''Expected chunks for variable '')
       else
         act_bind (act_ub (make_super_chunks env (\<lambda>c. find_needed_chunks (dmrpp_array.truncate v) (c_position c) 0) (v_chunks v)
             ([], new_super_chunk, False))) (\<lambda>(complete, current, found).
           if \<not> found then throw_bes (BESInternalError ''ERROR - Failed to locate any chunks that correspond to the requested data.'')
           else
             act_then (reserve_value_capacity env (get_size (dmrpp_array.truncate v) True))
            (act_then (read_super_chunks cfg (read_super cfg env v) (complete @ [current]))
               (with_var (\<lambda>v. v\<lparr>v_read_p := True\<rparr>)))))"

end
