(* ===== verification/Dmrpp_Read.thy ===== *)
theory Dmrpp_Read
  imports Dmrpp_Super
begin

text \<open>
  Reading a chunked array is correct: whatever way the chunks are grouped into super chunks, the buffer of the array gets
  exactly the requested elements, for constrained and unconstrained arrays.
\<close>

subsection \<open>What is in the file\<close>

text \<open>The server has a file for every URL and gives any range of it; libcurl, zlib and the memory behave as documented.\<close>

definition serves :: "'z dmrpp_env_scheme \<Rightarrow> (string \<Rightarrow> bytes) \<Rightarrow> bool" where
  "serves env file \<longleftrightarrow>
     (\<forall>u. effective_url env (effective_url env u) = effective_url env u) \<and> (\<forall>n. length (fresh env n) = n)
     \<and> (\<forall>url. length (file url) < 2 ^ 64)
     \<and> (\<forall>url offset n. 0 < n \<and> offset + n \<le> length (file url) \<longrightarrow> delivers env url offset (take n (drop offset (file url))))"

text \<open>The bytes a chunk has after it was read.\<close>

definition raw :: "'z dmrpp_env_scheme \<Rightarrow> (string \<Rightarrow> bytes) \<Rightarrow> chunk \<Rightarrow> bytes \<Rightarrow> bool" where
  "raw env file c d \<longleftrightarrow>
     (if c_uses_fill_value c
      then \<exists>n value. get_value_ptr env (c_fill_value_type c) (c_fill_value c) = Inr value \<and> value \<noteq> []
             \<and> get_value_size (c_fill_value_type c) = Inr (length value) \<and> c_size c = n * length value \<and> n < 2 ^ 31 \<and> c_size c < 2 ^ 64
             \<and> d = fill_bytes n value
      else \<exists>u. c_data_url c = Some u \<and> 0 < c_size c \<and> c_offset c + c_size c \<le> length (file (effective_url env u))
             \<and> d = take (c_size c) (drop (c_offset c) (file (effective_url env u))))"

lemma raw_length: "raw env file c d \<Longrightarrow> length d = c_size c"
  by (auto simp: raw_def split: if_splits)

definition unread :: "chunk \<Rightarrow> bool" where
  "unread c \<longleftrightarrow> \<not> c_is_read c \<and> \<not> c_is_inflated c"

subsection \<open>Making super chunks\<close>

fun consecutive :: "nat \<Rightarrow> chunk list \<Rightarrow> bool" where
  "consecutive off [] = True"
| "consecutive off (c # cs) \<longleftrightarrow> c_offset c = off \<and> consecutive (off + c_size c) cs"

abbreviation total_size :: "chunk list \<Rightarrow> nat" where
  "total_size cs \<equiv> sum_list (map c_size cs)"

definition sc_wf :: "'z dmrpp_env_scheme \<Rightarrow> (string \<Rightarrow> bytes) \<Rightarrow> super_chunk \<Rightarrow> bool" where
  "sc_wf env file sc \<longleftrightarrow>
     sc_chunks sc \<noteq> [] \<and> \<not> sc_is_read sc \<and> sc_read_buffer sc = None
     \<and> (\<forall>c \<in> set (sc_chunks sc). unread c \<and> (\<exists>d. raw env file c d)) \<and> sc_size sc = total_size (sc_chunks sc)
     \<and> (if sc_uses_fill_value sc then length (sc_chunks sc) = 1 \<and> c_uses_fill_value (hd (sc_chunks sc))
        else \<exists>url. sc_data_url sc = Some url \<and> (\<forall>c \<in> set (sc_chunks sc). \<not> c_uses_fill_value c \<and> get_data_url env c = Some url)
               \<and> consecutive (sc_offset sc) (sc_chunks sc) \<and> sc_offset sc + sc_size sc \<le> length (file url))"

fun fills_last :: "chunk list \<Rightarrow> bool" where
  "fills_last [] = True"
| "fills_last (c # cs) \<longleftrightarrow> (c_uses_fill_value c \<longrightarrow> list_all c_uses_fill_value cs) \<and> fills_last cs"

lemma fills_last_filter: "fills_last cs \<Longrightarrow> fills_last (filter p cs)"
  by (induction cs) (auto simp: list_all_iff)

lemma consecutive_append: "consecutive off (xs @ ys) \<longleftrightarrow> consecutive off xs \<and> consecutive (off + total_size xs) ys"
  by (induction xs arbitrary: off) (auto simp: add.assoc)

lemma raw_file:
  assumes "serves env file" and "raw env file c d" and "\<not> c_uses_fill_value c"
  obtains url where "get_data_url env c = Some url" and "0 < c_size c" and "c_offset c + c_size c \<le> length (file url)"
    and "length (file url) < 2 ^ 64" and "d = take (c_size c) (drop (c_offset c) (file url))"
    and "effective_url env url = url"
  using assms by (auto simp: raw_def serves_def get_data_url_def)

lemma add_chunk_first:
  assumes "serves env file" and "unread c" and "raw env file c d"
  shows "\<exists>sc. add_chunk env c new_super_chunk = Some (True, sc) \<and> sc_wf env file sc \<and> sc_chunks sc = [c] \<and> sc_uses_fill_value sc = c_uses_fill_value c"
proof (cases "c_uses_fill_value c")
  case True
  then show ?thesis using assms by (auto simp: add_chunk_def new_super_chunk_def sc_wf_def)
next
  case False
  then obtain url where "get_data_url env c = Some url" "c_offset c + c_size c \<le> length (file url)"
    using raw_file [OF assms(1,3)] by blast
  then show ?thesis using assms False by (auto simp: add_chunk_def new_super_chunk_def sc_wf_def)
qed

lemma add_chunk_next:
  assumes srv: "serves env file" and "unread c" and raw: "raw env file c d" and sc: "sc_wf env file sc"
    and fill: "sc_uses_fill_value sc \<longrightarrow> c_uses_fill_value c"
  shows "add_chunk env c sc = Some (False, sc)
    \<or> (\<exists>sc'. add_chunk env c sc = Some (True, sc') \<and> sc_wf env file sc' \<and> sc_chunks sc' = sc_chunks sc @ [c] \<and> \<not> sc_uses_fill_value sc'
        \<and> \<not> c_uses_fill_value c)"
proof (cases "c_uses_fill_value c")
  case True
  then show ?thesis using sc by (simp add: add_chunk_def sc_wf_def)
next
  case False
  then have nf: "\<not> sc_uses_fill_value sc" using fill by blast
  obtain url where url: "sc_data_url sc = Some url" "\<forall>c \<in> set (sc_chunks sc). \<not> c_uses_fill_value c \<and> get_data_url env c = Some url"
      "consecutive (sc_offset sc) (sc_chunks sc)" "sc_offset sc + sc_size sc \<le> length (file url)"
    using sc nf by (auto simp: sc_wf_def)
  obtain u where u: "get_data_url env c = Some u" "c_offset c + c_size c \<le> length (file u)" "length (file u) < 2 ^ 64"
    using raw_file [OF srv raw False] by blast
  have small: "sc_offset sc + sc_size sc < 2 ^ 64" using url(4) srv by (meson le_less_trans serves_def)
  show ?thesis
  proof (cases "u = url \<and> sc_offset sc + sc_size sc = c_offset c")
    case True
    let ?sc = "sc\<lparr>sc_chunks := sc_chunks sc @ [c], sc_size := sc_size sc + c_size c\<rparr>"
    have "sc_size sc + c_size c < 2 ^ 64" using u True by linarith
    then have "add_chunk env c sc = Some (True, ?sc)"
      using sc False True u url small by (simp add: add_chunk_def is_contiguous_def sc_wf_def)
    moreover have "sc_wf env file ?sc"
      using sc assms(2) raw False True u url nf by (auto simp: sc_wf_def consecutive_append)
    ultimately show ?thesis using nf False by auto
  next
    case no: False
    then have "add_chunk env c sc = Some (False, sc)"
      using sc False u url small by (simp add: add_chunk_def is_contiguous_def sc_wf_def)
    then show ?thesis by blast
  qed
qed

lemma make_super_chunks_ok:
  assumes srv: "serves env file"
    and "\<forall>c \<in> set cs. needed c = Some (p c) \<and> unread c \<and> (\<exists>d. raw env file c d)" and "fills_last cs"
    and "\<forall>sc \<in> set complete. sc_wf env file sc" and "sc_wf env file current"
    and "sc_uses_fill_value current \<longrightarrow> list_all c_uses_fill_value cs"
  shows "\<exists>complete' current'. make_super_chunks env needed cs (complete, current, found) = Some (Inr (complete', current', found \<or> (\<exists>c \<in> set cs. p c)))
    \<and> (\<forall>sc \<in> set (complete' @ [current']). sc_wf env file sc)
    \<and> concat (map sc_chunks (complete' @ [current'])) = concat (map sc_chunks (complete @ [current])) @ filter p cs"
  using assms(2-)
proof (induction cs arbitrary: complete current found)
  case Nil
  then show ?case by auto
next
  case (Cons c cs)
  have c: "needed c = Some (p c)" "unread c" "\<exists>d. raw env file c d" using Cons.prems(1) by auto
  then obtain d where d: "raw env file c d" by blast
  have fills: "fills_last cs" "\<forall>c \<in> set cs. needed c = Some (p c) \<and> unread c \<and> (\<exists>d. raw env file c d)"
      "c_uses_fill_value c \<longrightarrow> list_all c_uses_fill_value cs"
    using Cons.prems(1,2) by auto
  have rest: "sc_uses_fill_value current \<longrightarrow> list_all c_uses_fill_value cs" "sc_uses_fill_value current \<longrightarrow> c_uses_fill_value c"
    using Cons.prems(5) by auto
  show ?case
  proof (cases "p c")
    case False
    then show ?thesis
      using Cons.IH [OF fills(2,1) Cons.prems(3,4) rest(1), of found] c(1) by simp
  next
    case True
    from add_chunk_next [OF srv c(2) d Cons.prems(4) rest(2)] show ?thesis
    proof
      assume no: "add_chunk env c current = Some (False, current)"
      obtain sc where sc: "add_chunk env c new_super_chunk = Some (True, sc)" "sc_wf env file sc" "sc_chunks sc = [c]"
          "sc_uses_fill_value sc = c_uses_fill_value c"
        using add_chunk_first [OF srv c(2) d] by blast
      have "\<forall>sc \<in> set (complete @ [current]). sc_wf env file sc" using Cons.prems(3,4) by auto
      moreover have "sc_uses_fill_value sc \<longrightarrow> list_all c_uses_fill_value cs" using sc(4) fills(3) by simp
      ultimately show ?thesis
        using Cons.IH [OF fills(2,1) _ sc(2), of "complete @ [current]" True] c(1) True no sc by simp
    next
      assume "\<exists>sc'. add_chunk env c current = Some (True, sc') \<and> sc_wf env file sc' \<and> sc_chunks sc' = sc_chunks current @ [c]
          \<and> \<not> sc_uses_fill_value sc' \<and> \<not> c_uses_fill_value c"
      then obtain sc where sc: "add_chunk env c current = Some (True, sc)" "sc_wf env file sc" "sc_chunks sc = sc_chunks current @ [c]"
          "\<not> sc_uses_fill_value sc" by blast
      then show ?thesis
        using Cons.IH [OF fills(2,1) Cons.prems(3) sc(2), of True] c(1) True by simp
    qed
  qed
qed

lemma make_super_chunks_start:
  assumes srv: "serves env file"
    and "\<forall>c \<in> set cs. needed c = Some (p c) \<and> unread c \<and> (\<exists>d. raw env file c d)" and "fills_last cs" and "\<exists>c \<in> set cs. p c"
  shows "\<exists>complete current. make_super_chunks env needed cs ([], new_super_chunk, False) = Some (Inr (complete, current, True))
    \<and> (\<forall>sc \<in> set (complete @ [current]). sc_wf env file sc) \<and> concat (map sc_chunks (complete @ [current])) = filter p cs"
  using assms(2-)
proof (induction cs)
  case Nil
  then show ?case by simp
next
  case (Cons c cs)
  have c: "needed c = Some (p c)" "unread c" "\<exists>d. raw env file c d" using Cons.prems(1) by auto
  then obtain d where d: "raw env file c d" by blast
  have fills: "fills_last cs" "\<forall>c \<in> set cs. needed c = Some (p c) \<and> unread c \<and> (\<exists>d. raw env file c d)"
      "c_uses_fill_value c \<longrightarrow> list_all c_uses_fill_value cs"
    using Cons.prems(1,2) by auto
  show ?case
  proof (cases "p c")
    case False
    then show ?thesis using Cons.IH [OF fills(2,1)] Cons.prems(3) c(1) by simp
  next
    case True
    obtain sc where sc: "add_chunk env c new_super_chunk = Some (True, sc)" "sc_wf env file sc" "sc_chunks sc = [c]"
        "sc_uses_fill_value sc = c_uses_fill_value c"
      using add_chunk_first [OF srv c(2) d] by blast
    have "sc_uses_fill_value sc \<longrightarrow> list_all c_uses_fill_value cs" using sc(4) fills(3) by simp
    from make_super_chunks_ok [OF srv fills(2,1) _ sc(2) this, of "[]" True] show ?thesis using c(1) True sc by simp
  qed
qed

subsection \<open>Retrieving the data of a super chunk\<close>

fun mapped :: "nat \<Rightarrow> chunk list \<Rightarrow> chunk list" where
  "mapped b [] = []"
| "mapped b (c # cs) = set_read_buffer (Shared b) (c_size c) 0 c # mapped (b + c_size c) cs"

lemma map_chunks_mapped: "b + total_size cs \<le> n \<Longrightarrow> n < 2 ^ 64 \<Longrightarrow> map_chunks b n cs = Inr (mapped b cs)"
proof (induction cs arbitrary: b)
  case Nil
  then show ?case by simp
next
  case (Cons c cs)
  have "u64 (b + c_size c) = b + c_size c" using Cons.prems by (intro u64_small) simp
  then show ?case using Cons.IH [of "b + c_size c"] Cons.prems by simp
qed

text \<open>A chunk of a super chunk whose bytes \<open>buf\<close> are there.\<close>

definition fetched :: "'z dmrpp_env_scheme \<Rightarrow> (string \<Rightarrow> bytes) \<Rightarrow> bytes \<Rightarrow> chunk \<Rightarrow> chunk \<Rightarrow> bool" where
  "fetched env file buf c c' \<longleftrightarrow> (\<exists>k. k + c_size c \<le> length buf \<and> raw env file c (take (c_size c) (drop k buf))
     \<and> c' = c\<lparr>c_read_buffer := Shared k, c_read_buffer_size := c_size c, c_bytes_read := c_size c, c_is_read := True\<rparr>)"

definition ready_super :: "'z dmrpp_env_scheme \<Rightarrow> (string \<Rightarrow> bytes) \<Rightarrow> super_chunk \<Rightarrow> super_chunk \<Rightarrow> bool" where
  "ready_super env file sc sc' \<longleftrightarrow> (\<exists>buf. sc_read_buffer sc' = Some buf \<and> list_all2 (fetched env file buf) (sc_chunks sc) (sc_chunks sc'))"

lemma mapped_fetched:
  assumes "\<forall>c \<in> set cs. \<not> c_uses_fill_value c \<and> get_data_url env c = Some url \<and> (\<exists>d. raw env file c d)"
    and "consecutive (off + b) cs" and "buf = take n (drop off (file url))" and "b + total_size cs \<le> length buf"
  shows "list_all2 (fetched env file buf) cs (map (\<lambda>c. c\<lparr>c_is_read := True, c_bytes_read := c_size c\<rparr>) (mapped b cs))"
  using assms
proof (induction cs arbitrary: b)
  case Nil
  then show ?case by simp
next
  case (Cons c cs)
  have c: "\<not> c_uses_fill_value c" "get_data_url env c = Some url" "c_offset c = off + b" "b + c_size c \<le> length buf"
    using Cons.prems by auto
  obtain d where d: "raw env file c d" using Cons.prems(1) by auto
  then have "d = take (c_size c) (drop (c_offset c) (file url))"
    using c by (auto simp: raw_def get_data_url_def)
  moreover have "c_size c \<le> n - b" using c(4) unfolding Cons.prems(3) by simp linarith
  then have "take (c_size c) (drop b buf) = take (c_size c) (drop (c_offset c) (file url))"
    using c(3) unfolding Cons.prems(3) by (simp add: drop_take min_def add.commute)
  ultimately have "raw env file c (take (c_size c) (drop b buf))" using d by simp
  then have "fetched env file buf c ((set_read_buffer (Shared b) (c_size c) 0 c)\<lparr>c_is_read := True, c_bytes_read := c_size c\<rparr>)"
    unfolding fetched_def using c(4) by (intro exI [of _ b]) (simp add: set_read_buffer_def)
  moreover have "list_all2 (fetched env file buf) cs (map (\<lambda>c. c\<lparr>c_is_read := True, c_bytes_read := c_size c\<rparr>) (mapped (b + c_size c) cs))"
    by (rule Cons.IH) (use Cons.prems in \<open>auto simp: add.assoc\<close>)
  moreover have "c_size (set_read_buffer (Shared b) (c_size c) 0 c) = c_size c" by (simp add: set_read_buffer_def)
  ultimately show ?case by simp
qed

lemma run_chunk_transfer:
  assumes srv: "serves env file" and sc: "sc_wf env file sc" and nf: "\<not> sc_uses_fill_value sc"
    and url: "sc_data_url sc = Some url" and buf: "sc_read_buffer (the_super s) = Some b" "length b = sc_size sc"
    and free: "False \<in> set (sc_handles s)"
  shows "\<exists>c. run_chunk (set_read_buffer (Shared 0) (sc_size sc) 0 (new_chunk (Some url) ''NOT_USED'' (sc_size sc) (sc_offset sc) [])) (transfer_chunk env) s
      = (Inr ((), c), s\<lparr>the_super := (the_super s)\<lparr>sc_read_buffer := Some (take (sc_size sc) (drop (sc_offset sc) (file url)))\<rparr>\<rparr>)
    \<and> c_bytes_read c = sc_size sc"
proof -
  let ?c = "set_read_buffer (Shared 0) (sc_size sc) 0 (new_chunk (Some url) ''NOT_USED'' (sc_size sc) (sc_offset sc) [])"
  let ?t = "\<lparr>handles = sc_handles s, the_chunk = ?c, shared = b\<rparr>" and ?d = "take (sc_size sc) (drop (sc_offset sc) (file url))"
  have fl: "sc_offset sc + sc_size sc \<le> length (file url)" "\<forall>c \<in> set (sc_chunks sc). \<not> c_uses_fill_value c \<and> get_data_url env c = Some url"
    using sc nf url by (auto simp: sc_wf_def)
  have "length (file url) < 2 ^ 64" using srv by (simp add: serves_def)
  then have len: "length ?d = sc_size sc" "length ?d < 2 ^ 64" using fl(1) by simp_all
  obtain c where c: "c \<in> set (sc_chunks sc)" using sc by (cases "sc_chunks sc") (auto simp: sc_wf_def)
  then obtain d where "raw env file c d" "\<not> c_uses_fill_value c" using sc fl(2) by (auto simp: sc_wf_def)
  then obtain url' where url': "get_data_url env c = Some url'" "0 < c_size c" "effective_url env url' = url'"
    using raw_file [OF srv] by blast
  have "c_size c \<le> sc_size sc" using sc c member_le_sum_list [of "c_size c" "map c_size (sc_chunks sc)"] by (simp add: sc_wf_def)
  then have "delivers env url (sc_offset sc) ?d" using srv fl(1) url'(2) by (simp add: serves_def)
  moreover have "get_data_url env ?c = Some url"
    using url' fl(2) c by (auto simp: get_data_url_def set_read_buffer_def new_chunk_def)
  moreover have "buffer_ok ?t" "no_xml ?t" "c_bytes_read ?c = 0" "c_size ?c = sc_size sc" "c_read_buffer_size ?c = sc_size sc"
      "c_offset ?c = sc_offset sc"
    using buf(2) by (simp_all add: buffer_ok_def no_xml_def set_read_buffer_def new_chunk_def str_find_def)
  ultimately obtain t1 where t1: "transfer_chunk env ?t = (Inr (), on_chunk (\<lambda>c. c\<lparr>c_is_read := True\<rparr>) t1)" "received ?t ?d t1"
    using transfer_chunk_ok [of ?t ?d env url] len free by auto
  obtain ct where ct: "t1 = content_type_now ct (bytes_read_now (length ?d) (poke 0 ?d ?t))" using t1(2) by (auto simp: received_def)
  have "poke 0 ?d ?t = ?t\<lparr>shared := ?d\<rparr>"
    using len(1) buf(2) by (simp add: poke_def set_read_buffer_def overwrite_def)
  then have "shared t1 = ?d" "handles t1 = sc_handles s" "c_bytes_read (the_chunk t1) = sc_size sc"
    unfolding ct using len(1) by (simp_all add: on_chunk_def)
  then show ?thesis using t1(1) buf(1) by (auto simp: run_chunk_def)
qed

lemma retrieve_data_file:
  assumes srv: "serves env file" and sc: "sc_wf env file (the_super s)" and nf: "\<not> sc_uses_fill_value (the_super s)"
    and free: "False \<in> set (sc_handles s)"
  shows "\<exists>sc'. retrieve_data env s = (Inr (), s\<lparr>the_super := sc'\<rparr>) \<and> ready_super env file (the_super s) sc' \<and> sc_is_read sc'"
proof -
  let ?sc = "the_super s"
  obtain url where url: "sc_data_url ?sc = Some url" "\<forall>c \<in> set (sc_chunks ?sc). \<not> c_uses_fill_value c \<and> get_data_url env c = Some url"
      "consecutive (sc_offset ?sc) (sc_chunks ?sc)" "sc_offset ?sc + sc_size ?sc \<le> length (file url)"
    using sc nf by (auto simp: sc_wf_def)
  let ?buf = "take (sc_size ?sc) (drop (sc_offset ?sc) (file url))"
  have size: "sc_size ?sc = total_size (sc_chunks ?sc)" "\<not> sc_is_read ?sc" "sc_read_buffer ?sc = None" using sc by (simp_all add: sc_wf_def)
  have small: "sc_size ?sc < 2 ^ 64" using url(4) srv by (metis add_leD2 le_less_trans serves_def)
  have mem: "length (fresh env n) = n" for n using srv by (simp add: serves_def)
  let ?sc1 = "?sc\<lparr>sc_read_buffer := Some (fresh env (sc_size ?sc)), sc_chunks := mapped 0 (sc_chunks ?sc)\<rparr>"
  have mapped: "map_chunks 0 (sc_size ?sc) (sc_chunks ?sc) = Inr (mapped 0 (sc_chunks ?sc))"
    using size small by (simp add: map_chunks_mapped)
  obtain c where c: "run_chunk (set_read_buffer (Shared 0) (sc_size ?sc) 0 (new_chunk (Some url) ''NOT_USED'' (sc_size ?sc) (sc_offset ?sc) []))
        (transfer_chunk env) (s\<lparr>the_super := ?sc1\<rparr>) = (Inr ((), c), s\<lparr>the_super := ?sc1\<lparr>sc_read_buffer := Some ?buf\<rparr>\<rparr>)"
      "c_bytes_read c = sc_size ?sc"
    using run_chunk_transfer [OF srv sc nf url(1), of "s\<lparr>the_super := ?sc1\<rparr>" "fresh env (sc_size ?sc)"] mem free by auto
  let ?sc2 = "?sc1\<lparr>sc_read_buffer := Some ?buf, sc_is_read := True,
      sc_chunks := map (\<lambda>c. c\<lparr>c_is_read := True, c_bytes_read := c_size c\<rparr>) (mapped 0 (sc_chunks ?sc))\<rparr>"
  have "retrieve_data env s = (Inr (), s\<lparr>the_super := ?sc2\<rparr>)"
    using size(2,3) nf mapped c url(1)
    by (simp add: retrieve_data_def map_chunks_to_buffer_def read_aggregate_bytes_def with_super_def act_simps act_result_def)
  moreover have "list_all2 (fetched env file ?buf) (sc_chunks ?sc) (sc_chunks ?sc2)"
    using mapped_fetched [of "sc_chunks ?sc" env url "file" "sc_offset ?sc" 0 ?buf "sc_size ?sc"] url sc size(1)
    by (simp add: sc_wf_def)
  ultimately show ?thesis by (intro exI [of _ ?sc2]) (simp add: ready_super_def)
qed

text \<open>Fill values.  The super chunk is not marked as read, and the code does this twice.\<close>

lemma one_fill_chunk:
  assumes "sc_wf env file sc" and "sc_uses_fill_value sc"
  obtains c n v where "sc_chunks sc = [c]" and "c_uses_fill_value c" and "unread c" and "sc_size sc = c_size c"
    and "get_value_ptr env (c_fill_value_type c) (c_fill_value c) = Inr v" and "v \<noteq> []"
    and "get_value_size (c_fill_value_type c) = Inr (length v)" and "c_size c = n * length v" and "n < 2 ^ 31" and "c_size c < 2 ^ 64"
proof -
  obtain c where c: "sc_chunks sc = [c]" "c_uses_fill_value c" "unread c" "sc_size sc = c_size c"
    using assms by (cases "sc_chunks sc") (auto simp: sc_wf_def)
  moreover obtain d where "raw env file c d" using assms(1) c(1) by (auto simp: sc_wf_def)
  ultimately show ?thesis using that by (auto simp: raw_def)
qed

lemma read_fill_run:
  assumes c: "c_uses_fill_value c" "\<not> c_is_read c" and v: "get_value_ptr env (c_fill_value_type c) (c_fill_value c) = Inr v" "v \<noteq> []"
      "get_value_size (c_fill_value_type c) = Inr (length v)" "c_size c = n * length v" "n < 2 ^ 31"
    and len: "length b = c_size c"
  shows "read_chunk env \<lparr>handles = h, the_chunk = set_read_buffer (Shared 0) (c_size c) 0 c, shared = b\<rparr>
    = (Inr (), \<lparr>handles = h, the_chunk = c\<lparr>c_read_buffer := Shared 0, c_read_buffer_size := c_size c, c_bytes_read := c_size c, c_is_read := True\<rparr>,
        shared = fill_bytes n v\<rparr>)"
proof -
  let ?t = "\<lparr>handles = h, the_chunk = set_read_buffer (Shared 0) (c_size c) 0 c, shared = b\<rparr>"
  have "buffer_ok ?t" "\<not> is_mine (the_chunk ?t)" using len by (simp_all add: buffer_ok_def is_mine_def set_read_buffer_def)
  then have "read_chunk env ?t = (Inr (), on_chunk (\<lambda>c. c\<lparr>c_bytes_read := n * length v, c_is_read := True\<rparr>) (poke 0 (fill_bytes n v) ?t))"
    using c v by (intro read_chunk_fill) (simp_all add: set_read_buffer_def)
  moreover have "poke 0 (fill_bytes n v) ?t = ?t\<lparr>shared := fill_bytes n v\<rparr>"
    using len v(4) by (simp add: poke_def set_read_buffer_def overwrite_def)
  ultimately show ?thesis using v(4) by (simp add: on_chunk_def set_read_buffer_def)
qed

lemma retrieve_data_fill:
  assumes srv: "serves env file" and sc: "sc_wf env file (the_super s)" and fill: "sc_uses_fill_value (the_super s)"
  shows "\<exists>sc'. retrieve_data env s = (Inr (), s\<lparr>the_super := sc'\<rparr>) \<and> ready_super env file (the_super s) sc'
    \<and> retrieve_data env (s\<lparr>the_super := sc'\<rparr>) = (Inr (), s\<lparr>the_super := sc'\<rparr>)"
proof -
  let ?sc = "the_super s"
  obtain c n v where c: "sc_chunks ?sc = [c]" "c_uses_fill_value c" "unread c" "sc_size ?sc = c_size c"
      "get_value_ptr env (c_fill_value_type c) (c_fill_value c) = Inr v" "v \<noteq> []"
      "get_value_size (c_fill_value_type c) = Inr (length v)" "c_size c = n * length v" "n < 2 ^ 31" "c_size c < 2 ^ 64"
    using one_fill_chunk [OF sc fill] by blast
  have sc0: "\<not> sc_is_read ?sc" "sc_read_buffer ?sc = None" using sc by (simp_all add: sc_wf_def)
  have mem: "length (fresh env (c_size c)) = c_size c" using srv by (simp add: serves_def)
  let ?c = "c\<lparr>c_read_buffer := Shared 0, c_read_buffer_size := c_size c, c_bytes_read := c_size c, c_is_read := True\<rparr>"
  let ?sc1 = "?sc\<lparr>sc_read_buffer := Some (fill_bytes n v), sc_chunks := [?c]\<rparr>"
  have "\<not> c_is_read c" using c(3) by (simp add: unread_def)
  note run = read_fill_run [OF c(2) this c(5-9) mem, of "sc_handles s"]
  have map0: "map_chunks 0 (c_size c) [c] = Inr [set_read_buffer (Shared 0) (c_size c) 0 c]"
    using map_chunks_mapped [of 0 "[c]" "c_size c"] c(10) by simp
  have "retrieve_data env s = (Inr (), s\<lparr>the_super := ?sc1\<rparr>)"
    using sc0 fill c(1,4) map0 run
    by (simp add: retrieve_data_def map_chunks_to_buffer_def read_fill_value_chunk_def run_child_def run_chunk_def with_super_def act_simps act_result_def)
  moreover have "raw env file c (fill_bytes n v)" using c by (auto simp: raw_def)
  then have "fetched env file (fill_bytes n v) c ?c" unfolding fetched_def using c(8) by (intro exI [of _ 0]) simp
  then have "ready_super env file ?sc ?sc1" by (simp add: ready_super_def c(1))
  moreover have map1: "map_chunks 0 (c_size c) [?c] = Inr [set_read_buffer (Shared 0) (c_size c) 0 ?c]"
    using map_chunks_mapped [of 0 "[?c]" "c_size c"] c(10) by simp
  have "retrieve_data env (s\<lparr>the_super := ?sc1\<rparr>) = (Inr (), s\<lparr>the_super := ?sc1\<rparr>)"
    using sc0 fill c(4) map1
    by (simp add: retrieve_data_def map_chunks_to_buffer_def read_fill_value_chunk_def run_child_def run_chunk_def with_super_def
        read_chunk_def act_simps act_result_def set_read_buffer_def)
  ultimately show ?thesis by blast
qed

lemma retrieve_data_ok:
  assumes "serves env file" and "sc_wf env file (the_super s)" and "False \<in> set (sc_handles s)"
  shows "\<exists>sc'. retrieve_data env s = (Inr (), s\<lparr>the_super := sc'\<rparr>) \<and> ready_super env file (the_super s) sc'
    \<and> retrieve_data env (s\<lparr>the_super := sc'\<rparr>) = (Inr (), s\<lparr>the_super := sc'\<rparr>)"
proof (cases "sc_uses_fill_value (the_super s)")
  case True
  then show ?thesis by (rule retrieve_data_fill [OF assms(1,2)])
next
  case False
  then obtain sc' where sc': "retrieve_data env s = (Inr (), s\<lparr>the_super := sc'\<rparr>)" "ready_super env file (the_super s) sc'" "sc_is_read sc'"
    using retrieve_data_file [OF assms(1,2) _ assms(3)] by blast
  moreover have "retrieve_data env (s\<lparr>the_super := sc'\<rparr>) = (Inr (), s\<lparr>the_super := sc'\<rparr>)"
    using sc'(3) by (simp add: retrieve_data_def act_simps)
  ultimately show ?thesis by blast
qed

subsection \<open>Processing the chunks\<close>

lemma raw_unique: "raw env file c d \<Longrightarrow> raw env file c d' \<Longrightarrow> d = d'"
  by (auto simp: raw_def split: if_splits)

text \<open>The values of a chunk: its bytes after all filters.\<close>

definition content :: "'z dmrpp_env_scheme \<Rightarrow> (string \<Rightarrow> bytes) \<Rightarrow> string \<Rightarrow> nat \<Rightarrow> nat \<Rightarrow> chunk \<Rightarrow> bytes \<Rightarrow> bool" where
  "content env file filters n w c out \<longleftrightarrow> (\<exists>d. raw env file c d
     \<and> (if c_uses_fill_value c \<or> filters = [] then out = d else filter_bytes (filter_env.truncate env) filters n w d = Some (Inr out)))"

lemma run_child_id:
  assumes "i < length (sc_chunks (the_super s))" and "sc_read_buffer (the_super s) = Some buf"
    and "m \<lparr>handles = sc_handles s, the_chunk = sc_chunks (the_super s) ! i, shared = buf\<rparr>
      = (Inr (), \<lparr>handles = sc_handles s, the_chunk = sc_chunks (the_super s) ! i, shared = buf\<rparr>)"
  shows "run_child i m s = (Inr (), s)"
proof -
  have "(the_super s)\<lparr>sc_read_buffer := Some buf\<rparr> = the_super s" using assms(2) by (cases "the_super s") simp
  then have "s\<lparr>sc_handles := sc_handles s, the_super := (the_super s)\<lparr>sc_read_buffer := Some buf, sc_chunks := sc_chunks (the_super s)\<rparr>\<rparr> = s" by simp
  then show ?thesis using assms by (simp add: run_child_def run_chunk_def with_super_def act_simps)
qed

lemma run_child_chunk:
  assumes "sc_read_buffer (the_super s) = Some buf"
    and "m \<lparr>handles = sc_handles s, the_chunk = sc_chunks (the_super s) ! i, shared = buf\<rparr>
      = (Inr (), \<lparr>handles = sc_handles s, the_chunk = c, shared = buf\<rparr>)"
  shows "run_child i m s = (Inr (), s\<lparr>the_super := (the_super s)\<lparr>sc_chunks := (sc_chunks (the_super s))[i := c]\<rparr>\<rparr>)"
proof -
  have "(the_super s)\<lparr>sc_read_buffer := Some buf\<rparr> = the_super s" using assms(1) by (cases "the_super s") simp
  then show ?thesis using assms by (simp add: run_child_def run_chunk_def with_super_def act_simps)
qed

lemma fetched_buffer:
  assumes "fetched env file buf c c'"
  shows "buffer_ok \<lparr>handles = h, the_chunk = c', shared = buf\<rparr>" and "raw env file c (rbuf buf c')"
    and "c_position c' = c_position c" and "c_uses_fill_value c' = c_uses_fill_value c" and "c_is_read c'" and "c_is_inflated c' = c_is_inflated c"
  using assms by (auto simp: fetched_def buffer_ok_def rbuf_def)

lemma filter_child:
  assumes f: "fetched env file buf c c'" and "unread c" and mem: "\<forall>n. length (fresh env n) = n"
    and out: "filter_bytes (filter_env.truncate env) filters n w (rbuf buf c') = Some (Inr out)"
  shows "\<exists>c''. filter_chunk env filters n w \<lparr>handles = h, the_chunk = c', shared = buf\<rparr> = (Inr (), \<lparr>handles = h, the_chunk = c'', shared = buf\<rparr>)
    \<and> rbuf buf c'' = out \<and> c_position c'' = c_position c"
proof -
  let ?t = "\<lparr>handles = h, the_chunk = c', shared = buf\<rparr>"
  have "\<not> c_is_inflated (the_chunk ?t)" using fetched_buffer(6) [OF f] assms(2) by (simp add: unread_def)
  then obtain t' where t': "filter_chunk env filters n w ?t = (Inr (), on_chunk (\<lambda>c. c\<lparr>c_is_inflated := True\<rparr>) t')" "rebuffered out ?t t'"
    using filter_chunk_ok [OF fetched_buffer(1) [OF f, of h] _ mem, of filters n w out] out by auto
  then obtain b m k where t: "t' = on_chunk (\<lambda>c. c\<lparr>c_read_buffer := b, c_read_buffer_size := m, c_bytes_read := k\<rparr>) ?t"
    by (auto simp: rebuffered_def buffer_change_def)
  let ?c = "c'\<lparr>c_read_buffer := b, c_read_buffer_size := m, c_bytes_read := k, c_is_inflated := True\<rparr>"
  have "rbuf buf ?c = out" using t'(2) unfolding t by (cases b) (simp_all add: rebuffered_def rbuf_def)
  moreover have "on_chunk (\<lambda>c. c\<lparr>c_is_inflated := True\<rparr>) t' = \<lparr>handles = h, the_chunk = ?c, shared = buf\<rparr>" unfolding t by (simp add: on_chunk_def)
  ultimately show ?thesis using t'(1) fetched_buffer(3) [OF f] by (intro exI [of _ ?c]) simp
qed

lemma process_chunk_ok:
  assumes i: "i < length (sc_chunks (the_super s))" and buf: "sc_read_buffer (the_super s) = Some buf"
    and f: "fetched env file buf c (sc_chunks (the_super s) ! i)" and "unread c" and mem: "\<forall>n. length (fresh env n) = n"
    and cont: "content env file filters n w c out" and ins: "ins (c_position c) out (sc_values s) = Some t"
  shows "\<exists>c'. process_chunk_with env filters n w ins i s
    = (Inr (), s\<lparr>the_super := (the_super s)\<lparr>sc_chunks := (sc_chunks (the_super s))[i := c']\<rparr>, sc_values := t\<rparr>)"
proof -
  let ?c = "sc_chunks (the_super s) ! i" and ?t = "\<lparr>handles = sc_handles s, the_chunk = sc_chunks (the_super s) ! i, shared = buf\<rparr>"
  note fb = fetched_buffer [OF f]
  have "read_chunk env ?t = (Inr (), ?t)" using fb(5) by (simp add: read_chunk_def act_simps)
  from run_child_id [where m = "read_chunk env", OF i buf this] have rd: "run_child i (read_chunk env) s = (Inr (), s)" .
  show ?thesis
  proof (cases "c_uses_fill_value c \<or> filters = []")
    case True
    then have "out = rbuf buf ?c" using cont raw_unique [OF fb(2)] by (auto simp: content_def)
    then have "process_chunk_with env filters n w ins i s = (Inr (), s\<lparr>sc_values := t\<rparr>)"
      using rd True fb(3,4) ins buf by (auto simp: process_chunk_with_def act_simps act_option_def)
    moreover have "s\<lparr>sc_values := t\<rparr> = s\<lparr>the_super := (the_super s)\<lparr>sc_chunks := (sc_chunks (the_super s))[i := ?c]\<rparr>, sc_values := t\<rparr>" by simp
    ultimately show ?thesis by metis
  next
    case False
    then have "filter_bytes (filter_env.truncate env) filters n w (rbuf buf ?c) = Some (Inr out)"
      using cont raw_unique [OF fb(2)] by (auto simp: content_def)
    then obtain c'' where c'': "filter_chunk env filters n w ?t = (Inr (), \<lparr>handles = sc_handles s, the_chunk = c'', shared = buf\<rparr>)"
        "rbuf buf c'' = out" "c_position c'' = c_position c"
      using filter_child [OF f assms(4) mem] by blast
    from run_child_chunk [where m = "filter_chunk env filters n w", OF buf c''(1)]
    have "run_child i (filter_chunk env filters n w) s = (Inr (), s\<lparr>the_super := (the_super s)\<lparr>sc_chunks := (sc_chunks (the_super s))[i := c'']\<rparr>\<rparr>)" .
    then have "process_chunk_with env filters n w ins i s
        = (Inr (), s\<lparr>the_super := (the_super s)\<lparr>sc_chunks := (sc_chunks (the_super s))[i := c'']\<rparr>, sc_values := t\<rparr>)"
      using rd False fb(4) ins buf i c''(2,3) by (auto simp: process_chunk_with_def act_simps act_option_def)
    then show ?thesis by blast
  qed
qed

subsection \<open>Both ways of inserting a chunk\<close>

text \<open>
  What reading asks of the code that inserts a chunk: when the array and its buffer are \<open>ready\<close> for a chunk at a position, the
  elements in its \<open>region\<close> become those of the requested part of the array, and nothing else changes.
\<close>

text \<open>The threads do every piece of work once, and at most as many transfers run at a time as the configuration allows.\<close>

definition all_done :: "dmrpp_config \<Rightarrow> bool" where
  "all_done cfg \<longleftrightarrow> (\<forall>n. distinct (transfer_order cfg n) \<and> set (transfer_order cfg n) = {..< n}
     \<and> distinct (compute_order cfg n) \<and> set (compute_order cfg n) = {..< n})
     \<and> (\<forall>i. others_hold cfg i < max_transfer_threads cfg)"

text \<open>There is a free handle for every transfer that may run at the same time.\<close>

definition enough_handles :: "dmrpp_config \<Rightarrow> bool list \<Rightarrow> bool" where
  "enough_handles cfg hs \<longleftrightarrow> 0 < free_handles hs \<and> (use_transfer_threads cfg \<longrightarrow> max_transfer_threads cfg \<le> free_handles hs)"

lemma enough_held: "all_done cfg \<Longrightarrow> enough_handles cfg hs \<Longrightarrow> held_by_others cfg i < free_handles hs"
  by (auto simp: all_done_def enough_handles_def held_by_others_def intro: less_le_trans)

lemma enough_one: "enough_handles cfg hs \<Longrightarrow> False \<in> set hs"
  using hold_leaves [of 0 hs] by (simp add: enough_handles_def)

lemma schedule_all:
  assumes "all_done cfg"
  shows "distinct (schedule b (transfer_order cfg) n)" "set (schedule b (transfer_order cfg) n) = {..< n}"
    "distinct (schedule b (compute_order cfg) n)" "set (schedule b (compute_order cfg) n) = {..< n}"
  using assms by (auto simp: schedule_def all_done_def)

locale chunk_inserter =
  fixes ready :: "dmrpp_array \<Rightarrow> nat list \<Rightarrow> bytes \<Rightarrow> bool"
    and ins :: "dmrpp_array \<Rightarrow> nat list \<Rightarrow> bytes \<Rightarrow> bytes \<Rightarrow> bytes option"
    and region :: "dmrpp_array \<Rightarrow> nat list \<Rightarrow> nat set"
  assumes ins_fills: "ready a pos t \<Longrightarrow> holds_chunk a whole pos buf \<Longrightarrow>
      \<exists>t'. ins a pos buf t = Some t' \<and> filled (elem_width a) (hyperslab (elem_width a) (array_dims a) whole) (region a pos) t t'"
    and ready_length: "ready a pos t \<Longrightarrow> length t' = length t \<Longrightarrow> ready a pos t'"
begin

definition good :: "'z dmrpp_env_scheme \<Rightarrow> (string \<Rightarrow> bytes) \<Rightarrow> string \<Rightarrow> dmrpp_array \<Rightarrow> bytes \<Rightarrow> bytes \<Rightarrow> chunk \<Rightarrow> bool" where
  "good env file filters a whole t c \<longleftrightarrow> ready a (c_position c) t
     \<and> (\<exists>out. content env file filters (get_chunk_size_in_elements a) (elem_width a) c out \<and> holds_chunk a whole (c_position c) out)"

abbreviation process :: "'z dmrpp_env_scheme \<Rightarrow> string \<Rightarrow> dmrpp_array \<Rightarrow> nat \<Rightarrow> unit super_reading" where
  "process env filters a \<equiv> process_chunk_with env filters (get_chunk_size_in_elements a) (elem_width a) (ins a)"

abbreviation requested :: "dmrpp_array \<Rightarrow> bytes \<Rightarrow> nat \<Rightarrow> bytes" where
  "requested a whole \<equiv> hyperslab (elem_width a) (array_dims a) whole"

lemma good_length: "good env file filters a whole t c \<Longrightarrow> length t' = length t \<Longrightarrow> good env file filters a whole t' c"
  by (auto simp: good_def intro: ready_length)

lemma children_ok:
  assumes mem: "\<forall>n. length (fresh env n) = n" and cs: "\<forall>c \<in> set cs. unread c"
    and "sc_read_buffer (the_super s) = Some buf" and "length (sc_chunks (the_super s)) = length cs"
    and "\<forall>j \<in> set order. fetched env file buf (cs ! j) (sc_chunks (the_super s) ! j)"
    and "\<forall>c \<in> set cs. good env file filters a whole (sc_values s) c" and "distinct order" and "set order \<subseteq> {..< length cs}"
  shows "\<exists>s'. act_each (process env filters a) order s = (Inr (), s') \<and> sc_handles s' = sc_handles s
    \<and> filled (elem_width a) (requested a whole) (\<Union>j \<in> set order. region a (c_position (cs ! j))) (sc_values s) (sc_values s')"
  using assms(3-)
proof (induction order arbitrary: s)
  case Nil
  then show ?case by (auto simp: act_return_def filled_refl)
next
  case (Cons i order)
  have i: "i < length cs" using Cons.prems(6) by simp
  let ?c = "cs ! i"
  have "?c \<in> set cs" using i by simp
  then obtain out where out: "ready a (c_position ?c) (sc_values s)"
      "content env file filters (get_chunk_size_in_elements a) (elem_width a) ?c out" "holds_chunk a whole (c_position ?c) out"
    using Cons.prems(4) by (auto simp: good_def)
  obtain t where t: "ins a (c_position ?c) out (sc_values s) = Some t"
      "filled (elem_width a) (requested a whole) (region a (c_position ?c)) (sc_values s) t"
    using ins_fills [OF out(1,3)] by blast
  have "fetched env file buf ?c (sc_chunks (the_super s) ! i)" "unread ?c" "i < length (sc_chunks (the_super s))"
    using Cons.prems i cs by auto
  then obtain c' where c': "process env filters a i s
      = (Inr (), s\<lparr>the_super := (the_super s)\<lparr>sc_chunks := (sc_chunks (the_super s))[i := c']\<rparr>, sc_values := t\<rparr>)"
    using process_chunk_ok [of i s buf env "file" ?c, OF _ Cons.prems(1) _ _ mem out(2), of "ins a", OF _ _ _ t(1)] by blast
  let ?s = "s\<lparr>the_super := (the_super s)\<lparr>sc_chunks := (sc_chunks (the_super s))[i := c']\<rparr>, sc_values := t\<rparr>"
  have "\<exists>s'. act_each (process env filters a) order ?s = (Inr (), s') \<and> sc_handles s' = sc_handles ?s
    \<and> filled (elem_width a) (requested a whole) (\<Union>j \<in> set order. region a (c_position (cs ! j))) (sc_values ?s) (sc_values s')"
  proof (rule Cons.IH)
    show "distinct order" "set order \<subseteq> {..< length cs}" using Cons.prems(5,6) by simp_all
    show "sc_read_buffer (the_super ?s) = Some buf" "length (sc_chunks (the_super ?s)) = length cs" using Cons.prems(1,2) by simp_all
    show "\<forall>j \<in> set order. fetched env file buf (cs ! j) (sc_chunks (the_super ?s) ! j)"
    proof
      fix j assume "j \<in> set order"
      then show "fetched env file buf (cs ! j) (sc_chunks (the_super ?s) ! j)" using Cons.prems(3,5) by (cases "i = j") simp_all
    qed
    show "\<forall>c \<in> set cs. good env file filters a whole (sc_values ?s) c"
      using Cons.prems(4) by (auto intro: good_length [OF _ filled_length [OF t(2)]])
  qed
  then obtain s' where s': "act_each (process env filters a) order ?s = (Inr (), s')" "sc_handles s' = sc_handles s"
      "filled (elem_width a) (requested a whole) (\<Union>j \<in> set order. region a (c_position (cs ! j))) t (sc_values s')" by auto
  have "act_each (process env filters a) (i # order) s = (Inr (), s')"
    using c' s'(1) by (simp add: act_then_def act_bind_def)
  moreover have "filled (elem_width a) (requested a whole) (\<Union>j \<in> set (i # order). region a (c_position (cs ! j))) (sc_values s) (sc_values s')"
    using filled_trans [OF t(2) s'(3)] by simp
  ultimately show ?case using s'(2) by blast
qed

text \<open>Reading one super chunk; the data are retrieved twice, the second time for nothing.\<close>

abbreviation read_one :: "dmrpp_config \<Rightarrow> 'z dmrpp_env_scheme \<Rightarrow> string \<Rightarrow> dmrpp_array \<Rightarrow> unit super_reading" where
  "read_one cfg env filters a \<equiv> act_then (retrieve_data env) (act_then (retrieve_data env) (for_each_child cfg (process env filters a)))"

lemma read_one_ok:
  assumes srv: "serves env file" and cfg: "all_done cfg" and sc: "sc_wf env file (the_super s)" and free: "False \<in> set (sc_handles s)"
    and good: "\<forall>c \<in> set (sc_chunks (the_super s)). good env file filters a whole (sc_values s) c"
  shows "\<exists>s'. read_one cfg env filters a s = (Inr (), s') \<and> sc_handles s' = sc_handles s
    \<and> filled (elem_width a) (requested a whole) (\<Union>c \<in> set (sc_chunks (the_super s)). region a (c_position c)) (sc_values s) (sc_values s')"
proof -
  obtain sc' where sc': "retrieve_data env s = (Inr (), s\<lparr>the_super := sc'\<rparr>)" "ready_super env file (the_super s) sc'"
      "retrieve_data env (s\<lparr>the_super := sc'\<rparr>) = (Inr (), s\<lparr>the_super := sc'\<rparr>)"
    using retrieve_data_ok [OF srv sc free] by blast
  let ?cs = "sc_chunks (the_super s)" and ?s = "s\<lparr>the_super := sc'\<rparr>"
  obtain buf where buf: "sc_read_buffer sc' = Some buf" "list_all2 (fetched env file buf) ?cs (sc_chunks sc')"
    using sc'(2) by (auto simp: ready_super_def)
  have len: "length (sc_chunks sc') = length ?cs" using list_all2_lengthD [OF buf(2)] by simp
  let ?order = "schedule (use_compute_threads cfg) (compute_order cfg) (length ?cs)"
  have order: "distinct ?order" "set ?order = {..< length ?cs}" using schedule_all [OF cfg] by simp_all
  have "\<forall>j \<in> set ?order. fetched env file buf (?cs ! j) (sc_chunks (the_super ?s) ! j)"
    unfolding order(2) using buf(2) by (simp add: list_all2_conv_all_nth)
  moreover have "\<forall>c \<in> set ?cs. unread c" using sc by (simp add: sc_wf_def)
  moreover have "\<forall>n. length (fresh env n) = n" using srv by (simp add: serves_def)
  ultimately obtain s' where s': "act_each (process env filters a) ?order ?s = (Inr (), s')" "sc_handles s' = sc_handles ?s"
      "filled (elem_width a) (requested a whole) (\<Union>j \<in> set ?order. region a (c_position (?cs ! j))) (sc_values ?s) (sc_values s')"
    using children_ok [of env ?cs ?s buf ?order "file" filters a whole] buf(1) len good order by auto
  have "read_one cfg env filters a s = (Inr (), s')"
    using sc' s'(1) len by (simp add: act_then_def act_bind_def for_each_child_def act_gets_def)
  moreover have "(\<Union>j \<in> set ?order. region a (c_position (?cs ! j))) = (\<Union>c \<in> set ?cs. region a (c_position c))"
    unfolding order(2) by (force simp: in_set_conv_nth)
  ultimately show ?thesis using s'(2,3) by auto
qed

lemma run_all_ok:
  assumes srv: "serves env file" and cfg: "all_done cfg" and "\<forall>p \<in> set ps. sc_wf env file (snd p) \<and> fst p < free_handles (ar_handles s)"
    and "\<forall>c \<in> set (concat (map (\<lambda>p. sc_chunks (snd p)) ps)). good env file filters a whole (v_values (the_var s)) c"
  shows "\<exists>t. act_each (\<lambda>(k, sc). run_super (read_one cfg env filters a) k sc) ps s = (Inr (), s\<lparr>the_var := (the_var s)\<lparr>v_values := t\<rparr>\<rparr>)
    \<and> filled (elem_width a) (requested a whole) (\<Union>c \<in> set (concat (map (\<lambda>p. sc_chunks (snd p)) ps)). region a (c_position c)) (v_values (the_var s)) t"
  using assms(3-)
proof (induction ps arbitrary: s)
  case Nil
  have "(the_var s)\<lparr>v_values := v_values (the_var s)\<rparr> = the_var s" by simp
  then show ?case by (intro exI [of _ "v_values (the_var s)"]) (simp add: act_return_def filled_refl)
next
  case (Cons p ps)
  obtain k sc where p: "p = (k, sc)" by (cases p)
  let ?h = "hold k (ar_handles s)"
  let ?s = "\<lparr>sc_handles = ?h, the_super = sc, sc_values = v_values (the_var s)\<rparr>"
  have "False \<in> set ?h" using Cons.prems(1) p by (intro hold_leaves) simp
  then obtain s1 where s1: "read_one cfg env filters a ?s = (Inr (), s1)" "sc_handles s1 = ?h"
      "filled (elem_width a) (requested a whole) (\<Union>c \<in> set (sc_chunks sc). region a (c_position c)) (v_values (the_var s)) (sc_values s1)"
    using read_one_ok [OF srv cfg, of ?s filters a whole] Cons.prems p by auto
  let ?s1 = "s\<lparr>the_var := (the_var s)\<lparr>v_values := sc_values s1\<rparr>\<rparr>"
  let ?run = "\<lambda>(k, sc). run_super (read_one cfg env filters a) k sc"
  have run: "?run p s = (Inr (), ?s1)"
    using s1(1,2) by (simp add: p run_super_def Let_def)
  have "\<exists>t. act_each ?run ps ?s1 = (Inr (), ?s1\<lparr>the_var := (the_var ?s1)\<lparr>v_values := t\<rparr>\<rparr>)
    \<and> filled (elem_width a) (requested a whole) (\<Union>c \<in> set (concat (map (\<lambda>p. sc_chunks (snd p)) ps)). region a (c_position c)) (v_values (the_var ?s1)) t"
  proof (rule Cons.IH)
    show "\<forall>p \<in> set ps. sc_wf env file (snd p) \<and> fst p < free_handles (ar_handles ?s1)" using Cons.prems by simp
    show "\<forall>c \<in> set (concat (map (\<lambda>p. sc_chunks (snd p)) ps)). good env file filters a whole (v_values (the_var ?s1)) c"
      using Cons.prems(2) by (auto intro: good_length [OF _ filled_length [OF s1(3)]])
  qed
  then obtain t where t: "act_each ?run ps ?s1 = (Inr (), s\<lparr>the_var := (the_var s)\<lparr>v_values := t\<rparr>\<rparr>)"
    "filled (elem_width a) (requested a whole) (\<Union>c \<in> set (concat (map (\<lambda>p. sc_chunks (snd p)) ps)). region a (c_position c)) (sc_values s1) t" by auto
  have "filled (elem_width a) (requested a whole) (\<Union>c \<in> set (concat (map (\<lambda>p. sc_chunks (snd p)) (p # ps))). region a (c_position c)) (v_values (the_var s)) t"
    using filled_trans [OF s1(3) t(2)] by (simp add: p UN_Un)
  moreover have "act_each ?run (p # ps) s = act_each ?run ps ?s1"
    unfolding act_each.simps by (rule act_then_run [where m = "?run p", OF run])
  ultimately show ?case using t(1) by (intro exI [of _ t]) simp
qed

lemma read_all_ok:
  assumes srv: "serves env file" and cfg: "all_done cfg" and "\<forall>sc \<in> set scs. sc_wf env file sc" and free: "enough_handles cfg (ar_handles s)"
    and "\<forall>c \<in> set (concat (map sc_chunks scs)). good env file filters a whole (v_values (the_var s)) c"
  shows "\<exists>t. read_super_chunks cfg (read_one cfg env filters a) scs s = (Inr (), s\<lparr>the_var := (the_var s)\<lparr>v_values := t\<rparr>\<rparr>)
    \<and> filled (elem_width a) (requested a whole) (\<Union>c \<in> set (concat (map sc_chunks scs)). region a (c_position c)) (v_values (the_var s)) t"
proof -
  let ?ps = "map (\<lambda>i. (held_by_others cfg i, scs ! i)) (schedule (use_transfer_threads cfg) (transfer_order cfg) (length scs))"
  have scs: "snd ` set ?ps = set scs" using schedule_all(2) [OF cfg] by (auto simp: in_set_conv_nth image_iff)
  have "set (concat (map (\<lambda>p. sc_chunks (snd p)) ?ps)) = (\<Union>sc \<in> snd ` set ?ps. set (sc_chunks sc))" by simp
  then have same: "set (concat (map (\<lambda>p. sc_chunks (snd p)) ?ps)) = set (concat (map sc_chunks scs))" unfolding scs by simp
  have "snd p \<in> set scs" if "p \<in> set ?ps" for p using that scs by blast
  moreover have "fst p < free_handles (ar_handles s)" if "p \<in> set ?ps" for p using that enough_held [OF cfg free] by auto
  ultimately have "\<forall>p \<in> set ?ps. sc_wf env file (snd p) \<and> fst p < free_handles (ar_handles s)" using assms(3) by blast
  from run_all_ok [OF srv cfg this, of filters a whole] show ?thesis
    unfolding read_super_chunks_def same using assms(5) by blast
qed

end

subsection \<open>Constrained arrays\<close>

definition ready_constrained :: "dmrpp_array \<Rightarrow> nat list \<Rightarrow> bytes \<Rightarrow> bool" where
  "ready_constrained a pos t \<longleftrightarrow> chunked a pos \<and> find_needed_chunks a pos 0 = Some True
     \<and> length t = prod_list (c_sizes (array_dims a)) * elem_width a \<and> length t < 2 ^ 64
     \<and> prod_list (chunk_dimension_sizes a) * elem_width a < 2 ^ 64
     \<and> (dim_stride (last (array_dims a)) = 1 \<or> length t \<le> 2 ^ 32 \<and> prod_list (chunk_dimension_sizes a) * elem_width a \<le> 2 ^ 32)"

definition constrained_region :: "dmrpp_array \<Rightarrow> nat list \<Rightarrow> nat set" where
  "constrained_region a pos = sel_region [] (array_dims a) pos (chunk_dimension_sizes a) (c_sizes (array_dims a))"

definition insert_constrained :: "dmrpp_array \<Rightarrow> nat list \<Rightarrow> bytes \<Rightarrow> bytes \<Rightarrow> bytes option" where
  "insert_constrained a pos buf = insert_chunk a (get_shape a True) pos buf 0 pos (replicate (length (array_dims a)) 0)"

lemma get_shape_constrained: "get_shape a True = c_sizes (array_dims a)"
  by (simp add: get_shape_def dimension_size_def)

interpretation constrained: chunk_inserter ready_constrained insert_constrained constrained_region
proof
  fix a :: dmrpp_array and pos and t whole buf :: bytes assume "ready_constrained a pos t" "holds_chunk a whole pos buf"
  then show "\<exists>t'. insert_constrained a pos buf t = Some t'
      \<and> filled (elem_width a) (hyperslab (elem_width a) (array_dims a) whole) (constrained_region a pos) t t'"
    unfolding insert_constrained_def constrained_region_def get_shape_constrained
    by (intro insert_chunk_filled) (auto simp: ready_constrained_def holds_chunk_def)
qed (auto simp: ready_constrained_def)

subsection \<open>Arrays that are not constrained\<close>

definition ready_whole :: "dmrpp_array \<Rightarrow> nat list \<Rightarrow> bytes \<Rightarrow> bool" where
  "ready_whole a pos t \<longleftrightarrow> chunk_fits a pos \<and> list_all whole_dim (array_dims a) \<and> length t = prod_list (sizes (array_dims a)) * elem_width a"

definition whole_region :: "dmrpp_array \<Rightarrow> nat list \<Rightarrow> nat set" where
  "whole_region a pos = rest_region pos (chunk_dimension_sizes a) (sizes (array_dims a)) 0"

definition insert_whole :: "dmrpp_array \<Rightarrow> nat list \<Rightarrow> bytes \<Rightarrow> bytes \<Rightarrow> bytes option" where
  "insert_whole a pos buf = insert_chunk_unconstrained a buf 0 0 (get_shape a True) 0 (chunk_dimension_sizes a) pos"

lemma c_sizes_whole: "list_all whole_dim ds \<Longrightarrow> c_sizes ds = sizes ds"
  by (induction ds) (auto simp: whole_dim_def)

lemma source_of_whole: "list_all whole_dim ds \<Longrightarrow> list_all2 (<) x (sizes ds) \<Longrightarrow> source_of ds x = x"
proof (induction ds arbitrary: x)
  case Nil
  then show ?case by simp
next
  case (Cons d ds)
  then obtain i x' where x: "x = i # x'" "i < dim_size d" "list_all2 (<) x' (sizes ds)" by (auto simp: list_all2_Cons2)
  have "whole_dim d" using Cons.prems by simp
  then have "source_coord d i = i" using whole_dimD [of d] x(2) by (auto simp: source_coord_def)
  then show ?case using Cons x by simp
qed

interpretation unconstrained: chunk_inserter ready_whole insert_whole whole_region
proof
  fix a :: dmrpp_array and pos and t whole buf :: bytes assume ready: "ready_whole a pos t" and holds: "holds_chunk a whole pos buf"
  let ?w = "elem_width a" and ?ds = "array_dims a" and ?cs = "chunk_dimension_sizes a"
  have wh: "list_all whole_dim ?ds" and fits: "chunk_fits a pos" using ready by (simp_all add: ready_whole_def)
  have "hyperslab ?w ?ds whole (row_major x (sizes ?ds)) = elem ?w buf (row_major (map2 (-) x pos) ?cs)" if "in_box pos ?cs (sizes ?ds) x" for x
  proof -
    have x: "list_all2 (<) x (sizes ?ds)" using that by (rule in_box_shape)
    then have "hyperslab ?w ?ds whole (row_major x (sizes ?ds)) = elem ?w whole (row_major x (sizes ?ds))"
      using hyperslab_row_major [of x ?ds ?w whole] c_sizes_whole [OF wh] source_of_whole [OF wh x] by simp
    then show ?thesis using holds that by (simp add: holds_chunk_def)
  qed
  then have "icu_pre a pos buf 0 0 0 t (hyperslab ?w ?ds whole)"
    using ready holds by (auto simp: icu_pre_def ready_whole_def holds_chunk_def chunk_fits_def)
  moreover have "0 < length ?ds" using fits by (auto simp: chunk_fits_def)
  ultimately show "\<exists>t'. insert_whole a pos buf t = Some t'
      \<and> filled (elem_width a) (hyperslab (elem_width a) (array_dims a) whole) (whole_region a pos) t t'"
    using icu_filled [OF fits wh] unfolding insert_whole_def whole_region_def get_shape_constrained c_sizes_whole [OF wh] by fastforce
qed (simp add: ready_whole_def)

subsection \<open>Reading the array\<close>

abbreviation array_of :: "dmrpp_variable \<Rightarrow> dmrpp_array" where
  "array_of v \<equiv> dmrpp_array.truncate v"

lemma array_of_simps [simp]:
  "array_dims (array_of v) = array_dims v" "chunk_dimension_sizes (array_of v) = chunk_dimension_sizes v"
  "elem_width (array_of v) = elem_width v" "get_chunk_size_in_elements (array_of v) = get_chunk_size_in_elements v"
  by (simp_all add: dmrpp_array.defs get_chunk_size_in_elements_def)

lemma read_super_one: "read_super cfg env v = constrained.read_one cfg env (v_filters v) (array_of v)"
  by (simp add: read_super_def process_child_chunks_def process_one_chunk_def insert_constrained_def [abs_def])

lemma read_super_unconstrained_one: "read_super_unconstrained cfg env v = unconstrained.read_one cfg env (v_filters v) (array_of v)"
  by (simp add: read_super_unconstrained_def process_child_chunks_unconstrained_def process_one_chunk_unconstrained_def insert_whole_def [abs_def])

lemma get_size_prod:
  assumes "list_all wf_dim (array_dims a)" and "ns = map (\<lambda>d. dimension_size d b) (array_dims a)" and "prod_list ns < 2 ^ 64"
  shows "get_size a b = prod_list ns"
proof -
  have "0 \<notin> set ns"
    using assms(1) by (auto simp: assms(2) list_all_iff wf_dim_def dimension_size_def split: if_splits)
  from fold_mult_u64 [OF this, of 1] show ?thesis using assms(2,3) by (simp add: get_size_def fold_map comp_def)
qed

text \<open>The file has the values of the array \<open>whole\<close>, in the chunks that the array knows about.\<close>

definition stored :: "'z dmrpp_env_scheme \<Rightarrow> (string \<Rightarrow> bytes) \<Rightarrow> dmrpp_variable \<Rightarrow> bytes \<Rightarrow> bool" where
  "stored env file v whole \<longleftrightarrow>
     2 \<le> length (v_chunks v) \<and> fills_last (v_chunks v) \<and> covers (array_of v) (c_position ` set (v_chunks v))
     \<and> (\<forall>c \<in> set (v_chunks v). unread c \<and> chunked (array_of v) (c_position c)
          \<and> (\<exists>out. content env file (v_filters v) (get_chunk_size_in_elements v) (elem_width v) c out
                \<and> holds_chunk (array_of v) whole (c_position c) out))"

text \<open>Sizes that fit the integers of the code; the strided copy computes byte offsets in 32 bits.\<close>

definition size_limits :: "dmrpp_variable \<Rightarrow> bool" where
  "size_limits v \<longleftrightarrow> prod_list (c_sizes (array_dims v)) * elem_width v < 2 ^ 64 \<and> prod_list (chunk_dimension_sizes v) * elem_width v < 2 ^ 64
     \<and> (dim_stride (last (array_dims v)) = 1
        \<or> prod_list (c_sizes (array_dims v)) * elem_width v \<le> 2 ^ 32 \<and> prod_list (chunk_dimension_sizes v) * elem_width v \<le> 2 ^ 32)"

lemma stored_array:
  assumes "stored env file v whole"
  shows "array_dims v \<noteq> []" and "list_all wf_dim (array_dims v)" and "0 < elem_width v"
    and "\<forall>c \<in> set (v_chunks v). unread c \<and> (\<exists>d. raw env file c d)"
proof -
  obtain c where "c \<in> set (v_chunks v)" using assms by (cases "v_chunks v") (auto simp: stored_def)
  then have "chunked (array_of v) (c_position c)" using assms by (simp add: stored_def)
  then show "array_dims v \<noteq> []" "list_all wf_dim (array_dims v)" "0 < elem_width v" by (simp_all add: chunked_def)
  show "\<forall>c \<in> set (v_chunks v). unread c \<and> (\<exists>d. raw env file c d)" using assms by (auto simp: stored_def content_def)
qed

text \<open>The needed chunks are enough.\<close>

lemma needed_cover:
  assumes st: "stored env file v whole"
  shows "{..< prod_list (c_sizes (array_dims v))}
    \<subseteq> (\<Union>c \<in> {c \<in> set (v_chunks v). find_needed_chunks (array_of v) (c_position c) 0 = Some True}. constrained_region (array_of v) (c_position c))"
proof
  fix k assume "k \<in> {..< prod_list (c_sizes (array_dims v))}"
  moreover have "list_all wf_dim (array_dims (array_of v))" using stored_array(2) [OF st] by simp
  moreover have "covers (array_of v) (c_position ` set (v_chunks v))" using st by (simp add: stored_def)
  ultimately obtain bs where bs: "bs \<in> c_position ` set (v_chunks v)" "k \<in> constrained_region (array_of v) bs"
      "\<exists>y. selected (array_dims v) bs (chunk_dimension_sizes v) y"
    using covers_selected [of "array_of v" "c_position ` set (v_chunks v)" k] by (auto simp: constrained_region_def)
  obtain c where c: "c \<in> set (v_chunks v)" "bs = c_position c" using bs(1) by blast
  have "chunked (array_of v) bs" using st c by (simp add: stored_def)
  then have "find_needed_chunks (array_of v) bs 0 = Some True" using selected_needed bs(3) by (metis array_of_simps(1,2))
  then show "k \<in> (\<Union>c \<in> {c \<in> set (v_chunks v). find_needed_chunks (array_of v) (c_position c) 0 = Some True}. constrained_region (array_of v) (c_position c))"
    using bs(2) c by auto
qed

lemma read_chunks_reads:
  assumes srv: "serves env file" and cfg: "all_done cfg" and st: "stored env file (the_var s) whole" and lim: "size_limits (the_var s)"
    and free: "enough_handles cfg (ar_handles s)"
  shows "\<exists>t. read_chunks cfg env s = (Inr (), s\<lparr>the_var := (the_var s)\<lparr>v_values := t, v_read_p := True\<rparr>\<rparr>)
    \<and> is_hyperslab (elem_width (the_var s)) (array_dims (the_var s)) whole t"
proof -
  let ?v = "the_var s" and ?a = "array_of (the_var s)"
  let ?need = "\<lambda>c. find_needed_chunks ?a (c_position c) 0" and ?p = "\<lambda>c. find_needed_chunks ?a (c_position c) 0 = Some True"
  note arr = stored_array [OF st]
  have need: "?need c = Some (?p c)" if "c \<in> set (v_chunks ?v)" for c
    using find_needed_passes [of ?a "c_position c" 0] st that arr(1) by (auto simp: stored_def)
  have pos: "0 < prod_list (c_sizes (array_dims ?v))"
    using arr(2) by (intro prod_list_pos) (auto simp: list_all_iff wf_dim_def)
  then obtain c where "c \<in> set (v_chunks ?v)" "?p c" using needed_cover [OF st] by auto
  then have "\<exists>c \<in> set (v_chunks ?v). ?p c" by blast
  moreover have "\<forall>c \<in> set (v_chunks ?v). ?need c = Some (?p c) \<and> unread c \<and> (\<exists>d. raw env file c d)" using need arr(4) by simp
  moreover have "fills_last (v_chunks ?v)" using st by (simp add: stored_def)
  ultimately obtain complete current where scs:
      "make_super_chunks env ?need (v_chunks ?v) ([], new_super_chunk, False) = Some (Inr (complete, current, True))"
      "\<forall>sc \<in> set (complete @ [current]). sc_wf env file sc" "concat (map sc_chunks (complete @ [current])) = filter ?p (v_chunks ?v)"
    using make_super_chunks_start [OF srv, of "v_chunks ?v" ?need ?p] by blast
  let ?t0 = "fresh env (get_size ?a True * elem_width ?v)"
  let ?s0 = "s\<lparr>the_var := ?v\<lparr>v_values := ?t0\<rparr>\<rparr>"
  have "c_sizes (array_dims ?v) = map (\<lambda>d. dimension_size d True) (array_dims ?v)" by (simp add: dimension_size_def)
  moreover have "prod_list (c_sizes (array_dims ?v)) < 2 ^ 64" using lim mult_less_left [OF arr(3)] by (auto simp: size_limits_def)
  ultimately have "get_size ?a True = prod_list (c_sizes (array_dims ?v))" using get_size_prod [of ?a "c_sizes (array_dims ?v)" True] arr(2) by simp
  then have t0: "length ?t0 = prod_list (c_sizes (array_dims ?v)) * elem_width ?v" using srv by (simp add: serves_def)
  have good: "constrained.good env file (v_filters ?v) ?a whole ?t0 c" if "c \<in> set (filter ?p (v_chunks ?v))" for c
    using that st lim t0 by (auto simp: constrained.good_def ready_constrained_def stored_def size_limits_def)
  obtain t where t: "read_super_chunks cfg (read_super cfg env ?v) (complete @ [current]) ?s0 = (Inr (), ?s0\<lparr>the_var := (the_var ?s0)\<lparr>v_values := t\<rparr>\<rparr>)"
      "filled (elem_width ?v) (hyperslab (elem_width ?v) (array_dims ?v) whole)
         (\<Union>c \<in> set (filter ?p (v_chunks ?v)). constrained_region ?a (c_position c)) ?t0 t"
    using constrained.read_all_ok [OF srv cfg scs(2), of ?s0 "v_filters ?v" ?a whole] free good unfolding scs(3) read_super_one by auto
  have "{..< prod_list (c_sizes (array_dims ?v))} \<subseteq> (\<Union>c \<in> set (filter ?p (v_chunks ?v)). constrained_region ?a (c_position c))"
    using needed_cover [OF st] by simp
  from filled_hyperslab [OF t(2) t0 this] have "is_hyperslab (elem_width ?v) (array_dims ?v) whole t" .
  moreover have "2 \<le> length (v_chunks ?v)" using st by (simp add: stored_def)
  then have "read_chunks cfg env s = (Inr (), s\<lparr>the_var := ?v\<lparr>v_values := t, v_read_p := True\<rparr>\<rparr>)"
    using scs(1) t(1) by (simp add: read_chunks_def reserve_value_capacity_def with_var_def act_simps act_ub_def act_option_def act_result_def)
  ultimately show ?thesis by blast
qed

text \<open>Without a constraint every chunk is read; each of them has to begin inside of the array.\<close>

definition inside :: "dmrpp_variable \<Rightarrow> bool" where
  "inside v \<longleftrightarrow> (\<forall>c \<in> set (v_chunks v). \<forall>i < length (array_dims v). c_position c ! i < dim_size (array_dims v ! i))"

lemma not_projected_whole: "list_all wf_dim (array_dims a) \<Longrightarrow> \<not> is_projected a \<Longrightarrow> list_all whole_dim (array_dims a)"
  by (auto simp: is_projected_def dimension_size_def list_all_iff whole_dim_def)

lemma chunks_fit:
  assumes st: "stored env file v whole" and "size_limits v" and "inside v" and np: "\<not> is_projected (array_of v)" and c: "c \<in> set (v_chunks v)"
  shows "chunk_fits (array_of v) (c_position c)"
proof -
  have ch: "chunked (array_of v) (c_position c)" using st c by (simp add: stored_def)
  have wh: "list_all whole_dim (array_dims v)"
    using not_projected_whole [of "array_of v"] stored_array(2) [OF st] np by simp
  have "c_position c ! i \<le> dim_stop (array_dims v ! i) \<and> dim_stop (array_dims v ! i) < 2 ^ 31" if "i < length (array_dims v)" for i
  proof -
    have "whole_dim (array_dims v ! i)" using wh that by (simp add: list_all_length)
    then have "dim_stop (array_dims v ! i) = dim_size (array_dims v ! i) - 1" "dim_size (array_dims v ! i) < 2 ^ 31"
      using whole_dimD [of "array_dims v ! i"] by (simp_all add: wf_dim_def)
    moreover have "c_position c ! i < dim_size (array_dims v ! i)" using assms(3) c that by (simp add: inside_def)
    ultimately show ?thesis by linarith
  qed
  then show ?thesis
    using ch assms(2) c_sizes_whole [OF wh] by (auto simp: chunk_fits_def chunked_def size_limits_def)
qed

lemma whole_cover:
  assumes "stored env file v whole"
  shows "{..< prod_list (sizes (array_dims v))} \<subseteq> (\<Union>c \<in> set (v_chunks v). whole_region (array_of v) (c_position c))"
proof
  fix k assume "k \<in> {..< prod_list (sizes (array_dims v))}"
  then have x: "list_all2 (<) (coords k (sizes (array_dims v))) (sizes (array_dims v))" "row_major (coords k (sizes (array_dims v))) (sizes (array_dims v)) = k"
    using row_major_coords by simp_all
  then obtain c where "c \<in> set (v_chunks v)" "in_box (c_position c) (chunk_dimension_sizes v) (sizes (array_dims v)) (coords k (sizes (array_dims v)))"
    using assms by (auto simp: stored_def covers_def)
  then show "k \<in> (\<Union>c \<in> set (v_chunks v). whole_region (array_of v) (c_position c))"
    using x(2) by (force simp: whole_region_def rest_region_def)
qed

lemma read_chunks_unconstrained_reads:
  assumes srv: "serves env file" and cfg: "all_done cfg" and st: "stored env file (the_var s) whole" and lim: "size_limits (the_var s)"
    and ins: "inside (the_var s)" and np: "\<not> is_projected (array_of (the_var s))" and free: "enough_handles cfg (ar_handles s)"
  shows "\<exists>t. read_chunks_unconstrained cfg env s = (Inr (), s\<lparr>the_var := (the_var s)\<lparr>v_values := t, v_read_p := True\<rparr>\<rparr>)
    \<and> is_hyperslab (elem_width (the_var s)) (array_dims (the_var s)) whole t"
proof -
  let ?v = "the_var s" and ?a = "array_of (the_var s)"
  note arr = stored_array [OF st]
  have wh: "list_all whole_dim (array_dims ?v)" using not_projected_whole [of ?a] arr(2) np by simp
  note cs = c_sizes_whole [OF wh]
  have two: "2 \<le> length (v_chunks ?v)" "fills_last (v_chunks ?v)" using st by (simp_all add: stored_def)
  have "\<exists>c \<in> set (v_chunks ?v). True" using two by (cases "v_chunks ?v") auto
  then obtain complete current where scs:
      "make_super_chunks env (\<lambda>_. Some True) (v_chunks ?v) ([], new_super_chunk, False) = Some (Inr (complete, current, True))"
      "\<forall>sc \<in> set (complete @ [current]). sc_wf env file sc" "concat (map sc_chunks (complete @ [current])) = v_chunks ?v"
    using make_super_chunks_start [OF srv, of "v_chunks ?v" "\<lambda>_. Some True" "\<lambda>_. True"] arr(4) two(2) by auto
  let ?t0 = "fresh env (get_size ?a False * elem_width ?v)"
  let ?s0 = "s\<lparr>the_var := ?v\<lparr>v_values := ?t0\<rparr>\<rparr>"
  have "sizes (array_dims ?v) = map (\<lambda>d. dimension_size d False) (array_dims ?v)" by (simp add: dimension_size_def)
  moreover have "prod_list (sizes (array_dims ?v)) < 2 ^ 64" using lim cs mult_less_left [OF arr(3)] by (auto simp: size_limits_def)
  ultimately have "get_size ?a False = prod_list (sizes (array_dims ?v))"
    using get_size_prod [of ?a "sizes (array_dims ?v)" False] arr(2) by simp
  then have t0: "length ?t0 = prod_list (sizes (array_dims ?v)) * elem_width ?v" using srv by (simp add: serves_def)
  have good: "unconstrained.good env file (v_filters ?v) ?a whole ?t0 c" if "c \<in> set (v_chunks ?v)" for c
    using that st wh t0 chunks_fit [OF st lim ins np that] by (auto simp: unconstrained.good_def ready_whole_def stored_def)
  obtain t where t: "read_super_chunks cfg (read_super_unconstrained cfg env ?v) (complete @ [current]) ?s0 = (Inr (), ?s0\<lparr>the_var := (the_var ?s0)\<lparr>v_values := t\<rparr>\<rparr>)"
      "filled (elem_width ?v) (hyperslab (elem_width ?v) (array_dims ?v) whole)
         (\<Union>c \<in> set (v_chunks ?v). whole_region ?a (c_position c)) ?t0 t"
    using unconstrained.read_all_ok [OF srv cfg scs(2), of ?s0 "v_filters ?v" ?a whole] free good
    unfolding scs(3) read_super_unconstrained_one by auto
  from filled_hyperslab [OF t(2)] have "is_hyperslab (elem_width ?v) (array_dims ?v) whole t"
    using t0 whole_cover [OF st] unfolding cs by simp
  moreover have "read_chunks_unconstrained cfg env s = (Inr (), s\<lparr>the_var := ?v\<lparr>v_values := t, v_read_p := True\<rparr>\<rparr>)"
    using scs(1) t(1) two(1)
    by (simp add: read_chunks_unconstrained_def reserve_value_capacity_def with_var_def act_simps act_ub_def act_option_def act_result_def)
  ultimately show ?thesis by blast
qed

end
