(* ===== verification/Dmrpp_Var.thy ===== *)
theory Dmrpp_Var
  imports Dmrpp_Read
begin











definition twiddle_width :: "dods_type \<Rightarrow> nat option" where
  "twiddle_width t =
     (if t \<in> {dods_int16_c, dods_uint16_c} then Some 2
      else if t \<in> {dods_int32_c, dods_uint32_c} then Some 4
      else if t \<in> {dods_int64_c, dods_uint64_c} then Some 8
      else None)"

fun swap_elements :: "nat \<Rightarrow> nat \<Rightarrow> bytes \<Rightarrow> bytes" where
  "swap_elements 0 w t = t"
| "swap_elements (Suc num) w t = rev (take w t) @ swap_elements num w (drop w t)"

definition twiddle :: "dmrpp_variable \<Rightarrow> dmrpp_variable" where
  "twiddle v =
     (if v_twiddle_bytes v then
        (case twiddle_width (v_type v) of
           None \<Rightarrow> v
         | Some w \<Rightarrow> v\<lparr>v_values := swap_elements (get_size (dmrpp_array.truncate v) True) w (v_values v)\<rparr>)
      else v)"



subsection \<open>An array in one piece\<close>
















subsection \<open>Reading any array\<close>






subsection \<open>The byte order\<close>






lemma twiddle_frame [simp]:
  "array_dims (twiddle v) = array_dims v" "v_read_p (twiddle v) = v_read_p v" "elem_width (twiddle v) = elem_width v"
  by (simp_all add: twiddle_def split: option.split)






subsection \<open>An example\<close>















subsection \<open>Reading is correct\<close>



end
