(* ===== verification/Dmrpp_Base64.thy ===== *)
theory Dmrpp_Base64
  imports Dmrpp_Filters
begin

text \<open>
  \<^verbatim>\<open>modules/dmrpp_module/Base64.h\<close>: the values of small variables are part of the DMR++ document, in base 64.  The bytes are
  a list instead of a pointer and a size; the size is an \<^verbatim>\<open>int32_t\<close>, and so is the length of the result that is computed from it.
\<close>

definition encodeLookup :: string where
  "encodeLookup = ''ABCDEFGHIJKLMNOPQRSTUVWXYZabcdefghijklmnopqrstuvwxyz0123456789+/''"

definition padCharacter :: char where
  "padCharacter = CHR ''=''"

text \<open>The four characters of a group of three bytes, which are in \<open>temp\<close>.\<close>

definition encode_char :: "nat \<Rightarrow> 64 word \<Rightarrow> char" where
  "encode_char k temp =
     encodeLookup ! unat (
       if k = 0 then drop_bit 18 (temp AND 0x00FC0000)
       else if k = 1 then drop_bit 12 (temp AND 0x0003F000)
       else if k = 2 then drop_bit 6 (temp AND 0x00000FC0)
       else temp AND 0x0000003F)"

fun encode_groups :: "bytes \<Rightarrow> string" where
  "encode_groups (a # b # c # rest) =
     (let temp = push_bit 16 (ucast a) + push_bit 8 (ucast b) + ucast c
      in [encode_char 0 temp, encode_char 1 temp, encode_char 2 temp, encode_char 3 temp]) @ encode_groups rest"
| "encode_groups [a, b] =
     (let temp = push_bit 16 (ucast a) + push_bit 8 (ucast b)
      in [encode_char 0 temp, encode_char 1 temp, encode_char 2 temp, padCharacter])"
| "encode_groups [a] =
     (let temp = push_bit 16 (ucast a)
      in [encode_char 0 temp, encode_char 1 temp, padCharacter, padCharacter])"
| "encode_groups [] = []"

text \<open>The length that is reserved for the result is computed with signed 32-bit numbers; when it overflows the behaviour is undefined.\<close>

definition encode :: "bytes \<Rightarrow> string option" where
  "encode bs =
     (let n = length bs
      in if (n div 3 + (if n mod 3 > 0 then 1 else 0)) * 4 < 2 ^ 31 then Some (encode_groups bs) else None)"

definition char_value :: "char \<Rightarrow> nat option" where
  "char_value ch =
     (let c = of_char ch
      in if 0x41 \<le> c \<and> c \<le> 0x5A then Some (c - 0x41)
         else if 0x61 \<le> c \<and> c \<le> 0x7A then Some (c - 0x47)
         else if 0x30 \<le> c \<and> c \<le> 0x39 then Some (c + 0x04)
         else if c = 0x2B then Some 0x3E
         else if c = 0x2F then Some 0x3F
         else None)"

definition byte_at :: "nat \<Rightarrow> 32 word \<Rightarrow> 8 word" where
  "byte_at k temp = ucast (drop_bit k temp AND 0xFF)"

text \<open>The loop, with the position in the group of four, \<open>temp\<close> and the bytes so far.\<close>

fun decode_loop :: "nat \<Rightarrow> 32 word \<Rightarrow> bytes \<Rightarrow> string \<Rightarrow> bytes result" where
  "decode_loop q temp decoded [] = Inr decoded"
| "decode_loop q temp decoded (ch # cursor) =
     (let temp = push_bit 6 temp
      in case char_value ch of
           Some v \<Rightarrow>
             let temp = temp OR of_nat v
             in if q < 3 then decode_loop (q + 1) temp decoded cursor
                else decode_loop 0 temp (decoded @ [byte_at 16 temp, byte_at 8 temp, byte_at 0 temp]) cursor
         | None \<Rightarrow>
             if ch = padCharacter then
               (if length (ch # cursor) = 1 then Inr (decoded @ [byte_at 16 temp, byte_at 8 temp])
                else if length (ch # cursor) = 2 then Inr (decoded @ [byte_at 10 temp])
                else Inl (StdRuntimeError ''Invalid Padding in Base 64!''))
             else Inl (StdRuntimeError ''Non-Valid Character in Base 64!''))"

definition decode :: "string \<Rightarrow> bytes result" where
  "decode input = (if length input mod 4 \<noteq> 0 then Inl (StdRuntimeError ''Non-Valid base64!'') else decode_loop 0 0 [] input)"

subsection \<open>Decoding what was encoded\<close>

lemma char_value_lookup: "n < 64 \<Longrightarrow> char_value (encodeLookup ! n) = Some n"
proof -
  have "map char_value encodeLookup = map Some [0 ..< 64]" by code_simp
  moreover have "length encodeLookup = 64" by (simp add: encodeLookup_def)
  ultimately show "n < 64 \<Longrightarrow> ?thesis" by (metis add_0 diff_zero length_upt nth_map nth_upt)
qed

lemma masks: "(0x3F :: 'a::len word) = mask 6" "(0xFF :: 'a word) = mask 8" "(0x00FC0000 :: 64 word) = push_bit 18 (mask 6)"
    "(0x0003F000 :: 64 word) = push_bit 12 (mask 6)" "(0x00000FC0 :: 64 word) = push_bit 6 (mask 6)"
  by (simp_all add: mask_eq_exp_minus_1 push_bit_eq_mult)

text \<open>Six bits of a group, from bit \<open>k\<close> on.\<close>

definition sextet :: "nat \<Rightarrow> 64 word \<Rightarrow> 64 word" where
  "sextet k temp = drop_bit k temp AND mask 6"

lemma encode_char_sextet:
  "encode_char 0 temp = encodeLookup ! unat (sextet 18 temp)" "encode_char (Suc 0) temp = encodeLookup ! unat (sextet 12 temp)"
  "encode_char 2 temp = encodeLookup ! unat (sextet 6 temp)" "encode_char 3 temp = encodeLookup ! unat (sextet 0 temp)"
proof -
  have "drop_bit k (temp AND push_bit k (mask 6)) = drop_bit k temp AND mask 6" for k
    by (rule bit_eqI) (auto simp: bit_simps dest: bit_imp_le_length)
  then show "encode_char 0 temp = encodeLookup ! unat (sextet 18 temp)" "encode_char (Suc 0) temp = encodeLookup ! unat (sextet 12 temp)"
    "encode_char 2 temp = encodeLookup ! unat (sextet 6 temp)" "encode_char 3 temp = encodeLookup ! unat (sextet 0 temp)"
    by (simp_all add: encode_char_def sextet_def masks)
qed

lemma char_value_sextet: "char_value (encodeLookup ! unat (sextet k temp)) = Some (unat (sextet k temp))"
proof -
  have "sextet k temp \<le> mask 6" unfolding sextet_def by (rule word_and_le1)
  then have "unat (sextet k temp) < 64" by (simp add: word_le_nat_alt masks(1) [symmetric])
  then show ?thesis by (rule char_value_lookup)
qed

lemma of_nat_sextet: "(of_nat (unat (sextet k temp)) :: 32 word) = ucast (sextet k temp)"
  by (simp add: unsigned_of_nat word_unat_eq_iff)

lemma bytes_of_temp:
  fixes a b c :: "8 word"
  shows "(push_bit 16 (ucast a) OR push_bit 8 (ucast b)) + (ucast c :: 64 word) = push_bit 16 (ucast a) OR push_bit 8 (ucast b) OR ucast c"
    and "push_bit 16 (ucast a) + (push_bit 8 (ucast b) :: 64 word) = push_bit 16 (ucast a) OR push_bit 8 (ucast b)"
proof -
  have "push_bit 16 (ucast a) AND (push_bit 8 (ucast b) :: 64 word) = 0"
    by (rule bit_eqI) (auto simp: bit_simps dest!: bit_imp_le_length)
  then show "push_bit 16 (ucast a) + (push_bit 8 (ucast b) :: 64 word) = push_bit 16 (ucast a) OR push_bit 8 (ucast b)"
    by (rule disjunctive_add_eq_or)
  have "(push_bit 16 (ucast a) OR push_bit 8 (ucast b)) AND (ucast c :: 64 word) = 0"
    by (rule bit_eqI) (auto simp: bit_simps dest!: bit_imp_le_length)
  then show "(push_bit 16 (ucast a) OR push_bit 8 (ucast b)) + (ucast c :: 64 word) = push_bit 16 (ucast a) OR push_bit 8 (ucast b) OR ucast c"
    by (simp add: disjunctive_add_eq_or or.assoc)
qed

text \<open>What the shifts of the decoder leave of a group, whatever was in \<open>temp\<close> before.\<close>

definition shift_in :: "64 word \<Rightarrow> nat \<Rightarrow> 32 word \<Rightarrow> 32 word" where
  "shift_in temp k t = push_bit 6 t OR ucast (sextet k temp)"

lemma bit_shift_in: "n < 32 \<Longrightarrow> bit (shift_in temp k t) n = (if n < 6 then bit temp (k + n) else bit t (n - 6))"
  by (auto simp: shift_in_def sextet_def bit_simps)

definition shifted :: "64 word \<Rightarrow> nat list \<Rightarrow> 32 word \<Rightarrow> 32 word" where
  "shifted temp ks = fold (shift_in temp) ks"

lemma bit_shifted:
  assumes "n < 24"
  shows "bit (shifted temp [18, 12, 6, 0] t) n = bit temp n"
proof -
  consider "n < 6" | m where "n = m + 6" "m < 6" | m where "n = m + 12" "m < 6" | m where "n = m + 18" "m < 6"
    using assms that(2) [of "n - 6"] that(3) [of "n - 12"] that(4) [of "n - 18"] by linarith
  then show ?thesis
    by cases (simp_all add: shifted_def bit_shift_in add.commute)
qed

lemma bit_shifted_padded:
  "6 \<le> n \<Longrightarrow> n < 24 \<Longrightarrow> bit (push_bit 6 (shifted temp [18, 12, 6] t)) n = bit temp n"
  "6 \<le> n \<Longrightarrow> n < 18 \<Longrightarrow> bit (push_bit 6 (shifted temp [18, 12] t)) n = bit temp (n + 6)"
proof -
  show "bit (push_bit 6 (shifted temp [18, 12, 6] t)) n = bit temp n" if "6 \<le> n" "n < 24"
  proof -
    consider m where "n = m + 6" "m < 6" | m where "n = m + 12" "m < 6" | m where "n = m + 18" "m < 6"
      using \<open>6 \<le> n\<close> \<open>n < 24\<close> that(1) [of "n - 6"] that(2) [of "n - 12"] that(3) [of "n - 18"] by linarith
    then show ?thesis by cases (simp_all add: shifted_def bit_shift_in bit_push_bit_iff add.commute)
  qed
  show "bit (push_bit 6 (shifted temp [18, 12] t)) n = bit temp (n + 6)" if "6 \<le> n" "n < 18"
  proof -
    consider m where "n = m + 6" "m < 6" | m where "n = m + 12" "m < 6"
      using \<open>6 \<le> n\<close> \<open>n < 18\<close> that(1) [of "n - 6"] that(2) [of "n - 12"] by linarith
    then show ?thesis by cases (simp_all add: shifted_def bit_shift_in bit_push_bit_iff add.commute)
  qed
qed

lemma bit_byte_at: "bit (byte_at k temp) n \<longleftrightarrow> n < 8 \<and> bit temp (k + n)"
  unfolding byte_at_def masks by (auto simp: bit_simps dest: bit_imp_le_length)

lemma shifted_bytes:
  fixes a b c :: "8 word"
  defines "temp \<equiv> push_bit 16 (ucast a) OR push_bit 8 (ucast b) OR ucast c :: 64 word"
  shows "byte_at 16 (shifted temp [18, 12, 6, 0] t) = a" "byte_at 8 (shifted temp [18, 12, 6, 0] t) = b"
    "byte_at 0 (shifted temp [18, 12, 6, 0] t) = c"
proof -
  have "bit temp (16 + n) = bit a n" "bit temp (8 + n) = bit b n" "bit temp n = bit c n" if "n < 8" for n
    using that by (auto simp: temp_def bit_simps dest: bit_imp_le_length)
  then show "byte_at 16 (shifted temp [18, 12, 6, 0] t) = a" "byte_at 8 (shifted temp [18, 12, 6, 0] t) = b"
    "byte_at 0 (shifted temp [18, 12, 6, 0] t) = c"
    by (intro bit_eqI; simp add: bit_byte_at bit_shifted)+
qed

lemma char_value_pad: "char_value padCharacter = None"
  by code_simp

lemma decode_char:
  "decode_loop q t d (encodeLookup ! unat (sextet k temp) # cursor) =
     (let t' = shift_in temp k t
      in if q < 3 then decode_loop (q + 1) t' d cursor else decode_loop 0 t' (d @ [byte_at 16 t', byte_at 8 t', byte_at 0 t']) cursor)"
  by (simp add: char_value_sextet of_nat_sextet shift_in_def Let_def)

lemma decode_pad:
  "decode_loop q t d [padCharacter] = Inr (d @ [byte_at 16 (push_bit 6 t), byte_at 8 (push_bit 6 t)])"
  "decode_loop q t d [padCharacter, padCharacter] = Inr (d @ [byte_at 10 (push_bit 6 t)])"
  by (simp_all add: char_value_pad Let_def)

declare decode_loop.simps(2) [simp del]

lemma padded_bytes:
  fixes a b :: "8 word"
  shows "byte_at 16 (push_bit 6 (shifted (push_bit 16 (ucast a) OR push_bit 8 (ucast b)) [18, 12, 6] t)) = a"
    and "byte_at 8 (push_bit 6 (shifted (push_bit 16 (ucast a) OR push_bit 8 (ucast b)) [18, 12, 6] t)) = b"
    and "byte_at 10 (push_bit 6 (shifted (push_bit 16 (ucast a)) [18, 12] t)) = a"
proof -
  have two: "bit (push_bit 16 (ucast a) OR push_bit 8 (ucast b) :: 64 word) (16 + n) = bit a n"
      "bit (push_bit 16 (ucast a) OR push_bit 8 (ucast b) :: 64 word) (8 + n) = bit b n" if "n < 8" for n
    using that by (auto simp: bit_simps dest: bit_imp_le_length)
  have one: "bit (push_bit 16 (ucast a) :: 64 word) (16 + n) = bit a n" if "n < 8" for n
    using that by (auto simp: bit_simps)
  show "byte_at 16 (push_bit 6 (shifted (push_bit 16 (ucast a) OR push_bit 8 (ucast b)) [18, 12, 6] t)) = a"
    by (rule bit_eqI) (simp add: bit_byte_at bit_shifted_padded(1) two(1) del: bit_or_iff)
  show "byte_at 8 (push_bit 6 (shifted (push_bit 16 (ucast a) OR push_bit 8 (ucast b)) [18, 12, 6] t)) = b"
    by (rule bit_eqI) (simp add: bit_byte_at bit_shifted_padded(1) two(2) del: bit_or_iff)
  show "byte_at 10 (push_bit 6 (shifted (push_bit 16 (ucast a)) [18, 12] t)) = a"
    by (rule bit_eqI) (simp add: bit_byte_at bit_shifted_padded(2) one)
qed

lemma decode_encode_loop: "decode_loop 0 t d (encode_groups bs) = Inr (d @ bs)"
proof (induction bs arbitrary: t d rule: encode_groups.induct)
  case (1 a b c rest)
  then show ?case using shifted_bytes [of a b c t]
    by (simp add: encode_char_sextet decode_char bytes_of_temp Let_def shifted_def)
next
  case (2 a b)
  then show ?case using padded_bytes(1,2) [of a b t]
    by (simp add: encode_char_sextet decode_char decode_pad bytes_of_temp Let_def shifted_def)
next
  case (3 a)
  then show ?case using padded_bytes(3) [of a t]
    by (simp add: encode_char_sextet decode_char decode_pad Let_def shifted_def)
qed simp

lemma length_encode: "length (encode_groups bs) mod 4 = 0"
  by (induction bs rule: encode_groups.induct) (simp_all add: Let_def mod_Suc)

text \<open>
  C18: Decoding gives back what was encoded, for all data whose encoding has less than \<open>2 ^ 31\<close> characters, which is the range
  in which the size computed by \<^const>\<open>encode\<close> does not overflow: the padding is right for every length, and the bits that
  \<open>temp\<close> keeps of earlier groups do no harm.
\<close>

theorem decode_encode:
  assumes "4 * ((length bs + 2) div 3) < 2 ^ 31"
  shows "\<exists>e. encode bs = Some e \<and> decode e = Inr bs"
proof -
  have "length bs div 3 + (if length bs mod 3 > 0 then 1 else 0) = (length bs + 2) div 3" by presburger
  then have "encode bs = Some (encode_groups bs)" using assms by (simp add: encode_def Let_def mult.commute)
  then show ?thesis using length_encode [of bs] decode_encode_loop [of 0 "[]" bs] by (simp add: decode_def)
qed

theorem decode_encode_witness: "\<exists>e. encode [1, 2, 3, 4] = Some e \<and> decode e = Inr [1, 2, 3, 4]"
  by (rule decode_encode) simp

end
