(* ===== verification/Dmrpp_Load.thy ===== *)
theory Dmrpp_Load
  imports Dmrpp_Var Dmrpp_Base64 "HOL-Library.Log_Nat"
begin

text \<open>
  \<^verbatim>\<open>modules/dmrpp_module/DMZ.cc\<close>, the part that loads the chunks of a variable from the DMR++ document, with
  \<^verbatim>\<open>DmrppCommon.cc\<close> and \<^verbatim>\<open>DmrppChunkOdometer.h\<close>.  The document is a tree, as pugixml gives it; \<open>child_value\<close> is the text of a
  node.  Chunks that only have fill values are not in the document; they are added here.
\<close>

datatype xml_node = Xml_node (node_name: string) (node_attributes: "(string \<times> string) list") (child_value: string) (node_children: "xml_node list")

record dmrpp_common = dmrpp_variable +
  d_is_array :: bool
  d_byte_order :: string
  d_chunks_loaded :: bool
  d_uses_fill_value :: bool
  d_fill_value_str :: string
  d_fill_value_type :: dods_type
  d_compact :: bool

record dmz =
  emulate_original_filter_order_behavior :: bool
  require_chunks :: bool
  is_host_big_endian :: bool
  dataset_elem_href :: "string option"

type_synonym 'a loading = "(failure, dmrpp_common, 'a) eact"

subsection \<open>The attributes\<close>

definition set_filter :: "dmz \<Rightarrow> string \<Rightarrow> unit loading" where
  "set_filter z value =
     act_modify (\<lambda>dc. dc\<lparr>v_filters :=
       if emulate_original_filter_order_behavior z then
         removeLeadingAndTrailingBlanks
           ((if str_find value ''shuffle'' 0 \<noteq> None then '' shuffle'' else [])
            @ (if str_find value ''deflate'' 0 \<noteq> None then '' deflate'' else [])
            @ (if str_find value ''fletcher32'' 0 \<noteq> None then '' fletcher32'' else []))
       else value\<rparr>)"

definition ingest_byte_order :: "dmz \<Rightarrow> string \<Rightarrow> unit loading" where
  "ingest_byte_order z byte_order_string =
     (if byte_order_string = [] then act_return ()
      else if byte_order_string = ''LE'' then act_modify (\<lambda>dc. dc\<lparr>d_byte_order := ''LE'', v_twiddle_bytes := is_host_big_endian z\<rparr>)
      else if byte_order_string = ''BE'' then act_modify (\<lambda>dc. dc\<lparr>d_byte_order := ''BE'', v_twiddle_bytes := \<not> is_host_big_endian z\<rparr>)
      else throw_bes (BESInternalError ''Did not recognize byteOrder.''))"

definition add_fill_value_information :: "string \<Rightarrow> unit loading" where
  "add_fill_value_information value_string =
     act_modify (\<lambda>dc. dc\<lparr>d_fill_value_str := value_string, d_fill_value_type := v_type dc, d_uses_fill_value := True\<rparr>)"

function space_pieces :: "string \<Rightarrow> string list" where
  "space_pieces s =
     (case str_find_char s (CHR '' '') 0 of
        None \<Rightarrow> [s]
      | Some pos \<Rightarrow> take pos s # space_pieces (drop (pos + 1) s))"
  by pat_completeness auto
termination
proof (relation "measure length", goal_cases)
  case 1
  show ?case by simp
next
  case (2 s pos)
  have "pos < length s"
    using find_first_of_SomeD [of s "[CHR '' '']" 0 pos] 2 by (simp add: str_find_char_def find_first_of_def)
  then show ?case by simp
qed

declare space_pieces.simps [simp del]

definition parse_chunk_dimension_sizes :: "string \<Rightarrow> unit loading" where
  "parse_chunk_dimension_sizes chunk_dims =
     act_then (act_modify (\<lambda>dc. dc\<lparr>chunk_dimension_sizes := []\<rparr>))
       (if chunk_dims = [] then act_return ()
        else if find_first_not_of chunk_dims ''1234567890 '' 0 \<noteq> None then
          throw_bes (BESInternalError ''while processing chunk dimension information, illegal character(s)'')
        else act_modify (\<lambda>dc. dc\<lparr>chunk_dimension_sizes := map (\<lambda>p. nat (fst (strtol p))) (space_pieces chunk_dims)\<rparr>))"

definition children_named :: "string \<Rightarrow> xml_node \<Rightarrow> xml_node list" where
  "children_named name node = filter (\<lambda>n. node_name n = name) (node_children node)"

definition process_cds_node :: "xml_node \<Rightarrow> unit loading" where
  "process_cds_node chunks = act_each (\<lambda>n. parse_chunk_dimension_sizes (child_value n)) (children_named ''dmrpp:chunkDimensionSizes'' chunks)"

subsection \<open>One chunk\<close>

record chunk_attributes =
  at_href :: string
  at_offset :: string
  at_size :: string
  at_position :: string

definition read_attribute :: "string \<times> string \<Rightarrow> chunk_attributes \<Rightarrow> chunk_attributes" where
  "read_attribute nv a =
     (case nv of (name, value) \<Rightarrow>
        if name = ''href'' then a\<lparr>at_href := value\<rparr>
        else if name = ''offset'' then a\<lparr>at_offset := value\<rparr>
        else if name = ''nBytes'' then a\<lparr>at_size := value\<rparr>
        else if name = ''chunkPositionInArray'' then a\<lparr>at_position := value\<rparr>
        else a)"

definition push_chunk :: "chunk \<Rightarrow> unit loading" where
  "push_chunk c = act_modify (\<lambda>dc. dc\<lparr>v_chunks := v_chunks dc @ [c]\<rparr>)"

text \<open>
  Whether a URL is to be trusted does not matter for reading.  C++ leaves open which of the two numbers is converted first; here
  it is the size.
\<close>

definition process_chunk :: "dmz \<Rightarrow> xml_node \<Rightarrow> unit loading" where
  "process_chunk z chunk =
     (let a = fold read_attribute (node_attributes chunk) \<lparr>at_href = [], at_offset = [], at_size = [], at_position = []\<rparr>
      in if at_offset a = [] \<or> at_size a = [] then throw_bes (BESInternalError ''Both size and offset are required for a chunk node.'')
         else
           act_bind (act_gets d_byte_order) (\<lambda>byte_order.
           act_bind (act_result (stoull (at_size a))) (\<lambda>sz.
           act_bind (act_result (stoull (at_offset a))) (\<lambda>offset.
           act_bind (act_result (parse_chunk_position_in_array_string (at_position a) [])) (\<lambda>pia.
             push_chunk (new_chunk (if at_href a \<noteq> [] then Some (at_href a) else dataset_elem_href z) byte_order sz offset pia))))))"

definition process_attribute :: "dmz \<Rightarrow> string \<times> string \<Rightarrow> unit loading" where
  "process_attribute z nv =
     (case nv of (name, value) \<Rightarrow>
        if name = ''compressionType'' then set_filter z value
        else if name = ''fillValue'' then
          act_bind (act_gets d_is_array) (\<lambda>array.
            if \<not> array then throw_bes (BESInternalError ''Fill Value chunks are only supported for Arrays.'')
            else add_fill_value_information value)
        else if name = ''byteOrder'' then ingest_byte_order z value
        else act_return ())"

definition process_chunks :: "dmz \<Rightarrow> xml_node \<Rightarrow> unit loading" where
  "process_chunks z chunks =
     act_then (act_each (process_attribute z) (node_attributes chunks))
    (act_then (process_cds_node chunks)
       (act_each (process_chunk z) (children_named ''dmrpp:chunk'' chunks)))"

subsection \<open>The number of chunks\<close>

text \<open>
  The number of chunks in a dimension is the ceiling of a quotient of two \<^verbatim>\<open>float\<close>s.  A fraction is rounded to the nearest
  number with 24 binary digits, to the even one of two that are equally near.
\<close>

definition round_div :: "nat \<Rightarrow> nat \<Rightarrow> nat" where
  "round_div n d = (let q = n div d; r = n mod d in if 2 * r < d \<or> 2 * r = d \<and> even q then q else q + 1)"

definition float_of_size :: "nat \<Rightarrow> nat" where
  "float_of_size a = (let k = floorlog 2 a - 24 in round_div a (2 ^ k) * 2 ^ k)"

text \<open>The quotient is scaled by \<open>2 ^ 88\<close>, which makes it at least \<open>2 ^ 24\<close>.\<close>

definition ceil_float_quotient :: "nat \<Rightarrow> nat \<Rightarrow> nat" where
  "ceil_float_quotient a c =
     (let n = a * 2 ^ 88; k = floorlog 2 (n div c) - 24
      in (round_div n (c * 2 ^ k) * 2 ^ k + (2 ^ 88 - 1)) div 2 ^ 88)"

fun chunk_count :: "nat list \<Rightarrow> nat list \<Rightarrow> nat \<Rightarrow> nat option" where
  "chunk_count (a # array) (c # chunk) num =
     (if c = 0 then None else chunk_count array chunk (u64 (num * ceil_float_quotient (float_of_size a) (float_of_size c))))"
| "chunk_count _ _ num = Some num"

definition logical_chunks :: "nat list \<Rightarrow> nat list \<Rightarrow> nat ub_result" where
  "logical_chunks array_dim_sizes chunk_dim_sizes =
     (if length chunk_dim_sizes \<noteq> length array_dim_sizes then Some (Inl (BESInternalError ''Expected the chunk and array rank to match''))
      else map_option Inr (chunk_count array_dim_sizes chunk_dim_sizes 1))"

subsection \<open>The chunks with fill values\<close>

text \<open>
  One step of the odometer, on reversed lists; the array and the step in each dimension, then the indices, and whether there
  was a next position.
\<close>

fun odometer_next :: "nat list \<Rightarrow> nat list \<Rightarrow> nat list \<Rightarrow> nat list \<times> bool" where
  "odometer_next (s # ss) (a # as) (i # is) =
     (if u64 (i + a) \<ge> s then (case odometer_next ss as is of (is', status) \<Rightarrow> (0 # is', status)) else (u64 (i + a) # is, True))"
| "odometer_next _ _ is = (is, False)"

text \<open>All positions from the current one on.  With a step of zero the loop does not end.\<close>

partial_function (option) odometer_walk :: "nat list \<Rightarrow> nat list \<Rightarrow> nat list \<Rightarrow> nat list list option" where
  "odometer_walk ss as is =
     (case odometer_next ss as is of (is', status) \<Rightarrow>
        if status then Option.bind (odometer_walk ss as is') (\<lambda>ps. Some (is # ps)) else Some [is])"

definition all_positions :: "nat list \<Rightarrow> nat list \<Rightarrow> nat list list option" where
  "all_positions array_shape chunk_shape =
     map_option (map rev) (odometer_walk (rev array_shape) (rev chunk_shape) (replicate (length array_shape) 0))"

definition process_fill_value_chunks :: "nat list set \<Rightarrow> nat list \<Rightarrow> nat list \<Rightarrow> nat \<Rightarrow> unit loading" where
  "process_fill_value_chunks chunk_map chunk_shape array_shape chunk_size =
     act_bind (act_option (all_positions array_shape chunk_shape)) (\<lambda>ps.
       act_each (\<lambda>s.
         if s \<in> chunk_map then act_return ()
         else act_bind (act_gets id) (\<lambda>dc.
           push_chunk (new_fill_chunk (d_byte_order dc) (d_fill_value_str dc) (d_fill_value_type dc) chunk_size s))) ps)"

subsection \<open>Loading\<close>

definition get_array_dims :: "dmrpp_common \<Rightarrow> nat list" where
  "get_array_dims dc = map (\<lambda>d. dimension_size d False) (array_dims dc)"

definition get_chunk_map :: "chunk list \<Rightarrow> nat list set" where
  "get_chunk_map chunks = c_position ` set chunks"

text \<open>What is done after the chunks of the document are known.\<close>

definition complete_chunks :: "unit loading" where
  "complete_chunks =
     act_bind (act_gets id) (\<lambda>dc.
       if d_is_array dc \<and> chunk_dimension_sizes dc \<noteq> [] then
         act_bind (act_ub (logical_chunks (get_array_dims dc) (chunk_dimension_sizes dc))) (\<lambda>num_logical_chunks.
           if num_logical_chunks \<noteq> length (v_chunks dc) then
             process_fill_value_chunks (get_chunk_map (v_chunks dc)) (chunk_dimension_sizes dc) (get_array_dims dc)
               (fold (\<lambda>n m. u64 (m * n)) (chunk_dimension_sizes dc) (elem_width dc))
           else act_return ())
       else if d_is_array dc \<and> v_chunks dc = [] then
         push_chunk (new_fill_chunk (d_byte_order dc) (d_fill_value_str dc) (d_fill_value_type dc)
           (u64 (fold (\<lambda>n m. u64 (m * n)) (get_array_dims dc) 1 * elem_width dc)) [])
       else act_return ())"

text \<open>
  The values of a small variable.  \<^verbatim>\<open>val2buf\<close> of libdap copies as many bytes as the array has, whether or not they are there.
\<close>

definition process_compact :: "xml_node \<Rightarrow> unit loading" where
  "process_compact node =
     act_then (act_modify (\<lambda>dc. dc\<lparr>d_compact := True\<rparr>))
    (case decode (child_value node) of
       Inl e \<Rightarrow> throw_bes e
     | Inr decoded \<Rightarrow>
         act_bind (act_gets id) (\<lambda>dc.
           if \<not> d_is_array dc then throw_bes (BESInternalError ''The dmrpp::compact element must be the child of an array variable'')
           else if v_type dc = dods_null_c then throw_bes (BESInternalError ''Unsupported COMPACT storage variable type in the drmpp handler.'')
           else if v_type dc \<in> {dods_str_c, dods_url_c} then act_modify (\<lambda>dc. dc\<lparr>v_values := decoded, v_read_p := True\<rparr>)
           else
             let n = get_size (dmrpp_array.truncate dc) True * elem_width dc
             in if length decoded < n then act_throw Undefined
                else act_modify (\<lambda>dc. dc\<lparr>v_values := take n decoded, v_read_p := True\<rparr>)))"

definition first_named :: "string \<Rightarrow> xml_node \<Rightarrow> xml_node option" where
  "first_named name node = find (\<lambda>n. node_name n = name) (node_children node)"

definition load_chunks :: "dmz \<Rightarrow> xml_node option \<Rightarrow> unit loading" where
  "load_chunks z var_node =
     act_bind (act_gets d_chunks_loaded) (\<lambda>loaded.
       if loaded then act_return ()
       else
         case var_node of
           None \<Rightarrow> throw_bes (BESInternalError ''Could not find location of variable in the DMR++ XML document.'')
         | Some node \<Rightarrow>
             let chunks = first_named ''dmrpp:chunks'' node;
                 chunk = first_named ''dmrpp:chunk'' node;
                 comp = first_named ''dmrpp:compact'' node;
                 elements_found = length (filter (\<lambda>n. n \<noteq> None) [chunks, chunk, comp])
             in act_then (case chunks of None \<Rightarrow> act_return () | Some n \<Rightarrow> act_then (process_chunks z n) complete_chunks)
               (act_then (case chunk of None \<Rightarrow> act_return () | Some n \<Rightarrow> process_chunk z n)
               (act_then (case comp of None \<Rightarrow> act_return () | Some n \<Rightarrow> process_compact n)
               (act_then
                 (if require_chunks z \<and> elements_found \<noteq> 1
                  then throw_bes (BESInternalError ''Expected chunk, chunks or compact information in the DMR++ data.'')
                  else act_return ())
                 (act_modify (\<lambda>dc. dc\<lparr>d_chunks_loaded := True\<rparr>))))))"

end
