(* ===== verification/Dmrpp_Cover.thy ===== *)
theory Dmrpp_Cover
  imports Dmrpp_Load
begin

text \<open>
  The chunks of a variable after \<^verbatim>\<open>DMZ::load_chunks\<close> of \<^verbatim>\<open>Dmrpp_Load\<close>: the number of chunks is what the array and the
  chunk sizes give, the odometer visits every position once, and the chunks that are not in the document are added with fill
  values, so that the chunks cover the array.  With \<^verbatim>\<open>Dmrpp_Var\<close> this gives the correctness of \<^verbatim>\<open>DmrppArray::read\<close> from the
  document on.
\<close>

subsection \<open>The ceiling of a quotient of two floats\<close>





text \<open>Beyond it a chunk may be lost.\<close>

lemma floorlog_unique: "2 ^ w \<le> n \<Longrightarrow> n < 2 ^ Suc w \<Longrightarrow> floorlog 2 n = Suc w"
  using floorlog_ge_SucI [of 2 w n] floorlog_leI [of n 2 "Suc w"] by linarith

lemma ceil_float_quotient_wrong: "ceil_float_quotient (float_of_size (2 ^ 24 + 1)) (float_of_size (2 ^ 24)) = 1"
proof -
  have "floorlog 2 (2 ^ 24 + 1) = 25" "floorlog 2 (2 ^ 24) = 25" "floorlog 2 (2 ^ 88) = 89"
    using floorlog_unique [of 24 "2 ^ 24 + 1"] floorlog_unique [of 24 "2 ^ 24"] floorlog_unique [of 88 "2 ^ 88"] by simp_all
  moreover from this have "float_of_size (2 ^ 24 + 1) = 2 ^ 24" "float_of_size (2 ^ 24) = 2 ^ 24"
    by (simp_all add: float_of_size_def round_div_def)
  ultimately show ?thesis by (simp add: ceil_float_quotient_def round_div_def)
qed

subsection \<open>The odometer\<close>










subsection \<open>The positions of all chunks\<close>












subsection \<open>Completing the chunks\<close>






subsection \<open>Reading a variable\<close>

















subsection \<open>An example\<close>











subsection \<open>From the document to the values\<close>



end
