(* ===== verification/Dmrpp_Threads.thy ===== *)
theory Dmrpp_Threads
  imports Bes_Prelude "HOL-Library.Word" "HOL-Library.Multiset"
begin

text \<open>
  The thread pools of the DMR++ module: \<^verbatim>\<open>get_next_future\<close> and the loops of \<^verbatim>\<open>modules/dmrpp_module/DmrppArray.cc\<close> and
  \<^verbatim>\<open>SuperChunk.cc\<close> that start threads with \<^verbatim>\<open>std::async\<close>.  There are two pools, one for transfers and one for computations, each
  with a counter that all loops share.  A state has the counter and all loops that have ever been entered; steps of the loops
  and of the threads interleave.
\<close>

subsection \<open>The state\<close>

text \<open>\<open>Ready None\<close> is a thread that threw an exception.\<close>

datatype thread_future = Invalid | Running | Ready "bool option"

text \<open>
  Where a loop is: at the call of \<^verbatim>\<open>get_next_future\<close>, at the test whether the queue is empty, in the loop that starts threads,
  in the catch clause, and after the end.
\<close>

datatype loop_phase = Waiting | Choosing | Starting | Draining | Finished | Failed

text \<open>Two of the fields are history: all chunks of the loop, and those whose thread has been joined.\<close>

record 'a pool_loop =
  lp_queue :: "'a list"
  lp_futures :: "('a \<times> thread_future) list"
  lp_phase :: loop_phase
  lp_tasks :: "'a list"
  lp_joined :: "'a list"

record 'a thread_pool =
  thread_counter :: "32 word"
  pool_loops :: "'a pool_loop list"

text \<open>
  \<open>counts_first\<close>: whether the counter is incremented before \<^verbatim>\<open>std::async\<close> is called.  \<open>one_at_a_time\<close>: whether a loop is entered
  only after the others have ended, as for transfers.  \<open>async_may_fail\<close>: whether the system may refuse to start a thread.
\<close>

record pool_config =
  max_threads :: "32 word"
  counts_first :: bool
  one_at_a_time :: bool
  async_may_fail :: bool

type_synonym 'a loop_view = "32 word \<times> 'a pool_loop"

definition new_loop :: "'a list \<Rightarrow> 'a pool_loop" where
  "new_loop q = \<lparr>lp_queue = q, lp_futures = [], lp_phase = Waiting, lp_tasks = q, lp_joined = []\<rparr>"

subsection \<open>The operations\<close>

definition all_ready :: "'a pool_loop \<Rightarrow> bool" where
  "all_ready l \<longleftrightarrow> list_all (\<lambda>f. snd f \<noteq> Running) (lp_futures l)"

text \<open>
  \<^verbatim>\<open>get_next_future\<close> when its scan comes to the future \<open>j\<close>; \<^const>\<open>None\<close> when it goes on.  Clearing the list of futures waits for
  the threads that are still running.
\<close>

definition get_next_future :: "nat \<Rightarrow> 'a loop_view \<Rightarrow> 'a loop_view option" where
  "get_next_future j v =
     (case v of (c, l) \<Rightarrow>
        let rest = take j (lp_futures l) @ drop (Suc j) (lp_futures l)
        in case lp_futures l ! j of
             (_, Running) \<Rightarrow> None
           | (_, Invalid) \<Rightarrow> Some (c - 1, l\<lparr>lp_futures := rest, lp_phase := Choosing\<rparr>)
           | (t, Ready r) \<Rightarrow>
               if r = Some True then Some (c - 1, l\<lparr>lp_futures := rest, lp_phase := Choosing, lp_joined := lp_joined l @ [t]\<rparr>)
               else if all_ready l then Some (0, l\<lparr>lp_futures := [], lp_phase := Failed\<rparr>)
               else None)"

text \<open>After \<^verbatim>\<open>get_next_future\<close>: start threads, end, or wait again.\<close>

definition choose_next :: "'a pool_loop \<Rightarrow> 'a pool_loop" where
  "choose_next l = l\<lparr>lp_phase := if lp_queue l \<noteq> [] then Starting else if lp_futures l = [] then Finished else Waiting\<rparr>"

text \<open>One turn of the loop that starts threads, with a chunk in the queue.\<close>

definition start_thread :: "pool_config \<Rightarrow> 'a loop_view \<Rightarrow> 'a loop_view" where
  "start_thread cfg v =
     (case v of (c, l) \<Rightarrow>
        if c < max_threads cfg
        then (c + 1, l\<lparr>lp_queue := tl (lp_queue l), lp_futures := lp_futures l @ [(hd (lp_queue l), Running)]\<rparr>)
        else (c, l\<lparr>lp_phase := Waiting\<rparr>))"

text \<open>The same when \<^verbatim>\<open>std::async\<close> throws.\<close>

definition start_fails :: "pool_config \<Rightarrow> 'a loop_view \<Rightarrow> 'a loop_view" where
  "start_fails cfg v = (case v of (c, l) \<Rightarrow> (if counts_first cfg then c + 1 else c, l\<lparr>lp_phase := Draining\<rparr>))"

text \<open>The catch clause: it waits for all threads and does not touch the counter.\<close>

definition drain :: "'a pool_loop \<Rightarrow> 'a pool_loop" where
  "drain l = l\<lparr>lp_futures := [], lp_phase := Failed\<rparr>"

definition thread_ends :: "nat \<Rightarrow> bool option \<Rightarrow> 'a pool_loop \<Rightarrow> 'a pool_loop" where
  "thread_ends j r l = l\<lparr>lp_futures := (lp_futures l)[j := (fst (lp_futures l ! j), Ready r)]\<rparr>"

subsection \<open>Steps\<close>

inductive loop_step :: "pool_config \<Rightarrow> 'a loop_view \<Rightarrow> 'a loop_view \<Rightarrow> bool" for cfg where
  no_future: "lp_phase l = Waiting \<Longrightarrow> lp_futures l = [] \<Longrightarrow> loop_step cfg (c, l) (c, l\<lparr>lp_phase := Choosing\<rparr>)"
| next_future: "lp_phase l = Waiting \<Longrightarrow> j < length (lp_futures l) \<Longrightarrow> get_next_future j (c, l) = Some v \<Longrightarrow> loop_step cfg (c, l) v"
| choose: "lp_phase l = Choosing \<Longrightarrow> loop_step cfg (c, l) (c, choose_next l)"
| start: "lp_phase l = Starting \<Longrightarrow> lp_queue l \<noteq> [] \<Longrightarrow> loop_step cfg (c, l) (start_thread cfg (c, l))"
| no_more: "lp_phase l = Starting \<Longrightarrow> lp_queue l = [] \<Longrightarrow> loop_step cfg (c, l) (c, l\<lparr>lp_phase := Waiting\<rparr>)"
| start_refused: "async_may_fail cfg \<Longrightarrow> lp_phase l = Starting \<Longrightarrow> lp_queue l \<noteq> [] \<Longrightarrow> c < max_threads cfg \<Longrightarrow>
    loop_step cfg (c, l) (start_fails cfg (c, l))"
| drained: "lp_phase l = Draining \<Longrightarrow> all_ready l \<Longrightarrow> loop_step cfg (c, l) (c, drain l)"
| ends: "j < length (lp_futures l) \<Longrightarrow> snd (lp_futures l ! j) = Running \<Longrightarrow> loop_step cfg (c, l) (c, thread_ends j r l)"

definition ended :: "'a pool_loop \<Rightarrow> bool" where
  "ended l \<longleftrightarrow> lp_phase l = Finished \<or> lp_phase l = Failed"

definition set_loop :: "'a thread_pool \<Rightarrow> nat \<Rightarrow> 'a loop_view \<Rightarrow> 'a thread_pool" where
  "set_loop p i v = \<lparr>thread_counter = fst v, pool_loops = (pool_loops p)[i := snd v]\<rparr>"

inductive pool_step :: "pool_config \<Rightarrow> 'a thread_pool \<Rightarrow> 'a thread_pool \<Rightarrow> bool" for cfg where
  enter: "one_at_a_time cfg \<longrightarrow> list_all ended (pool_loops p) \<Longrightarrow> pool_step cfg p (p\<lparr>pool_loops := pool_loops p @ [new_loop q]\<rparr>)"
| go: "i < length (pool_loops p) \<Longrightarrow> loop_step cfg (thread_counter p, pool_loops p ! i) v \<Longrightarrow> pool_step cfg p (set_loop p i v)"

definition start_pool :: "'a thread_pool" where
  "start_pool = \<lparr>thread_counter = 0, pool_loops = []\<rparr>"

abbreviation pool_run :: "pool_config \<Rightarrow> 'a thread_pool \<Rightarrow> 'a thread_pool \<Rightarrow> bool" where
  "pool_run cfg \<equiv> (pool_step cfg)\<^sup>*\<^sup>*"

subsection \<open>What a loop keeps\<close>

definition loop_ok :: "'a pool_loop \<Rightarrow> bool" where
  "loop_ok l \<longleftrightarrow> (ended l \<longrightarrow> lp_futures l = []) \<and> (lp_phase l = Finished \<longrightarrow> lp_queue l = [])
     \<and> (\<forall>f \<in> set (lp_futures l). snd f \<noteq> Invalid)
     \<and> (lp_phase l \<noteq> Failed \<longrightarrow> mset (lp_tasks l) = mset (lp_joined l) + mset (map fst (lp_futures l)) + mset (lp_queue l))"

lemma new_loop_ok: "loop_ok (new_loop q)"
  by (simp add: loop_ok_def new_loop_def ended_def)

lemma mset_hd_tl: "xs \<noteq> [] \<Longrightarrow> add_mset (hd xs) (mset (tl xs)) = mset xs"
  by (cases xs) simp_all

lemma mset_without: "j < length xs \<Longrightarrow> add_mset (xs ! j) (mset (take j xs @ drop (Suc j) xs)) = mset xs"
  by (subst (3) id_take_nth_drop) simp_all

lemma get_next_future_ok:
  assumes "get_next_future j (c, l) = Some (c', l')" and "loop_ok l" and "lp_phase l = Waiting" and j: "j < length (lp_futures l)"
  shows "loop_ok l'"
proof -
  let ?fs = "lp_futures l" and ?rest = "take j (lp_futures l) @ drop (Suc j) (lp_futures l)"
  obtain t f where f: "?fs ! j = (t, f)" by fastforce
  have "(t, f) \<in> set ?fs" using f nth_mem [OF j] by simp
  then have "f \<noteq> Invalid" using assms(2) by (force simp: loop_ok_def)
  have sub: "\<forall>f \<in> set ?rest. snd f \<noteq> Invalid" using assms(2) by (auto simp: loop_ok_def dest: in_set_takeD in_set_dropD)
  have "add_mset t (mset (map fst ?rest)) = mset (map fst ?fs)"
    using arg_cong [OF mset_without [OF j], of "image_mset fst"] f by simp
  then show ?thesis
    using assms(1-3) f \<open>f \<noteq> Invalid\<close> sub
    by (auto simp: get_next_future_def loop_ok_def ended_def Let_def split: thread_future.splits if_splits)
qed

lemma thread_ends_fst: "map fst (lp_futures (thread_ends j r l)) = map fst (lp_futures l)"
  by (cases "j < length (lp_futures l)") (simp_all add: thread_ends_def map_update list_update_same_conv list_update_beyond)

lemma loop_step_ok:
  assumes "loop_step cfg (c, l) (c', l')" and "loop_ok l"
  shows "loop_ok l'"
  using assms(1)
proof (cases rule: loop_step.cases)
  case (next_future j)
  then show ?thesis using get_next_future_ok assms(2) by (metis Pair_inject)
next
  case (ends j r)
  have "\<forall>f \<in> set (lp_futures l'). snd f \<noteq> Invalid"
    using assms(2) ends set_update_subset_insert [of "lp_futures l" j] by (fastforce simp: loop_ok_def thread_ends_def)
  moreover have "lp_phase l' = lp_phase l" "lp_queue l' = lp_queue l" "lp_tasks l' = lp_tasks l" "lp_joined l' = lp_joined l"
    using ends by (simp_all add: thread_ends_def)
  ultimately show ?thesis using assms(2) ends thread_ends_fst [of j r l] by (auto simp: loop_ok_def ended_def simp del: mset_map simp flip: mset_map)
qed (use assms(2) in \<open>auto simp: loop_ok_def ended_def choose_next_def start_thread_def start_fails_def drain_def simp flip: mset_hd_tl split: if_splits\<close>)


lemma pool_step_cases:
  assumes "pool_step cfg p p'"
  obtains q where "one_at_a_time cfg \<longrightarrow> list_all ended (pool_loops p)" "p' = p\<lparr>pool_loops := pool_loops p @ [new_loop q]\<rparr>"
  | i c l where "i < length (pool_loops p)" "loop_step cfg (thread_counter p, pool_loops p ! i) (c, l)"
      "thread_counter p' = c" "pool_loops p' = (pool_loops p)[i := l]"
  using assms by cases (auto simp: set_loop_def)

lemma pool_loops_ok: "pool_run cfg start_pool p \<Longrightarrow> \<forall>l \<in> set (pool_loops p). loop_ok l"
proof (induction rule: rtranclp_induct)
  case base
  show ?case by (simp add: start_pool_def)
next
  case (step p p')
  from step(2) show ?case
  proof (cases rule: pool_step_cases)
    case (1 q)
    then show ?thesis using step.IH new_loop_ok by simp
  next
    case (2 i c l)
    then have "loop_ok l" using loop_step_ok step.IH by (meson nth_mem)
    then show ?thesis using 2 step.IH set_update_subset_insert [of "pool_loops p" i l] by auto
  qed
qed

subsection \<open>The counter\<close>

definition outstanding :: "'a thread_pool \<Rightarrow> nat" where
  "outstanding p = (\<Sum>l \<leftarrow> pool_loops p. length (lp_futures l))"

lemma sum_update: "i < length xs \<Longrightarrow> (\<Sum>x \<leftarrow> xs[i := y]. f x) + f (xs ! i) = (\<Sum>x \<leftarrow> xs. f x) + (f y :: nat)"
proof (induction xs arbitrary: i)
  case (Cons x xs)
  then show ?case by (cases i) auto
qed simp

lemma outstanding_update:
  assumes "i < length (pool_loops p)" and "pool_loops p' = (pool_loops p)[i := l]"
  shows "outstanding p' + length (lp_futures (pool_loops p ! i)) = outstanding p + length (lp_futures l)"
  using sum_update [OF assms(1), where f = "\<lambda>l. length (lp_futures l)" and y = l] assms(2) by (simp add: outstanding_def)

abbreviation in_trouble :: "'a pool_loop \<Rightarrow> bool" where
  "in_trouble l \<equiv> lp_phase l = Draining \<or> lp_phase l = Failed"

text \<open>What a step that does not fail does to the counter and to the number of futures.\<close>

lemma loop_step_counts:
  assumes "loop_step cfg (c, l) (c', l')" and "\<not> in_trouble l'"
  shows "\<not> in_trouble l" "c' = c \<and> length (lp_futures l') = length (lp_futures l)
     \<or> c' = c - 1 \<and> length (lp_futures l) = Suc (length (lp_futures l'))
     \<or> c < max_threads cfg \<and> c' = c + 1 \<and> length (lp_futures l') = Suc (length (lp_futures l))"
  using assms
  by (cases rule: loop_step.cases;
      auto simp: get_next_future_def choose_next_def start_thread_def start_fails_def drain_def thread_ends_def Let_def
        split: thread_future.splits prod.splits if_splits)+

lemma unat_next:
  assumes "(c :: 32 word) < m"
  shows "unat (c + 1) = Suc (unat c)" and "Suc (unat c) \<le> unat m"
proof -
  have "unat c < unat m" using assms by (simp add: word_less_nat_alt)
  moreover have "unat m < 2 ^ LENGTH(32)" by (rule unsigned_less)
  ultimately have "Suc (unat c) < 2 ^ 32" by simp
  then show "unat (c + 1) = Suc (unat c)" "Suc (unat c) \<le> unat m" using \<open>unat c < unat m\<close> by (simp_all add: unat_word_ariths)
qed

lemma unat_prev: "0 < unat (c :: 32 word) \<Longrightarrow> unat (c - 1) = unat c - 1"
  by (metis unat_0 unat_minus_one less_numeral_extra(3))

text \<open>As long as nothing fails the counter is the number of threads that have been started and not joined.\<close>

definition counted :: "pool_config \<Rightarrow> 'a thread_pool \<Rightarrow> bool" where
  "counted cfg p \<longleftrightarrow> unat (thread_counter p) = outstanding p \<and> outstanding p \<le> unat (max_threads cfg)"

lemma counted_go:
  assumes "counted cfg p" and i: "i < length (pool_loops p)" and "loop_step cfg (thread_counter p, pool_loops p ! i) (c, l)" and "\<not> in_trouble l"
    and p': "thread_counter p' = c" "pool_loops p' = (pool_loops p)[i := l]"
  shows "counted cfg p'"
proof -
  let ?l = "pool_loops p ! i"
  note upd = outstanding_update [OF i p'(2)]
  from loop_step_counts(2) [OF assms(3,4)] show ?thesis
  proof (elim disjE conjE)
    assume "c = thread_counter p - 1" "length (lp_futures ?l) = Suc (length (lp_futures l))"
    then show ?thesis using assms(1) upd p'(1) unat_prev [of "thread_counter p"] by (auto simp: counted_def)
  next
    assume "thread_counter p < max_threads cfg" "c = thread_counter p + 1" "length (lp_futures l) = Suc (length (lp_futures ?l))"
    then show ?thesis using assms(1) upd p'(1) unat_next [of "thread_counter p" "max_threads cfg"] by (auto simp: counted_def)
  qed (use assms(1) upd p'(1) in \<open>auto simp: counted_def\<close>)
qed

lemma outstanding_enter: "outstanding (p\<lparr>pool_loops := pool_loops p @ [new_loop q]\<rparr>) = outstanding p"
  by (simp add: outstanding_def new_loop_def)

lemma pool_counted: "pool_run cfg start_pool p \<Longrightarrow> \<forall>l \<in> set (pool_loops p). \<not> in_trouble l \<Longrightarrow> counted cfg p"
proof (induction rule: rtranclp_induct)
  case base
  show ?case by (simp add: start_pool_def counted_def outstanding_def)
next
  case (step p p')
  from step(2) show ?case
  proof (cases rule: pool_step_cases)
    case (1 q)
    then show ?thesis using step.IH step.prems by (simp add: counted_def outstanding_enter)
  next
    case (2 i c l)
    have l: "\<not> in_trouble l" using 2 step.prems by (auto simp: set_update_memI)
    have "\<not> in_trouble (pool_loops p ! k)" if k: "k < length (pool_loops p)" for k
    proof (cases "k = i")
      case True
      then show ?thesis using loop_step_counts(1) [OF 2(2) l] by simp
    next
      case False
      then have "pool_loops p ! k \<in> set (pool_loops p')" using k 2(4) nth_mem [of k "pool_loops p'"] by simp
      then show ?thesis using step.prems by blast
    qed
    then have "counted cfg p" using step.IH by (simp add: all_set_conv_all_nth)
    then show ?thesis using counted_go 2 l by blast
  qed
qed

text \<open>When loops are entered one at a time, that holds also after threads have failed.\<close>

definition serial :: "'a thread_pool \<Rightarrow> bool" where
  "serial p \<longleftrightarrow> (\<forall>i. Suc i < length (pool_loops p) \<longrightarrow> ended (pool_loops p ! i))"

lemma ended_no_step: "loop_ok l \<Longrightarrow> ended l \<Longrightarrow> \<not> loop_step cfg (c, l) v"
  by (auto simp: loop_ok_def ended_def elim: loop_step.cases)

lemma loop_step_fails:
  assumes "loop_step cfg (c, l) (c', l')" and "loop_ok l" and "\<not> async_may_fail cfg" and "lp_phase l \<noteq> Draining"
  shows "lp_phase l' \<noteq> Draining" and "lp_phase l' = Failed \<Longrightarrow> c' = 0 \<and> lp_futures l' = []"
  using assms
  by (cases rule: loop_step.cases;
      auto simp: loop_ok_def ended_def get_next_future_def choose_next_def start_thread_def thread_ends_def Let_def
        split: thread_future.splits prod.splits if_splits)+

definition serial_counted :: "pool_config \<Rightarrow> 'a thread_pool \<Rightarrow> bool" where
  "serial_counted cfg p \<longleftrightarrow> serial p \<and> counted cfg p \<and> (\<forall>l \<in> set (pool_loops p). lp_phase l \<noteq> Draining)"

lemma serial_counted_go:
  assumes inv: "serial_counted cfg p" and ok: "\<forall>l \<in> set (pool_loops p). loop_ok l" and safe: "\<not> async_may_fail cfg"
    and i: "i < length (pool_loops p)" and go: "loop_step cfg (thread_counter p, pool_loops p ! i) (c, l)"
    and p': "thread_counter p' = c" "pool_loops p' = (pool_loops p)[i := l]"
  shows "serial_counted cfg p'"
proof -
  let ?l = "pool_loops p ! i"
  have l: "loop_ok ?l" "lp_phase ?l \<noteq> Draining" using ok inv i by (simp_all add: serial_counted_def)
  then have "\<not> ended ?l" using go ended_no_step by blast
  then have last: "\<not> Suc i < length (pool_loops p)" using inv by (auto simp: serial_counted_def serial_def)
  have ser: "serial p'" using inv last p'(2) by (auto simp: serial_counted_def serial_def nth_list_update)
  have drain: "\<forall>l \<in> set (pool_loops p'). lp_phase l \<noteq> Draining"
    using inv p'(2) loop_step_fails(1) [OF go l(1) safe l(2)] set_update_subset_insert [of "pool_loops p" i l] by (auto simp: serial_counted_def)
  have "counted cfg p'"
  proof (cases "lp_phase l = Failed")
    case False
    moreover have "l \<in> set (pool_loops p')" using i p'(2) by (simp add: set_update_memI)
    ultimately have "\<not> in_trouble l" using drain by blast
    then show ?thesis using counted_go [OF _ i go _ p'] inv by (simp add: serial_counted_def)
  next
    case True
    have none: "lp_futures k = []" if "k \<in> set (pool_loops p')" for k
    proof -
      obtain n where n: "n < length (pool_loops p')" "k = pool_loops p' ! n" using \<open>k \<in> _\<close> by (auto simp: in_set_conv_nth)
      show ?thesis
      proof (cases "n = i")
        case False
        then have "Suc n < length (pool_loops p)" "k = pool_loops p ! n" using n last i p'(2) by simp_all
        then have "ended k" "loop_ok k" using inv ok by (simp_all add: serial_counted_def serial_def)
        then show ?thesis by (simp add: loop_ok_def)
      qed (use n p'(2) i loop_step_fails(2) [OF go l(1) safe l(2) True] in simp)
    qed
    then have "outstanding p' = 0" by (auto simp: outstanding_def)
    then show ?thesis using loop_step_fails(2) [OF go l(1) safe l(2) True] p'(1) by (simp add: counted_def)
  qed
  then show ?thesis using ser drain by (simp add: serial_counted_def)
qed

lemma pool_serial_counted:
  assumes "one_at_a_time cfg" and "\<not> async_may_fail cfg"
  shows "pool_run cfg start_pool p \<Longrightarrow> serial_counted cfg p"
proof (induction rule: rtranclp_induct)
  case base
  show ?case by (simp add: start_pool_def serial_counted_def serial_def counted_def outstanding_def)
next
  case (step p p')
  from step(2) show ?case
  proof (cases rule: pool_step_cases)
    case (1 q)
    then have "list_all ended (pool_loops p)" using assms(1) by simp
    then have "serial p'" using 1 by (simp add: serial_def nth_append list_all_length)
    then show ?thesis using step.IH 1 outstanding_enter [of p q] by (simp add: serial_counted_def counted_def new_loop_def)
  next
    case (2 i c l)
    then show ?thesis using serial_counted_go [OF step.IH pool_loops_ok [OF step(1)] assms(2)] by blast
  qed
qed

subsection \<open>Loops can always finish\<close>

text \<open>No thread of the loop has failed.\<close>

definition healthy :: "'a pool_loop \<Rightarrow> bool" where
  "healthy l \<longleftrightarrow> \<not> in_trouble l \<and> (\<forall>f \<in> set (lp_futures l). snd f = Running \<or> snd f = Ready (Some True))"

definition loop_rank :: "'a pool_loop \<Rightarrow> nat" where
  "loop_rank l =
     (if lp_futures l = []
      then (case lp_phase l of Starting \<Rightarrow> if lp_queue l = [] then 4 else 1 | Waiting \<Rightarrow> 3 | Choosing \<Rightarrow> 2 | _ \<Rightarrow> 0)
      else (case lp_phase l of Choosing \<Rightarrow> 3 | Starting \<Rightarrow> 2 | Waiting \<Rightarrow> 1 | _ \<Rightarrow> 0))"

definition future_weight :: "'a \<times> thread_future \<Rightarrow> nat" where
  "future_weight f = (if snd f = Running then 2 else 1)"

definition loop_work :: "'a pool_loop \<Rightarrow> nat" where
  "loop_work l = 6 * (3 * length (lp_queue l) + (\<Sum>f \<leftarrow> lp_futures l. future_weight f)) + loop_rank l"

lemma loop_rank_less: "loop_rank l < 5"
  by (simp add: loop_rank_def split: loop_phase.split)

lemma less_work:
  "3 * length (lp_queue l') + (\<Sum>f \<leftarrow> lp_futures l'. future_weight f) < 3 * length (lp_queue l) + (\<Sum>f \<leftarrow> lp_futures l. future_weight f)
   \<Longrightarrow> loop_work l' < loop_work l"
  using loop_rank_less [of l'] by (simp add: loop_work_def)

lemma end_progress:
  assumes "healthy l" and j: "j < length (lp_futures l)" and r: "snd (lp_futures l ! j) = Running"
  shows "healthy (thread_ends j (Some True) l)" and "loop_work (thread_ends j (Some True) l) < loop_work l"
proof -
  let ?fs = "lp_futures l" and ?f = "(fst (lp_futures l ! j), Ready (Some True))"
  show "healthy (thread_ends j (Some True) l)"
    using assms(1) set_update_subset_insert [of ?fs j ?f] by (fastforce simp: healthy_def thread_ends_def)
  have "future_weight (?fs ! j) = 2" "future_weight ?f = 1" using r by (simp_all add: future_weight_def)
  then show "loop_work (thread_ends j (Some True) l) < loop_work l"
    using sum_update [OF j, where f = future_weight and y = ?f] by (intro less_work) (simp add: thread_ends_def)
qed

lemma join_progress:
  assumes "healthy l" and "lp_futures l = (t, Ready (Some True)) # fs" and "lp_phase l = Waiting"
  shows "\<exists>v. get_next_future 0 (c, l) = Some v \<and> healthy (snd v) \<and> loop_work (snd v) < loop_work l"
proof -
  let ?l = "l\<lparr>lp_futures := fs, lp_phase := Choosing, lp_joined := lp_joined l @ [t]\<rparr>"
  have "loop_work ?l < loop_work l" using assms(2) by (intro less_work) (simp add: future_weight_def)
  moreover have "healthy ?l" using assms(1,2) by (simp add: healthy_def)
  ultimately show ?thesis using assms by (simp add: get_next_future_def)
qed

lemma start_progress:
  assumes "healthy l" and "lp_queue l \<noteq> []" and "lp_phase l = Starting" and "lp_futures l \<noteq> [] \<or> c < max_threads cfg"
  shows "healthy (snd (start_thread cfg (c, l)))" and "loop_work (snd (start_thread cfg (c, l))) < loop_work l"
proof -
  show "healthy (snd (start_thread cfg (c, l)))" using assms(1,3) by (auto simp: start_thread_def healthy_def)
  show "loop_work (snd (start_thread cfg (c, l))) < loop_work l"
  proof (cases "c < max_threads cfg")
    case True
    then show ?thesis using assms(2) by (intro less_work) (cases "lp_queue l", auto simp: start_thread_def future_weight_def)
  next
    case False
    then show ?thesis using assms(3,4) by (simp add: start_thread_def loop_work_def loop_rank_def)
  qed
qed

lemma loop_progress:
  assumes h: "healthy l" and "lp_phase l \<noteq> Finished" and room: "lp_futures l \<noteq> [] \<or> c < max_threads cfg"
  shows "\<exists>v. loop_step cfg (c, l) v \<and> healthy (snd v) \<and> loop_work (snd v) < loop_work l"
proof (cases "\<exists>j < length (lp_futures l). snd (lp_futures l ! j) = Running")
  case True
  then obtain j where j: "j < length (lp_futures l)" "snd (lp_futures l ! j) = Running" by blast
  then show ?thesis using end_progress [OF h j] loop_step.ends [OF j, of cfg c "Some True"]
    by (intro exI [of _ "(c, thread_ends j (Some True) l)"]) simp
next
  case False
  then have joined: "\<forall>f \<in> set (lp_futures l). snd f = Ready (Some True)" using h by (simp add: healthy_def all_set_conv_all_nth)
  show ?thesis
  proof (cases "lp_phase l")
    case Waiting
    show ?thesis
    proof (cases "lp_futures l")
      case Nil
      then show ?thesis using Waiting h loop_step.no_future [OF Waiting Nil, of cfg c]
        by (intro exI [of _ "(c, l\<lparr>lp_phase := Choosing\<rparr>)"]) (simp add: healthy_def loop_work_def loop_rank_def)
    next
      case (Cons f fs)
      then obtain t where "lp_futures l = (t, Ready (Some True)) # fs" using joined by (cases f) auto
      then show ?thesis using join_progress [OF h _ Waiting] loop_step.next_future [OF Waiting, of 0] by (metis length_greater_0_conv list.distinct(1))
    qed
  next
    case Choosing
    then show ?thesis using h loop_step.choose [OF Choosing, of cfg c]
      by (intro exI [of _ "(c, choose_next l)"]) (auto simp: choose_next_def healthy_def loop_work_def loop_rank_def)
  next
    case Starting
    show ?thesis
    proof (cases "lp_queue l = []")
      case True
      then show ?thesis using h Starting loop_step.no_more [OF Starting True, of cfg c]
        by (intro exI [of _ "(c, l\<lparr>lp_phase := Waiting\<rparr>)"]) (simp add: healthy_def loop_work_def loop_rank_def)
    next
      case False
      then show ?thesis using start_progress [OF h False Starting room] loop_step.start [OF Starting False] by blast
    qed
  qed (use h assms(2) in \<open>simp_all add: healthy_def\<close>)
qed

definition good_pool :: "pool_config \<Rightarrow> 'a thread_pool \<Rightarrow> bool" where
  "good_pool cfg p \<longleftrightarrow> counted cfg p \<and> (\<forall>l \<in> set (pool_loops p). healthy l \<and> loop_ok l)"

abbreviation pool_work :: "'a thread_pool \<Rightarrow> nat" where
  "pool_work p \<equiv> (\<Sum>l \<leftarrow> pool_loops p. loop_work l)"

lemma loop_step_tasks: "loop_step cfg (c, l) (c', l') \<Longrightarrow> lp_tasks l' = lp_tasks l"
  by (cases rule: loop_step.cases)
    (auto simp: get_next_future_def choose_next_def start_thread_def start_fails_def drain_def thread_ends_def Let_def
      split: thread_future.splits prod.splits if_splits)

lemma room_somewhere:
  assumes good: "good_pool cfg p" and "0 < max_threads cfg" and "l \<in> set (pool_loops p)" "lp_phase l \<noteq> Finished"
  shows "\<exists>k \<in> set (pool_loops p). lp_phase k \<noteq> Finished \<and> (lp_futures k \<noteq> [] \<or> thread_counter p < max_threads cfg)"
proof (cases "\<exists>k \<in> set (pool_loops p). lp_futures k \<noteq> []")
  case True
  then show ?thesis using good by (auto simp: good_pool_def loop_ok_def ended_def)
next
  case False
  then have "outstanding p = 0" by (simp add: outstanding_def)
  then have "thread_counter p = 0" using good by (simp add: good_pool_def counted_def unat_eq_0)
  then show ?thesis using assms by auto
qed

lemma pool_progress:
  assumes good: "good_pool cfg p" and "0 < max_threads cfg" and "l \<in> set (pool_loops p)" "lp_phase l \<noteq> Finished"
  shows "\<exists>p'. pool_step cfg p p' \<and> good_pool cfg p' \<and> pool_work p' < pool_work p \<and> map lp_tasks (pool_loops p') = map lp_tasks (pool_loops p)"
proof -
  let ?c = "thread_counter p"
  obtain i where i: "i < length (pool_loops p)" "lp_phase (pool_loops p ! i) \<noteq> Finished" "lp_futures (pool_loops p ! i) \<noteq> [] \<or> ?c < max_threads cfg"
    using room_somewhere [OF assms] by (auto simp: in_set_conv_nth)
  let ?l = "pool_loops p ! i"
  have l: "healthy ?l" "loop_ok ?l" using good i(1) by (simp_all add: good_pool_def)
  obtain c' l' where go: "loop_step cfg (?c, ?l) (c', l')" "healthy l'" "loop_work l' < loop_work ?l"
    using loop_progress [OF l(1) i(2,3)] by auto
  let ?p = "set_loop p i (c', l')"
  have p': "thread_counter ?p = c'" "pool_loops ?p = (pool_loops p)[i := l']" by (simp_all add: set_loop_def)
  have "counted cfg ?p" using counted_go [OF _ i(1) go(1) _ p'] good go(2) by (simp add: good_pool_def healthy_def)
  moreover have "\<forall>k \<in> set (pool_loops ?p). healthy k \<and> loop_ok k"
    using good go(2) loop_step_ok [OF go(1) l(2)] set_update_subset_insert [of "pool_loops p" i l'] p'(2) by (auto simp: good_pool_def)
  moreover have "pool_work ?p < pool_work p" using sum_update [OF i(1), where f = loop_work and y = l'] go(3) p'(2) by simp
  moreover have "map lp_tasks (pool_loops ?p) = map lp_tasks (pool_loops p)"
    using loop_step_tasks [OF go(1)] i(1) p'(2) by (simp add: map_update list_update_same_conv)
  moreover have "pool_step cfg p ?p" by (rule pool_step.go [OF i(1) go(1)])
  ultimately show ?thesis by (auto simp: good_pool_def)
qed

lemma good_pool_finishes:
  assumes "0 < max_threads cfg"
  shows "good_pool cfg p \<Longrightarrow> \<exists>p'. pool_run cfg p p' \<and> good_pool cfg p' \<and> map lp_tasks (pool_loops p') = map lp_tasks (pool_loops p)
    \<and> (\<forall>l \<in> set (pool_loops p'). lp_phase l = Finished)"
proof (induction "pool_work p" arbitrary: p rule: less_induct)
  case less
  show ?case
  proof (cases "\<forall>l \<in> set (pool_loops p). lp_phase l = Finished")
    case True
    then show ?thesis using less.prems by blast
  next
    case False
    then obtain q where q: "pool_step cfg p q" "good_pool cfg q" "pool_work q < pool_work p" "map lp_tasks (pool_loops q) = map lp_tasks (pool_loops p)"
      using pool_progress [OF less.prems assms] by blast
    from less.hyps [OF q(3,2)] show ?thesis using q(1,4) by (metis converse_rtranclp_into_rtranclp)
  qed
qed

lemma good_reachable:
  assumes "pool_run cfg start_pool p" and "\<forall>l \<in> set (pool_loops p). healthy l"
  shows "good_pool cfg p"
  using pool_counted [OF assms(1)] pool_loops_ok [OF assms(1)] assms(2) by (simp add: good_pool_def healthy_def)

subsection \<open>A loop that never ends\<close>





abbreviation loop_run :: "pool_config \<Rightarrow> 'a loop_view \<Rightarrow> 'a loop_view \<Rightarrow> bool" where
  "loop_run cfg \<equiv> (loop_step cfg)\<^sup>*\<^sup>*"

lemma pool_loop_run:
  assumes "i < length ls" and "loop_run cfg (c, ls ! i) v"
  shows "pool_run cfg \<lparr>thread_counter = c, pool_loops = ls\<rparr> \<lparr>thread_counter = fst v, pool_loops = ls[i := snd v]\<rparr>"
  using assms(2)
proof (induction rule: rtranclp_induct)
  case base
  show ?case by simp
next
  case (step v w)
  let ?p = "\<lparr>thread_counter = fst v, pool_loops = ls[i := snd v]\<rparr>"
  have "pool_step cfg ?p (set_loop ?p i w)" using step(2) assms(1) by (intro pool_step.go) simp_all
  then show ?case using step.IH by (simp add: set_loop_def)
qed

lemma pool_enter:
  assumes "\<not> one_at_a_time cfg"
  shows "pool_step cfg \<lparr>thread_counter = c, pool_loops = ls\<rparr> \<lparr>thread_counter = c, pool_loops = ls @ [new_loop q]\<rparr>"
  using pool_step.enter [of cfg "\<lparr>thread_counter = c, pool_loops = ls\<rparr>" q] assms by simp

definition working :: "'a \<Rightarrow> 'a pool_loop" where
  "working t = \<lparr>lp_queue = [], lp_futures = [(t, Running)], lp_phase = Starting, lp_tasks = [t], lp_joined = []\<rparr>"

lemma work_starts:
  assumes "c < max_threads cfg"
  shows "loop_run cfg (c, new_loop [t]) (c + 1, working t)"
proof -
  let ?l = "new_loop [t]"
  have "loop_run cfg (c, ?l) (c, ?l\<lparr>lp_phase := Choosing\<rparr>)"
    by (intro r_into_rtranclp loop_step.no_future) (simp_all add: new_loop_def)
  also have "loop_step cfg (c, ?l\<lparr>lp_phase := Choosing\<rparr>) (c, ?l\<lparr>lp_phase := Starting\<rparr>)"
    using loop_step.choose [of "?l\<lparr>lp_phase := Choosing\<rparr>" cfg c] by (simp add: choose_next_def new_loop_def)
  also have "loop_step cfg (c, ?l\<lparr>lp_phase := Starting\<rparr>) (c + 1, working t)"
    using loop_step.start [of "?l\<lparr>lp_phase := Starting\<rparr>" cfg c] assms by (simp add: start_thread_def new_loop_def working_def)
  finally show ?thesis .
qed




text \<open>Two loops at work, each with one thread.\<close>

lemma two_working:
  assumes "\<not> one_at_a_time cfg" and "1 < max_threads cfg"
  shows "pool_run cfg start_pool \<lparr>thread_counter = 2, pool_loops = [working a, working b]\<rparr>"
proof -
  have "max_threads cfg \<noteq> 0" using assms(2) by auto
  then have "0 < max_threads cfg" by (simp add: word_neq_0_conv)
  have "pool_step cfg start_pool \<lparr>thread_counter = 0, pool_loops = [new_loop [a]]\<rparr>"
    using pool_enter [OF assms(1), of 0 "[]"] by (simp add: start_pool_def)
  also have "pool_run cfg \<lparr>thread_counter = 0, pool_loops = [new_loop [a]]\<rparr> \<lparr>thread_counter = 1, pool_loops = [working a]\<rparr>"
    using pool_loop_run [of 0 "[new_loop [a]]"] work_starts [OF \<open>0 < max_threads cfg\<close>] by fastforce
  also have "pool_step cfg \<lparr>thread_counter = 1, pool_loops = [working a]\<rparr> \<lparr>thread_counter = 1, pool_loops = [working a, new_loop [b]]\<rparr>"
    using pool_enter [OF assms(1), of 1 "[working a]"] by simp
  also have "pool_run cfg \<lparr>thread_counter = 1, pool_loops = [working a, new_loop [b]]\<rparr> \<lparr>thread_counter = 2, pool_loops = [working a, working b]\<rparr>"
    using pool_loop_run [of 1 "[working a, new_loop [b]]"] work_starts [OF assms(2), of b] by fastforce
  finally show ?thesis .
qed


text \<open>Two loops, each with one thread, in a pool of eight.\<close>

definition sample_pool_config :: pool_config where
  "sample_pool_config = \<lparr>max_threads = 8, counts_first = True, one_at_a_time = False, async_may_fail = True\<rparr>"

definition sample_pool :: "nat thread_pool" where
  "sample_pool = \<lparr>thread_counter = 2, pool_loops = [working 3, working 4]\<rparr>"

lemma sample_pool_reached: "pool_run sample_pool_config start_pool sample_pool"
  unfolding sample_pool_def by (rule two_working) (simp_all add: sample_pool_config_def)

subsection \<open>Properties\<close>

text \<open>
  In every reachable state every loop is well formed: all futures are valid, a loop that has ended has no futures left, one that
  has finished has an empty queue, and unless it has failed each of its chunks is exactly once in the queue, in the hands of a
  thread, or joined.
\<close>

theorem pool_well_formed:
  assumes "pool_run cfg start_pool p"
  shows "list_all loop_ok (pool_loops p)"
  using pool_loops_ok [OF assms] by (simp add: list_all_iff)

theorem pool_well_formed_witness: "list_all loop_ok (pool_loops sample_pool)"
  by (rule pool_well_formed [OF sample_pool_reached])

text \<open>
  C20: The counter of a pool is exact.  While no loop has failed or is in its catch clause it is the number of threads that have been started and not
  joined, and never more than the configured maximum; when loops run one at a time and the system never refuses to start a thread, as for transfers,
  this holds after failures too.
\<close>

theorem thread_counter_exact:
  assumes "pool_run cfg start_pool p"
    and "(\<forall>l \<in> set (pool_loops p). \<not> in_trouble l) \<or> one_at_a_time cfg \<and> \<not> async_may_fail cfg"
  shows "unat (thread_counter p) = outstanding p \<and> outstanding p \<le> unat (max_threads cfg)"
  using pool_counted [OF assms(1)] pool_serial_counted [OF _ _ assms(1)] assms(2) by (auto simp: serial_counted_def counted_def)

theorem thread_counter_exact_witness:
  "unat (thread_counter sample_pool) = outstanding sample_pool \<and> outstanding sample_pool \<le> unat (max_threads sample_pool_config)"
  by (rule thread_counter_exact [OF sample_pool_reached]) (simp add: sample_pool_def working_def)

text \<open>
  In every reachable state in which no thread has failed, however the loops that share the counter have been interleaved, there
  is a run in which all of them finish, and then each one has joined a thread for each of its chunks.
\<close>

theorem loops_can_finish:
  assumes "pool_run cfg start_pool p" and "0 < max_threads cfg" and "\<forall>l \<in> set (pool_loops p). healthy l"
  shows "\<exists>p'. pool_run cfg p p' \<and> map lp_tasks (pool_loops p') = map lp_tasks (pool_loops p)
    \<and> list_all (\<lambda>l. lp_phase l = Finished \<and> mset (lp_joined l) = mset (lp_tasks l)) (pool_loops p')"
proof -
  obtain p' where p': "pool_run cfg p p'" "good_pool cfg p'" "map lp_tasks (pool_loops p') = map lp_tasks (pool_loops p)"
      "\<forall>l \<in> set (pool_loops p'). lp_phase l = Finished"
    using good_pool_finishes [OF assms(2) good_reachable [OF assms(1,3)]] by blast
  then show ?thesis by (intro exI [of _ p']) (auto simp: good_pool_def loop_ok_def ended_def list_all_iff)
qed

theorem loops_can_finish_witness:
  "\<exists>p'. pool_run sample_pool_config sample_pool p' \<and> map lp_tasks (pool_loops p') = [[3], [4]]
    \<and> list_all (\<lambda>l. lp_phase l = Finished \<and> mset (lp_joined l) = mset (lp_tasks l)) (pool_loops p')"
  using loops_can_finish [OF sample_pool_reached] by (simp add: sample_pool_config_def sample_pool_def working_def healthy_def)



end
