(* ===== verification/Spec2Isabelle.thy ===== *)
theory Spec2Isabelle
  imports Bes_Util Bes_Lists Bes_Path Ppt_Connection Bes_Info Bes_Registry Bes_Keys Bes_Storage Bes_Handlers
    Obj_Mem_Cache Bes_Server Bes_File_Cache Dmrpp_Cover Dmrpp_Threads
begin

text \<open>
  The Back-End Server (BES) of Hyrax, the OPeNDAP data server: a verification development for its C++
  sources.

  \<^bold>\<open>The program.\<close>  A front end opens a connection to a BES listener process (\<^verbatim>\<open>src/server\<close>) and sends XML request
  documents over the PPT protocol (\<^verbatim>\<open>src/ppt\<close>).  The listener hands each document to
  \<^verbatim>\<open>BESXMLInterface\<close> (\<^verbatim>\<open>src/xmlcommand\<close>, on top of \<^verbatim>\<open>src/dispatch/BESInterface.cc\<close>), which turns its
  elements into commands, executes them through response and request handlers found in tables, and transmits
  the responses.  Containers, definitions and catalogs are the state that commands set up for later ones;
  contexts and the configuration keys steer the server; informational and error responses are written by the
  \<^verbatim>\<open>BESInfo\<close> classes.  Of the modules that read data, the DMR++ module (\<^verbatim>\<open>src/modules/dmrpp_module\<close>) is here: it knows from a
  document where the values of an array are in a remote file, gets them with libcurl (\<^verbatim>\<open>src/http\<close>), decodes them and
  picks the elements that the client asked for.

  \<^bold>\<open>The theories\<close>, in the order in which they depend on each other:

  \<^item> \<^verbatim>\<open>Bes_Prelude\<close>: errors, results, \<^verbatim>\<open>std::string\<close>; \<^verbatim>\<open>Std_Map\<close>: \<^verbatim>\<open>std::map\<close> as an ordered association list,
    with the locale \<open>keyed_store\<close>; \<^verbatim>\<open>Std_Numbers\<close>: reading and printing numbers, conversions between widths.
  \<^item> \<^verbatim>\<open>Bes_Util\<close>, \<^verbatim>\<open>Bes_Lists\<close>, \<^verbatim>\<open>Bes_Path\<close>: \<^verbatim>\<open>dispatch/BESUtil.cc\<close>.  Escaping and entity encoding with their round
    trips, exploding and imploding lists and URLs, tokenising; joining and normalising paths, and the check
    that a path leaves neither the data directory nor, through symbolic links, the tree.
  \<^item> \<^verbatim>\<open>Bes_Keys\<close>: \<^verbatim>\<open>kvp_utils.cc\<close>, \<^verbatim>\<open>TheBESKeys.cc\<close>, \<^verbatim>\<open>BESFSDir.cc\<close>, \<^verbatim>\<open>BESFSFile.cc\<close>.  Loading ends, even when files
    include each other, if they can be read to their end, and hangs on a file that cannot; what the keys print as a configuration loads back to the same keys.
  \<^item> \<^verbatim>\<open>Bes_Info\<close>: \<^verbatim>\<open>BESInfo.cc\<close>, \<^verbatim>\<open>BESTextInfo.cc\<close>, \<^verbatim>\<open>BESHTMLInfo.cc\<close>, \<^verbatim>\<open>BESXMLInfo.cc\<close>.  The locales \<open>info_sink\<close> and
    \<open>total_info_sink\<close> are the contract of an informational response; the three classes interpret them.
  \<^item> \<^verbatim>\<open>Bes_Registry\<close>: \<^verbatim>\<open>BESContextManager.cc\<close> and \<^verbatim>\<open>BESServiceRegistry.cc\<close>, the latter as a step relation whose
    reachable states keep every handled service available.
  \<^item> \<^verbatim>\<open>Bes_Storage\<close>: containers, definitions, their stores and the lists of stores, and the catalogs, with the locale
    \<open>counted_list\<close> for lists that count their users.
  \<^item> \<^verbatim>\<open>Bes_Handlers\<close>: the tables of request handlers, response handlers, reporters, builders and transmitters, the walk
    over the containers of a request, and \<^verbatim>\<open>BESTokenizer.cc\<close>.
  \<^item> \<^verbatim>\<open>Ppt_Connection\<close>: \<^verbatim>\<open>PPTConnection.cc\<close>, \<^verbatim>\<open>PPTStreamBuf.cc\<close>, \<^verbatim>\<open>Socket.cc\<close>.  The locale \<open>socket_source\<close> says what the receiver
    relies on; sockets that deliver arbitrary segments interpret it.
  \<^item> \<^verbatim>\<open>Bes_Xml\<close>: \<^verbatim>\<open>BESXMLUtils.cc\<close> and the table of \<^verbatim>\<open>BESXMLCommand.cc\<close>; \<^verbatim>\<open>Bes_Services\<close>: \<^verbatim>\<open>ServerAdministrator.cc\<close> and
    \<^verbatim>\<open>RequestServiceTimer.cc\<close>.
  \<^item> \<^verbatim>\<open>Bes_Act\<close>: actions that change a state and may throw, and rules for what they keep.
  \<^item> \<^verbatim>\<open>Bes_Interface\<close>: \<^verbatim>\<open>BESInterface.cc\<close> and \<^verbatim>\<open>BESXMLInterface.cc\<close>, one request from the document to the response, with all
    exceptions; \<^verbatim>\<open>Bes_Server\<close>: \<^verbatim>\<open>BESServerHandler.cc\<close>, a whole session of a client with the listener.
  \<^item> \<^verbatim>\<open>Obj_Mem_Cache\<close>: \<^verbatim>\<open>dap/ObjMemCache.cc\<close>, refining a least-recently-used list; \<^verbatim>\<open>Bes_File_Cache\<close>: \<^verbatim>\<open>dispatch/BESFileLockingCache.cc\<close>,
    whose purge is compared with a reference definition; files have inodes, since closing any descriptor of the control
    file drops the lock that the process holds on it.
  \<^item> \<^verbatim>\<open>Dmrpp_Index\<close>, \<^verbatim>\<open>Dmrpp_Array\<close>, \<^verbatim>\<open>Dmrpp_Slab\<close>: indices, and the copying of constrained data from one piece and from chunks
    (\<^verbatim>\<open>DmrppArray.cc\<close>), proved to give the elements that the constraint selects; \<^verbatim>\<open>Dmrpp_Filters\<close>: the filters of
    \<^verbatim>\<open>Chunk.cc\<close>; \<^verbatim>\<open>Http_Curl\<close>: attempts and retries of \<^verbatim>\<open>http/CurlUtils.cc\<close>; \<^verbatim>\<open>Dmrpp_Chunk\<close>: the transfer of a chunk
    (\<^verbatim>\<open>Chunk.cc\<close>, \<^verbatim>\<open>CurlHandlePool.cc\<close>); \<^verbatim>\<open>Dmrpp_Super\<close>: \<^verbatim>\<open>SuperChunk.cc\<close> and arrays in chunks; \<^verbatim>\<open>Dmrpp_Read\<close>: their
    correctness, with the locale \<open>chunk_inserter\<close> for the two ways to put a chunk into an array; \<^verbatim>\<open>Dmrpp_Var\<close>:
    \<^verbatim>\<open>DmrppArray::read\<close> after the chunks have been loaded; \<^verbatim>\<open>Dmrpp_Base64\<close>: \<^verbatim>\<open>Base64.h\<close>; \<^verbatim>\<open>Dmrpp_Load\<close>: how \<^verbatim>\<open>DMZ.cc\<close> and
    \<^verbatim>\<open>DmrppCommon.cc\<close> load the chunks of a variable from the document; \<^verbatim>\<open>Dmrpp_Cover\<close>: with the chunks of fill values that are
    added, the chunks cover the array, and \<^verbatim>\<open>DmrppArray::read\<close> is correct from the document on.
  \<^item> \<^verbatim>\<open>Dmrpp_Threads\<close>: the pools of transfer and computation threads of \<^verbatim>\<open>DmrppArray.cc\<close> and \<^verbatim>\<open>SuperChunk.cc\<close> as a step relation
    on a shared counter and the loops that start and join threads, interleaved.  The counter is exact until a thread fails, and a
    failure beside another loop can block the pool for good.  The theories on reading leave the order of the threads and
    how many handles the other transfers hold at that moment as parameters.

  \<^bold>\<open>Bounds and fuel.\<close>  Loops whose end depends on data take fuel and return \<^const>\<open>None\<close> (or \<open>Starved\<close>)
  when it runs out; the theorems that say what they return also say how much is enough: a message takes at most
  one unit per chunk and two more, loading keys one unit per file that can be opened, a session one per command
  and one for the exit.  Lengths of strings and containers are unbounded naturals, except where a width
  matters: chunk headers have seven hexadecimal digits, reference counts, replacement counts and cache ages 32 bits, numbers read from
  text the width of the C type, and the sizes, offsets and indices of the DMR++ module 32 or 64 bits as in the source.

  \<^bold>\<open>Parameters.\<close>  The operating system (files, directories, sockets, clock), regular expressions, libxml2's parser and
  writer, and the virtual functions of commands, handlers and transmitters are arguments of the definitions
  that use them; so are libcurl with the network, zlib, fresh memory, the order in which threads end and the handles that transfers
  running at the same time hold.  Failures of system calls, unlocking and closing included, are parameters too.

  \<^bold>\<open>Not modelled.\<close>  The daemon and its process control, the command line clients and the stand-alone client,
  logging and \<^verbatim>\<open>dump\<close> methods; the DAP objects and response builders, which are glue around libdap; the
  format handlers under \<^verbatim>\<open>src/modules\<close> other than the DMR++ module, which read files through the HDF4, HDF5, netCDF, FITS and
  FreeForm libraries; the vendored parsers \<^verbatim>\<open>pugixml\<close> and \<^verbatim>\<open>rapidjson\<close>.
\<close>

end
